(* ===== verification/Prelude.thy ===== *)
theory Prelude
  imports Main "HOL-Library.Word" "HOL-Library.Monad_Syntax"
begin

text \<open>
  What every component of the game shares: C strings and byte buffers, the string functions of
  the C library that the sources call, 32-bit integers, the little-endian layout of the structs
  on the wire, decimal printing and \<open>strtol\<close>.

  A byte is a \<^typ>\<open>char\<close>; a buffer is a list of bytes; the C string held by a buffer is what stands
  before its first NUL byte.
\<close>

named_theorems c_string
named_theorems wire

type_synonym bytes = "char list"

abbreviation NUL :: char where "NUL \<equiv> CHR 0x00"
abbreviation NL :: char where "NL \<equiv> CHR 0x0A"
abbreviation CR :: char where "CR \<equiv> CHR 0x0D"
abbreviation COLON :: char where "COLON \<equiv> CHR 0x3A"

section \<open>C strings\<close>

definition cstr :: "bytes \<Rightarrow> string" where
  "cstr b = takeWhile (\<lambda>c. c \<noteq> NUL) b"

definition nul_free :: "string \<Rightarrow> bool" where
  "nul_free s \<longleftrightarrow> NUL \<notin> set s"

text \<open>
  \<open>strcmp\<close>: the C standard fixes only the sign of the result; bytes compare as
  \<open>unsigned char\<close>.
\<close>

fun strcmp :: "string \<Rightarrow> string \<Rightarrow> int" where
  "strcmp [] [] = 0"
| "strcmp [] (b # bs) = -1"
| "strcmp (a # as) [] = 1"
| "strcmp (a # as) (b # bs) =
     (if (of_char a :: nat) < of_char b then -1
      else if (of_char b :: nat) < of_char a then 1
      else strcmp as bs)"

text \<open>
  \<open>strncpy(dst, src, n - 1); dst[n - 1] = 0\<close>: the whole buffer of \<open>n\<close> bytes, zero padded,
  and the string it then holds.
\<close>

definition strncpy_buf :: "nat \<Rightarrow> string \<Rightarrow> bytes" where
  "strncpy_buf n src = take (n - 1) src @ replicate (n - length (take (n - 1) src)) NUL"

definition strncpy_str :: "nat \<Rightarrow> string \<Rightarrow> string" where
  "strncpy_str n src = take (n - 1) src"

text \<open>\<open>snprintf(dst, n, ...)\<close> keeps at most \<open>n - 1\<close> bytes of the formatted text.\<close>

definition snprintf_str :: "nat \<Rightarrow> string \<Rightarrow> string" where
  "snprintf_str n s = take (n - 1) s"

text \<open>The text that \<open>'%s'\<close> prints.\<close>

definition quoted :: "string \<Rightarrow> string" where
  "quoted s = CHR 0x27 # s @ [CHR 0x27]"

text \<open>\<open>strchr(s, c)\<close>, with the text before the match and the text after it.\<close>

fun split_at :: "char \<Rightarrow> string \<Rightarrow> (string \<times> string) option" where
  "split_at c [] = None"
| "split_at c (x # xs) =
     (if x = c then Some ([], xs)
      else (case split_at c xs of None \<Rightarrow> None | Some (u, v) \<Rightarrow> Some (x # u, v)))"

lemma strcmp_eq_0 [simp, c_string]: "strcmp a b = 0 \<longleftrightarrow> a = b"
  by (induction a b rule: strcmp.induct) auto

lemma strcmp_neg: "strcmp b a = - strcmp a b"
  by (induction a b rule: strcmp.induct) auto

lemma strcmp_trans: "strcmp a b \<le> 0 \<Longrightarrow> strcmp b c \<le> 0 \<Longrightarrow> strcmp a c \<le> 0"
proof (induction a b arbitrary: c rule: strcmp.induct)
  case (1 c)
  then show ?case by simp
next
  case (2 b bs c)
  then show ?case by (cases c) auto
next
  case (3 a as c)
  then show ?case by simp
next
  case (4 a as b bs c)
  then obtain d ds where c: "c = d # ds" by (cases c) auto
  have le: "(of_char a :: nat) \<le> of_char b" "(of_char b :: nat) \<le> of_char d"
    using 4 c by (simp_all split: if_splits)
  show ?case
  proof (cases "(of_char a :: nat) = of_char b \<and> (of_char b :: nat) = of_char d")
    case True
    then show ?thesis using 4 c by simp
  next
    case False
    then have "(of_char a :: nat) < of_char d" using le by linarith
    then show ?thesis using c by simp
  qed
qed

lemma strcmp_self [simp, c_string]: "strcmp a a = 0"
  by simp

lemma strcmp_le_iff: "strcmp a b \<le> 0 \<longleftrightarrow> strcmp a b < 0 \<or> a = b"
  using strcmp_eq_0 [of a b] by linarith

lemma strcmp_asym: "strcmp a b < 0 \<Longrightarrow> \<not> strcmp b a < 0"
  using strcmp_neg [of b a] by linarith

lemma strcmp_linear: "strcmp a b < 0 \<or> a = b \<or> strcmp b a < 0"
  using strcmp_neg [of b a] strcmp_eq_0 [of a b] by linarith

lemma strcmp_less_trans: "strcmp a b < 0 \<Longrightarrow> strcmp b c < 0 \<Longrightarrow> strcmp a c < 0"
  using strcmp_trans [of a b c] strcmp_asym by (auto simp: strcmp_le_iff)

lemma cstr_nul_free [simp, c_string]: "nul_free (cstr b)"
  by (auto simp: nul_free_def cstr_def dest: set_takeWhileD)

lemma cstr_id [simp, c_string]: "nul_free s \<Longrightarrow> cstr s = s"
  by (auto simp: nul_free_def cstr_def)

lemma cstr_Nil [simp]: "cstr [] = []"
  by (simp add: cstr_def)

lemma cstr_append_NUL [simp, c_string]: "nul_free s \<Longrightarrow> cstr (s @ NUL # b) = s"
  by (auto simp: nul_free_def cstr_def takeWhile_append)

lemma nul_free_simps [simp, c_string]:
  "nul_free []"
  "nul_free (c # s) \<longleftrightarrow> c \<noteq> NUL \<and> nul_free s"
  "nul_free (s @ t) \<longleftrightarrow> nul_free s \<and> nul_free t"
  by (auto simp: nul_free_def)

lemma nul_free_take [simp, c_string]: "nul_free s \<Longrightarrow> nul_free (take n s)"
  by (auto simp: nul_free_def dest: in_set_takeD)

lemma length_strncpy_buf [simp, c_string]: "0 < n \<Longrightarrow> length (strncpy_buf n s) = n"
  by (auto simp: strncpy_buf_def)

lemma strncpy_buf_nul: "0 < n \<Longrightarrow> NUL \<in> set (strncpy_buf n s)"
  by (auto simp: strncpy_buf_def min_def)

lemma cstr_strncpy_buf: "0 < n \<Longrightarrow> nul_free s \<Longrightarrow> cstr (strncpy_buf n s @ b) = take (n - 1) s"
proof -
  assume n: "0 < n" and s: "nul_free s"
  have "\<exists>m. n - length (take (n - 1) s) = Suc m"
    using n by (intro Suc_le_D [of 0, simplified]) (auto simp: min_def)
  then obtain m where m: "n - length (take (n - 1) s) = Suc m" ..
  then have "strncpy_buf n s @ b = take (n - 1) s @ NUL # (replicate m NUL @ b)"
    by (simp add: strncpy_buf_def del: length_take)
  then show ?thesis using s by simp
qed

lemma strncpy_str_short [simp, c_string]: "length s < n \<Longrightarrow> strncpy_str n s = s"
  by (simp add: strncpy_str_def)

lemma length_strncpy_str [c_string]: "0 < n \<Longrightarrow> length (strncpy_str n s) < n"
  by (auto simp: strncpy_str_def)

lemma nul_free_strncpy_str [simp, c_string]: "nul_free s \<Longrightarrow> nul_free (strncpy_str n s)"
  by (simp add: strncpy_str_def)

lemma nul_free_quoted [simp, c_string]: "nul_free (quoted s) \<longleftrightarrow> nul_free s"
  by (simp add: quoted_def nul_free_def)

lemma split_at_Some:
  "split_at c s = Some (u, v) \<Longrightarrow> s = u @ c # v \<and> c \<notin> set u"
  by (induction s arbitrary: u) (auto split: if_splits option.splits)

lemma split_at_None [simp, c_string]: "split_at c s = None \<longleftrightarrow> c \<notin> set s"
  by (induction s) (auto split: option.splits)

lemma split_at_absent [simp, c_string]: "c \<notin> set s \<Longrightarrow> split_at c s = None"
  by simp

lemma split_at_append [simp, c_string]: "c \<notin> set u \<Longrightarrow> split_at c (u @ c # v) = Some (u, v)"
  by (induction u) auto

section \<open>32-bit integers\<close>

definition to_int32 :: "int \<Rightarrow> int" where
  "to_int32 x = sint (word_of_int x :: 32 word)"

definition in_int32 :: "int \<Rightarrow> bool" where
  "in_int32 x \<longleftrightarrow> - (2 ^ 31) \<le> x \<and> x < 2 ^ 31"

lemma to_int32_id [simp]: "in_int32 x \<Longrightarrow> to_int32 x = x"
  by (simp add: to_int32_def in_int32_def int_word_sint)

lemma in_int32_to_int32 [simp]: "in_int32 (to_int32 x)"
  using sint_range_size [of "word_of_int x :: 32 word"]
  by (auto simp: to_int32_def in_int32_def word_size)

section \<open>The wire layout\<close>

text \<open>Little-endian bytes of an unsigned number, and back.\<close>

fun le_bytes :: "nat \<Rightarrow> nat \<Rightarrow> bytes" where
  "le_bytes 0 x = []"
| "le_bytes (Suc n) x = char_of (x mod 256) # le_bytes n (x div 256)"

fun le_val :: "bytes \<Rightarrow> nat" where
  "le_val [] = 0"
| "le_val (c # cs) = of_char c + 256 * le_val cs"

definition enc_int :: "int \<Rightarrow> bytes" where
  "enc_int x = le_bytes 4 (unat (word_of_int x :: 32 word))"

definition dec_int :: "bytes \<Rightarrow> int" where
  "dec_int b = sint (word_of_nat (le_val (take 4 b)) :: 32 word)"

definition enc_u16 :: "nat \<Rightarrow> bytes" where
  "enc_u16 x = le_bytes 2 (x mod 2 ^ 16)"

definition dec_u16 :: "bytes \<Rightarrow> nat" where
  "dec_u16 b = le_val (take 2 b)"

lemma length_le_bytes [simp, wire]: "length (le_bytes n x) = n"
  by (induction n arbitrary: x) auto

lemma le_val_le_bytes [simp, wire]: "le_val (le_bytes n x) = x mod 256 ^ n"
proof (induction n arbitrary: x)
  case 0
  then show ?case by simp
next
  case (Suc n)
  have "x mod (256 * 256 ^ n) = 256 * (x div 256 mod 256 ^ n) + x mod 256"
    by (rule mod_mult2_eq)
  then show ?case using Suc by simp
qed

lemma le_val_bound: "le_val b < 256 ^ length b"
proof (induction b)
  case Nil
  then show ?case by simp
next
  case (Cons c b)
  define k where "k = (of_char c :: nat)"
  have "k < 256" by (simp add: k_def)
  then have "of_char c + 256 * le_val b < 256 * Suc (le_val b)" by (simp flip: k_def)
  also have "\<dots> \<le> 256 * 256 ^ length b" using Cons by (intro mult_le_mono2) simp
  finally show ?case by simp
qed

lemma length_enc [simp, wire]: "length (enc_int x) = 4" "length (enc_u16 n) = 2"
  by (simp_all add: enc_int_def enc_u16_def)

lemma dec_enc_int [simp, wire]: "dec_int (enc_int x @ b) = to_int32 x"
proof -
  have "unat (word_of_int x :: 32 word) < 256 ^ 4"
    using unsigned_less [of "word_of_int x :: 32 word"] by simp
  then show ?thesis by (simp add: dec_int_def enc_int_def to_int32_def)
qed

lemma dec_enc_int_Nil [simp, wire]: "dec_int (enc_int x) = to_int32 x"
  using dec_enc_int [of x "[]"] by simp

lemma dec_enc_u16 [simp, wire]: "dec_u16 (enc_u16 n @ b) = n mod 2 ^ 16"
  by (simp add: dec_u16_def enc_u16_def)

lemma dec_u16_bound: "dec_u16 b < 2 ^ 16"
proof -
  have "le_val (take 2 b) < 256 ^ length (take 2 b)" by (rule le_val_bound)
  also have "\<dots> \<le> 256 ^ 2" by (rule power_increasing) auto
  finally show ?thesis by (simp add: dec_u16_def)
qed

section \<open>Decimal numbers\<close>

definition digit_char :: "nat \<Rightarrow> char" where
  "digit_char n = char_of (48 + n)"

definition is_digit :: "char \<Rightarrow> bool" where
  "is_digit c \<longleftrightarrow> 48 \<le> (of_char c :: nat) \<and> (of_char c :: nat) \<le> 57"

definition is_space :: "char \<Rightarrow> bool" where
  "is_space c \<longleftrightarrow> (of_char c :: nat) = 32 \<or> (9 \<le> (of_char c :: nat) \<and> (of_char c :: nat) \<le> 13)"

fun show_nat :: "nat \<Rightarrow> string" where
  "show_nat n = (if n < 10 then [digit_char n] else show_nat (n div 10) @ [digit_char (n mod 10)])"

declare show_nat.simps [simp del]

text \<open>What \<open>printf\<close> writes for \<open>%d\<close>.\<close>

definition show_int :: "int \<Rightarrow> string" where
  "show_int x = (if x < 0 then CHR ''-'' # show_nat (nat (- x)) else show_nat (nat x))"

definition digits_val :: "string \<Rightarrow> nat" where
  "digits_val ds = foldl (\<lambda>n c. 10 * n + (of_char c - 48)) 0 ds"

text \<open>
  \<open>strtol(s, &endptr, 10)\<close> with a 64-bit \<open>long\<close>: the value, saturated, and what \<open>endptr\<close>
  points to; with no digit the value is 0 and \<open>endptr\<close> is \<open>s\<close>.
\<close>

definition strtol_sign :: "string \<Rightarrow> bool \<times> string" where
  "strtol_sign s =
     (case s of [] \<Rightarrow> (False, [])
      | c # cs \<Rightarrow> if c = CHR ''-'' then (True, cs) else if c = CHR ''+'' then (False, cs) else (False, s))"

definition strtol10 :: "string \<Rightarrow> int \<times> string" where
  "strtol10 s =
     (let (neg, s') = strtol_sign (dropWhile is_space s);
          ds = takeWhile is_digit s';
          v = (if neg then - int (digits_val ds) else int (digits_val ds))
      in if ds = [] then (0, s)
         else (max (- (2 ^ 63)) (min (2 ^ 63 - 1) v), dropWhile is_digit s'))"

lemma of_char_digit [simp]: "n < 10 \<Longrightarrow> (of_char (digit_char n) :: nat) = 48 + n"
  by (simp add: digit_char_def)

lemma is_digit_digit_char [simp]: "n < 10 \<Longrightarrow> is_digit (digit_char n)"
  by (simp add: is_digit_def)

lemma show_nat_digits: "\<forall>c \<in> set (show_nat n). is_digit c"
proof (induction n rule: show_nat.induct)
  case (1 n)
  then show ?case by (subst show_nat.simps) auto
qed

lemma show_nat_nonempty [simp]: "show_nat n \<noteq> []" "[] \<noteq> show_nat n"
  by (subst show_nat.simps, simp)+

lemma digits_val_show_nat [simp]: "digits_val (show_nat n) = n"
proof (induction n rule: show_nat.induct)
  case (1 n)
  show ?case
  proof (cases "n < 10")
    case True
    then show ?thesis by (simp add: show_nat.simps [of n] digits_val_def)
  next
    case False
    then have "digits_val (show_nat (n div 10)) = n div 10" using 1 by simp
    then show ?thesis using False by (simp add: show_nat.simps [of n] digits_val_def)
  qed
qed

lemma show_nat_length: "n < 10 ^ k \<Longrightarrow> 0 < k \<Longrightarrow> length (show_nat n) \<le> k"
proof (induction n arbitrary: k rule: show_nat.induct)
  case (1 n)
  show ?case
  proof (cases "n < 10")
    case True
    then show ?thesis using "1.prems" by (simp add: show_nat.simps [of n])
  next
    case False
    then obtain j where k: "k = Suc j" and j: "0 < j" using "1.prems"
      by (cases k; cases "k - 1") auto
    then have "n div 10 < 10 ^ j" using "1.prems" by (simp add: div_less_iff_less_mult mult.commute)
    then have "length (show_nat (n div 10)) \<le> j" using False j "1.IH" by simp
    then show ?thesis using False k by (simp add: show_nat.simps [of n])
  qed
qed

lemma show_int_chars: "c \<in> set (show_int x) \<Longrightarrow> is_digit c \<or> c = CHR ''-''"
  using show_nat_digits by (auto simp: show_int_def split: if_splits)

lemma show_int_clean [simp]:
  "nul_free (show_int x)" "NL \<notin> set (show_int x)" "COLON \<notin> set (show_int x)"
  by (auto simp: nul_free_def dest!: show_int_chars simp: is_digit_def)

lemma show_int_nonempty [simp]: "show_int x \<noteq> []" "[] \<noteq> show_int x"
  by (auto simp: show_int_def)

lemma show_int_length: "in_int32 x \<Longrightarrow> length (show_int x) \<le> 11"
proof -
  assume "in_int32 x"
  then have "nat (- x) < 10 ^ 10" "nat x < 10 ^ 10" by (auto simp: in_int32_def)
  then have "length (show_nat (nat (- x))) \<le> 10" "length (show_nat (nat x)) \<le> 10"
    by (auto intro: show_nat_length)
  then show ?thesis by (auto simp: show_int_def)
qed

lemma strtol_digits:
  assumes "\<forall>c \<in> set ds. is_digit c" "ds \<noteq> []" "int (digits_val ds) < 2 ^ 63"
  shows "strtol10 ds = (int (digits_val ds), [])"
    and "strtol10 (CHR ''-'' # ds) = (- int (digits_val ds), [])"
proof -
  obtain c cs where ds: "ds = c # cs" using assms(2) by (cases ds) auto
  then have c: "\<not> is_space c" "c \<noteq> CHR ''-''" "c \<noteq> CHR ''+''"
    using assms(1) by (auto simp: is_space_def is_digit_def)
  have all: "takeWhile is_digit ds = ds" "dropWhile is_digit ds = []"
    using assms(1) by auto
  have sgn: "strtol_sign (dropWhile is_space ds) = (False, ds)"
    using c ds by (simp add: strtol_sign_def)
  show "strtol10 ds = (int (digits_val ds), [])"
    using assms(2,3) by (simp add: strtol10_def sgn all)
  have "strtol_sign (dropWhile is_space (CHR ''-'' # ds)) = (True, ds)"
    by (simp add: strtol_sign_def is_space_def)
  then show "strtol10 (CHR ''-'' # ds) = (- int (digits_val ds), [])"
    using assms(2,3) by (simp add: strtol10_def all)
qed

text \<open>Printing with \<open>%d\<close> and reading back with \<open>strtol\<close> gives the number.\<close>

lemma strtol_show_int: "in_int32 x \<Longrightarrow> strtol10 (show_int x) = (x, [])"
proof -
  assume x: "in_int32 x"
  show ?thesis
  proof (cases "x < 0")
    case True
    then show ?thesis
      using strtol_digits(2) [OF show_nat_digits show_nat_nonempty(1), of "nat (- x)"] x
      by (simp add: show_int_def in_int32_def)
  next
    case False
    then show ?thesis
      using strtol_digits(1) [OF show_nat_digits show_nat_nonempty(1), of "nat x"] x
      by (simp add: show_int_def in_int32_def)
  qed
qed

section \<open>Invariants of step relations\<close>

locale preserved =
  fixes step :: "'s \<Rightarrow> 's \<Rightarrow> bool"
    and inv :: "'s \<Rightarrow> bool"
  assumes inv_step: "inv s \<Longrightarrow> step s t \<Longrightarrow> inv t"
begin

lemma inv_steps: "step\<^sup>*\<^sup>* s t \<Longrightarrow> inv s \<Longrightarrow> inv t"
  by (induction rule: rtranclp_induct) (auto intro: inv_step)

lemma never_reached: "step\<^sup>*\<^sup>* s t \<Longrightarrow> inv s \<Longrightarrow> \<not> inv bad \<Longrightarrow> t \<noteq> bad"
  using inv_steps by blast

end

end
