(* ===== verification/Protocol.thy ===== *)
theory Protocol
  imports Prelude
begin

text \<open>
  \<^verbatim>\<open>common/include/protocol.h\<close>: the message types, the packed header and the byte layout of the
  request and response structs (\<open>int\<close> of 4 bytes, little endian, no padding: every struct is made
  of \<open>char\<close> arrays and \<open>int\<close>s at multiples of 4). A struct in memory is its list of bytes; bytes
  that the code never writes keep what was in memory before (the \<open>junk\<close> arguments).
\<close>

section \<open>Limits and message types\<close>

abbreviation MAX_ID_LEN :: nat where "MAX_ID_LEN \<equiv> 32"
abbreviation MAX_PW_LEN :: nat where "MAX_PW_LEN \<equiv> 72"
abbreviation MAX_MSG_LEN :: nat where "MAX_MSG_LEN \<equiv> 128"
abbreviation MAX_LEADERBOARD_ENTRIES :: nat where "MAX_LEADERBOARD_ENTRIES \<equiv> 10"
abbreviation MAX_WORDLIST_WORDS :: nat where "MAX_WORDLIST_WORDS \<equiv> 256"
abbreviation MAX_WORD_STR_LEN :: nat where "MAX_WORD_STR_LEN \<equiv> 32"

datatype message_type =
    MSG_TYPE_ERROR
  | MSG_TYPE_REGISTER_REQ | MSG_TYPE_REGISTER_RESP
  | MSG_TYPE_LOGIN_REQ | MSG_TYPE_LOGIN_RESP
  | MSG_TYPE_SCORE_SUBMIT_REQ | MSG_TYPE_SCORE_SUBMIT_RESP
  | MSG_TYPE_LEADERBOARD_REQ | MSG_TYPE_LEADERBOARD_RESP
  | MSG_TYPE_LOGOUT_REQ | MSG_TYPE_LOGOUT_RESP
  | MSG_TYPE_WORDLIST_REQ | MSG_TYPE_WORDLIST_RESP

fun msg_code :: "message_type \<Rightarrow> int" where
  "msg_code MSG_TYPE_ERROR = 0x00"
| "msg_code MSG_TYPE_REGISTER_REQ = 0x01"
| "msg_code MSG_TYPE_REGISTER_RESP = 0x02"
| "msg_code MSG_TYPE_LOGIN_REQ = 0x03"
| "msg_code MSG_TYPE_LOGIN_RESP = 0x04"
| "msg_code MSG_TYPE_SCORE_SUBMIT_REQ = 0x05"
| "msg_code MSG_TYPE_SCORE_SUBMIT_RESP = 0x06"
| "msg_code MSG_TYPE_LEADERBOARD_REQ = 0x07"
| "msg_code MSG_TYPE_LEADERBOARD_RESP = 0x08"
| "msg_code MSG_TYPE_LOGOUT_REQ = 0x09"
| "msg_code MSG_TYPE_LOGOUT_RESP = 0x0A"
| "msg_code MSG_TYPE_WORDLIST_REQ = 0x20"
| "msg_code MSG_TYPE_WORDLIST_RESP = 0x21"

text \<open>
  The enumeration's order is the order of its codes, so that the library's order facts apply to
  message types.
\<close>

instantiation message_type :: linorder
begin

definition less_eq_message_type :: "message_type \<Rightarrow> message_type \<Rightarrow> bool" where
  "less_eq_message_type a b \<longleftrightarrow> msg_code a \<le> msg_code b"

definition less_message_type :: "message_type \<Rightarrow> message_type \<Rightarrow> bool" where
  "less_message_type a b \<longleftrightarrow> msg_code a < msg_code b"

instance
proof
  fix a b c :: message_type
  show "a < b \<longleftrightarrow> a \<le> b \<and> \<not> b \<le> a"
    by (auto simp: less_eq_message_type_def less_message_type_def)
  show "a \<le> a" by (simp add: less_eq_message_type_def)
  show "a \<le> b \<Longrightarrow> b \<le> c \<Longrightarrow> a \<le> c" by (simp add: less_eq_message_type_def)
  show "a \<le> b \<Longrightarrow> b \<le> a \<Longrightarrow> a = b"
    by (cases a; cases b; simp add: less_eq_message_type_def)
  show "a \<le> b \<or> b \<le> a" by (auto simp: less_eq_message_type_def)
qed

end

lemma msg_code_inj [simp]: "msg_code a = msg_code b \<longleftrightarrow> a = b"
proof
  assume "msg_code a = msg_code b"
  then have "a \<le> b" "b \<le> a" by (simp_all add: less_eq_message_type_def)
  then show "a = b" by (rule antisym)
qed simp

lemma msg_code_int32 [simp]: "in_int32 (msg_code m)"
  by (cases m) (simp_all add: in_int32_def)

text \<open>The type a header's number stands for, none for a number outside the enumeration.\<close>

definition all_message_types :: "message_type list" where
  "all_message_types =
     [MSG_TYPE_ERROR, MSG_TYPE_REGISTER_REQ, MSG_TYPE_REGISTER_RESP, MSG_TYPE_LOGIN_REQ,
      MSG_TYPE_LOGIN_RESP, MSG_TYPE_SCORE_SUBMIT_REQ, MSG_TYPE_SCORE_SUBMIT_RESP,
      MSG_TYPE_LEADERBOARD_REQ, MSG_TYPE_LEADERBOARD_RESP, MSG_TYPE_LOGOUT_REQ,
      MSG_TYPE_LOGOUT_RESP, MSG_TYPE_WORDLIST_REQ, MSG_TYPE_WORDLIST_RESP]"

definition msg_of_code :: "int \<Rightarrow> message_type option" where
  "msg_of_code n = List.find (\<lambda>m. msg_code m = n) all_message_types"

lemma msg_of_code [simp]: "msg_of_code (msg_code m) = Some m"
  by (cases m) (simp_all add: msg_of_code_def all_message_types_def)

lemma msg_of_code_numbers [simp]:
  "msg_of_code 0 = Some MSG_TYPE_ERROR"
  "msg_of_code 1 = Some MSG_TYPE_REGISTER_REQ" "msg_of_code 2 = Some MSG_TYPE_REGISTER_RESP"
  "msg_of_code 3 = Some MSG_TYPE_LOGIN_REQ" "msg_of_code 4 = Some MSG_TYPE_LOGIN_RESP"
  "msg_of_code 5 = Some MSG_TYPE_SCORE_SUBMIT_REQ" "msg_of_code 6 = Some MSG_TYPE_SCORE_SUBMIT_RESP"
  "msg_of_code 7 = Some MSG_TYPE_LEADERBOARD_REQ" "msg_of_code 8 = Some MSG_TYPE_LEADERBOARD_RESP"
  "msg_of_code 9 = Some MSG_TYPE_LOGOUT_REQ" "msg_of_code 10 = Some MSG_TYPE_LOGOUT_RESP"
  "msg_of_code 32 = Some MSG_TYPE_WORDLIST_REQ" "msg_of_code 33 = Some MSG_TYPE_WORDLIST_RESP"
  by (simp_all add: msg_of_code_def all_message_types_def)

lemma msg_of_code_Some: "msg_of_code n = Some m \<Longrightarrow> msg_code m = n"
  by (auto simp: msg_of_code_def find_Some_iff)

section \<open>Memory of a struct\<close>

definition fit :: "nat \<Rightarrow> bytes \<Rightarrow> bytes" where
  "fit n junk = take n (junk @ replicate n NUL)"

definition overwrite :: "nat \<Rightarrow> bytes \<Rightarrow> bytes \<Rightarrow> bytes" where
  "overwrite off new mem = take off mem @ new @ drop (off + length new) mem"

lemma length_fit [simp, wire]: "length (fit n junk) = n"
  by (simp add: fit_def)

lemma length_overwrite [simp, wire]:
  "off + length new \<le> length mem \<Longrightarrow> length (overwrite off new mem) = length mem"
  by (simp add: overwrite_def)

lemma overwrite_0: "overwrite 0 new mem = new @ drop (length new) mem"
  by (simp add: overwrite_def)

text \<open>
  A pointer into a received body. \<open>Null\<close> is the null pointer; \<open>Wild\<close> is an address from which a C
  string read leaves the allocated bytes (no terminator, or past the end), so that dereferencing it
  is undefined; \<open>Str s\<close> points to the string \<open>s\<close>. A body of length 0 is never allocated.
\<close>

datatype cptr = Null | Wild | Str string

fun ptr_at :: "bytes option \<Rightarrow> nat \<Rightarrow> cptr" where
  "ptr_at None off = (if off = 0 then Null else Wild)"
| "ptr_at (Some b) off = (if NUL \<in> set (drop off b) then Str (cstr (drop off b)) else Wild)"

fun deref :: "cptr \<Rightarrow> string option" where
  "deref (Str s) = Some s"
| "deref Null = None"
| "deref Wild = None"

text \<open>Reading an \<open>int\<close> field: none when its four bytes are not all inside the body.\<close>

fun int_at :: "bytes option \<Rightarrow> nat \<Rightarrow> int option" where
  "int_at None off = None"
| "int_at (Some b) off = (if off + 4 \<le> length b then Some (dec_int (drop off b)) else None)"

lemma ptr_at_nul_free: "ptr_at b off = Str s \<Longrightarrow> nul_free s"
  by (cases b) (auto split: if_splits)

section \<open>Header\<close>

record message_header =
  hdr_type :: int
  hdr_length :: nat

definition enc_header :: "message_header \<Rightarrow> bytes" where
  "enc_header h = enc_int (hdr_type h) @ enc_u16 (hdr_length h)"

definition dec_header :: "bytes \<Rightarrow> message_header" where
  "dec_header b = \<lparr>hdr_type = dec_int b, hdr_length = dec_u16 (drop 4 b)\<rparr>"

abbreviation HEADER_SIZE :: nat where "HEADER_SIZE \<equiv> 6"

lemma length_enc_header [simp, wire]: "length (enc_header h) = HEADER_SIZE"
  by (simp add: enc_header_def)

lemma enc_header_nonempty [simp]: "enc_header h \<noteq> []" "[] \<noteq> enc_header h"
  using length_enc_header [of h] by fastforce+

lemma dec_enc_header [simp, wire]:
  "dec_header (enc_header h @ b) = \<lparr>hdr_type = to_int32 (hdr_type h), hdr_length = hdr_length h mod 2 ^ 16\<rparr>"
  by (simp add: dec_header_def enc_header_def)

lemma dec_header_bound: "hdr_length (dec_header b) < 2 ^ 16"
  using dec_u16_bound by (simp add: dec_header_def)

section \<open>Requests\<close>

abbreviation CRED_SIZE :: nat where "CRED_SIZE \<equiv> MAX_ID_LEN + MAX_PW_LEN"

definition enc_credentials :: "string \<Rightarrow> string \<Rightarrow> bytes" where
  "enc_credentials username password = strncpy_buf MAX_ID_LEN username @ strncpy_buf MAX_PW_LEN password"

definition enc_score_request :: "int \<Rightarrow> bytes" where
  "enc_score_request score = enc_int score"

lemma length_enc_credentials [simp, wire]: "length (enc_credentials u p) = CRED_SIZE"
  by (simp add: enc_credentials_def)

lemma ptr_at_credentials [simp, wire]:
  assumes "nul_free u" "nul_free p"
  shows "ptr_at (Some (enc_credentials u p)) 0 = Str (take 31 u)"
    and "ptr_at (Some (enc_credentials u p)) MAX_ID_LEN = Str (take 71 p)"
  using assms cstr_strncpy_buf [of 32 u "strncpy_buf 72 p"] cstr_strncpy_buf [of 72 p "[]"]
    strncpy_buf_nul [of 32 u] strncpy_buf_nul [of 72 p]
  by (auto simp: enc_credentials_def)

lemma int_at_score_request [simp, wire]:
  "int_at (Some (enc_score_request x)) 0 = Some (to_int32 x)"
  by (simp add: enc_score_request_def)

section \<open>Responses\<close>

text \<open>
  \<open>RegisterResponse\<close>, \<open>LoginResponse\<close>, \<open>ScoreSubmitResponse\<close> and \<open>LogoutResponse\<close> have one
  layout: \<open>success\<close>, then a message buffer, whose last byte the code sets to zero after it has written the message.
\<close>

abbreviation RESPONSE_SIZE :: nat where "RESPONSE_SIZE \<equiv> 4 + MAX_MSG_LEN"

definition enc_response :: "bytes \<Rightarrow> bool \<Rightarrow> string \<Rightarrow> bytes" where
  "enc_response junk success msg =
     overwrite (4 + 127) [NUL]
       (overwrite 4 (msg @ [NUL]) (overwrite 0 (enc_int (if success then 1 else 0)) (fit RESPONSE_SIZE junk)))"

definition response_success :: "bytes \<Rightarrow> int" where
  "response_success b = dec_int b"

definition response_message :: "bytes \<Rightarrow> string" where
  "response_message b = cstr (take MAX_MSG_LEN (drop 4 b))"

definition enc_error :: "bytes \<Rightarrow> string \<Rightarrow> bytes" where
  "enc_error junk msg = overwrite 0 (msg @ [NUL]) (fit MAX_MSG_LEN junk)"

lemma length_enc_response [simp, wire]:
  "length msg < MAX_MSG_LEN \<Longrightarrow> length (enc_response junk s msg) = RESPONSE_SIZE"
  by (simp add: enc_response_def)

lemma length_enc_error [simp, wire]:
  "length msg < MAX_MSG_LEN \<Longrightarrow> length (enc_error junk msg) = MAX_MSG_LEN"
  by (simp add: enc_error_def)

lemma enc_response_eq:
  "length msg < MAX_MSG_LEN \<Longrightarrow>
   enc_response junk s msg =
     enc_int (if s then 1 else 0) @ msg @ NUL # drop (5 + length msg) (overwrite (4 + 127) [NUL] (fit RESPONSE_SIZE junk))"
  by (cases "length msg = 127") (simp_all add: enc_response_def overwrite_def take_Cons' drop_take)

lemma response_fields [simp, wire]:
  assumes "length msg < MAX_MSG_LEN"
  shows "response_success (enc_response junk s msg) = (if s then 1 else 0)"
    and "nul_free msg \<Longrightarrow> response_message (enc_response junk s msg) = msg"
proof -
  show "response_success (enc_response junk s msg) = (if s then 1 else 0)"
    using assms by (simp add: response_success_def enc_response_eq in_int32_def)
  show "response_message (enc_response junk s msg) = msg" if "nul_free msg"
    using assms that by (simp add: response_message_def enc_response_eq take_Cons')
qed

section \<open>Arrays of fixed-size fields\<close>

text \<open>
  The contract of a field of \<open>n\<close> bytes: what is written occupies exactly \<open>n\<close> bytes, and reading
  at the field's start, whatever follows, gives back what the value stands for (its \<open>view\<close>).
\<close>

locale fixed_field =
  fixes enc :: "'a \<Rightarrow> bytes"
    and dec :: "bytes \<Rightarrow> 'b"
    and view :: "'a \<Rightarrow> 'b"
    and n :: nat
    and ok :: "'a \<Rightarrow> bool"
  assumes field_length: "ok x \<Longrightarrow> length (enc x) = n"
    and field_read: "ok x \<Longrightarrow> dec (enc x @ rest) = view x"
begin

lemma array_length: "\<forall>x \<in> set xs. ok x \<Longrightarrow> length (concat (map enc xs)) = n * length xs"
  by (induction xs) (auto simp: field_length)

lemma array_read:
  assumes "\<forall>x \<in> set xs. ok x" "i < length xs"
  shows "dec (drop (n * i) (concat (map enc xs) @ rest)) = view (xs ! i)"
proof -
  have "length (concat (map enc (take i xs))) = n * i"
    using assms by (subst array_length) (auto dest: in_set_takeD)
  moreover have "concat (map enc xs) =
      concat (map enc (take i xs)) @ enc (xs ! i) @ concat (map enc (drop (Suc i) xs))"
    using assms(2) by (subst id_take_nth_drop [of i xs]) simp_all
  ultimately show ?thesis using assms by (simp add: field_read)
qed

lemma array_decode:
  assumes "\<forall>x \<in> set xs. ok x"
  shows "map (\<lambda>i. dec (drop (n * i) (concat (map enc xs) @ rest))) [0..<length xs] = map view xs"
  using array_read [OF assms] by (auto intro: nth_equalityI)

end

text \<open>\<open>WordListResponse\<close>: the global is zero-initialised and each word is stored by \<open>strncpy\<close>.\<close>

abbreviation WORDLIST_SIZE :: nat where "WORDLIST_SIZE \<equiv> 4 + MAX_WORDLIST_WORDS * MAX_WORD_STR_LEN"

definition enc_wordlist :: "string list \<Rightarrow> bytes" where
  "enc_wordlist ws =
     enc_int (int (length ws)) @ concat (map (strncpy_buf MAX_WORD_STR_LEN) ws)
       @ replicate (MAX_WORD_STR_LEN * (MAX_WORDLIST_WORDS - length ws)) NUL"

definition wordlist_count :: "bytes \<Rightarrow> int" where
  "wordlist_count b = dec_int b"

definition wordlist_word :: "bytes \<Rightarrow> nat \<Rightarrow> string" where
  "wordlist_word b i = cstr (drop (4 + MAX_WORD_STR_LEN * i) b)"

interpretation word_field: fixed_field
  "strncpy_buf MAX_WORD_STR_LEN" cstr "\<lambda>w. w" MAX_WORD_STR_LEN "\<lambda>w. nul_free w \<and> length w < MAX_WORD_STR_LEN"
  by unfold_locales (auto simp: cstr_strncpy_buf)

text \<open>\<open>LeaderboardEntry\<close> and \<open>LeaderboardResponse\<close>; the message of the latter is never written.\<close>

type_synonym entry = "string \<times> int"

abbreviation ENTRY_SIZE :: nat where "ENTRY_SIZE \<equiv> MAX_ID_LEN + 4"
abbreviation LEADERBOARD_SIZE :: nat where
  "LEADERBOARD_SIZE \<equiv> 4 + MAX_LEADERBOARD_ENTRIES * ENTRY_SIZE + MAX_MSG_LEN"

definition enc_entry :: "bytes \<times> entry \<Rightarrow> bytes" where
  "enc_entry = (\<lambda>(junk, (u, s)). overwrite 31 [NUL] (overwrite 0 (u @ [NUL]) (fit MAX_ID_LEN junk)) @ enc_int s)"

definition dec_entry :: "bytes \<Rightarrow> entry" where
  "dec_entry b = (cstr (take MAX_ID_LEN b), dec_int (drop MAX_ID_LEN b))"

text \<open>\<open>ejunk e\<close> is what the name buffer of the entry \<open>e\<close> holds behind the name.\<close>

definition enc_leaderboard :: "bytes \<Rightarrow> (entry \<Rightarrow> bytes) \<Rightarrow> int \<Rightarrow> entry list \<Rightarrow> bytes" where
  "enc_leaderboard junk ejunk count es =
     overwrite 0 (enc_int count @ concat (map (\<lambda>e. enc_entry (ejunk e, e)) es)) (fit LEADERBOARD_SIZE junk)"

definition leaderboard_count :: "bytes \<Rightarrow> int" where
  "leaderboard_count b = dec_int b"

definition leaderboard_entry :: "bytes \<Rightarrow> nat \<Rightarrow> entry" where
  "leaderboard_entry b i = dec_entry (drop (4 + ENTRY_SIZE * i) b)"

definition entry_ok :: "entry \<Rightarrow> bool" where
  "entry_ok e \<longleftrightarrow> nul_free (fst e) \<and> length (fst e) < MAX_ID_LEN \<and> in_int32 (snd e)"

lemma name_buf:
  assumes "nul_free u" "length u < MAX_ID_LEN"
  shows "\<exists>t. overwrite 31 [NUL] (overwrite 0 (u @ [NUL]) (fit MAX_ID_LEN junk)) = u @ NUL # t
           \<and> length t = 31 - length u"
proof (cases "length u = 31")
  case True
  then show ?thesis by (simp add: overwrite_def)
next
  case False
  then have "length u < 31" using assms by simp
  then show ?thesis by (simp add: overwrite_def take_Cons')
qed

interpretation entry_field: fixed_field
  enc_entry dec_entry snd ENTRY_SIZE "\<lambda>p. entry_ok (snd p)"
proof
  fix p :: "bytes \<times> entry" and rest :: bytes
  assume ok: "entry_ok (snd p)"
  obtain junk u s where p: "p = (junk, (u, s))" by (cases p) auto
  obtain t where t: "overwrite 31 [NUL] (overwrite 0 (u @ [NUL]) (fit MAX_ID_LEN junk)) = u @ NUL # t"
      and len: "length t = 31 - length u"
    using name_buf ok p by (metis entry_ok_def fst_conv snd_conv)
  show "length (enc_entry p) = ENTRY_SIZE" using ok p len t by (simp add: enc_entry_def entry_ok_def)
  show "dec_entry (enc_entry p @ rest) = snd p"
    using ok p len t by (simp add: enc_entry_def dec_entry_def entry_ok_def take_Cons' drop_Cons')
qed

lemma length_enc_wordlist [simp, wire]:
  assumes "\<forall>w \<in> set ws. nul_free w \<and> length w < MAX_WORD_STR_LEN" "length ws \<le> MAX_WORDLIST_WORDS"
  shows "length (enc_wordlist ws) = WORDLIST_SIZE"
  using word_field.array_length [OF assms(1)] assms(2) by (simp add: enc_wordlist_def)

lemma wordlist_decode:
  assumes "\<forall>w \<in> set ws. nul_free w \<and> length w < MAX_WORD_STR_LEN" "length ws \<le> MAX_WORDLIST_WORDS"
  shows "wordlist_count (enc_wordlist ws) = int (length ws)"
    and "map (wordlist_word (enc_wordlist ws)) [0..<length ws] = ws"
proof -
  show "wordlist_count (enc_wordlist ws) = int (length ws)"
    using assms(2) by (simp add: wordlist_count_def enc_wordlist_def in_int32_def)
  have "wordlist_word (enc_wordlist ws) = (\<lambda>i. cstr (drop (MAX_WORD_STR_LEN * i)
      (concat (map (strncpy_buf MAX_WORD_STR_LEN) ws)
        @ replicate (MAX_WORD_STR_LEN * (MAX_WORDLIST_WORDS - length ws)) NUL)))"
    by (auto simp: wordlist_word_def enc_wordlist_def fun_eq_iff)
  then show "map (wordlist_word (enc_wordlist ws)) [0..<length ws] = ws"
    using word_field.array_decode [OF assms(1)] by (simp del: drop_append drop_replicate)
qed

lemma leaderboard_layout:
  assumes "\<forall>e \<in> set es. entry_ok e" "length es \<le> MAX_LEADERBOARD_ENTRIES"
  shows "\<exists>t. enc_leaderboard junk ejunk count es =
      enc_int count @ concat (map enc_entry (map (\<lambda>e. (ejunk e, e)) es)) @ t
      \<and> length t = LEADERBOARD_SIZE - 4 - ENTRY_SIZE * length es"
proof -
  have "length (concat (map enc_entry (map (\<lambda>e. (ejunk e, e)) es))) = ENTRY_SIZE * length es"
    using entry_field.array_length [of "map (\<lambda>e. (ejunk e, e)) es"] assms(1) by simp
  then show ?thesis using assms(2)
    by (simp add: enc_leaderboard_def overwrite_def comp_def)
qed

lemma length_enc_leaderboard [simp, wire]:
  assumes "\<forall>e \<in> set es. entry_ok e" "length es \<le> MAX_LEADERBOARD_ENTRIES"
  shows "length (enc_leaderboard junk ejunk count es) = LEADERBOARD_SIZE"
proof -
  have "length (concat (map enc_entry (map (\<lambda>e. (ejunk e, e)) es))) = ENTRY_SIZE * length es"
    using entry_field.array_length [of "map (\<lambda>e. (ejunk e, e)) es"] assms(1) by simp
  then show ?thesis using leaderboard_layout [OF assms, of junk ejunk count] assms(2) by auto
qed

lemma leaderboard_decode:
  assumes "\<forall>e \<in> set es. entry_ok e" "length es \<le> MAX_LEADERBOARD_ENTRIES"
  shows "leaderboard_count (enc_leaderboard junk ejunk (int (length es)) es) = int (length es)"
    and "map (leaderboard_entry (enc_leaderboard junk ejunk (int (length es)) es)) [0..<length es] = es"
proof -
  let ?m = "enc_leaderboard junk ejunk (int (length es)) es"
  obtain t where m: "?m = enc_int (int (length es)) @ concat (map enc_entry (map (\<lambda>e. (ejunk e, e)) es)) @ t"
    using leaderboard_layout [OF assms] by blast
  show "leaderboard_count ?m = int (length es)"
    using assms(2) by (simp add: leaderboard_count_def m in_int32_def)
  have "leaderboard_entry ?m = (\<lambda>i. dec_entry (drop (ENTRY_SIZE * i)
      (concat (map enc_entry (map (\<lambda>e. (ejunk e, e)) es)) @ t)))"
    by (simp add: leaderboard_entry_def m fun_eq_iff)
  then show "map (leaderboard_entry ?m) [0..<length es] = es"
    using entry_field.array_decode [of "map (\<lambda>e. (ejunk e, e)) es" t] assms(1) by (simp add: comp_def)
qed

end
