(* ===== verification/Db_Handler.thy ===== *)
theory Db_Handler
  imports Protocol
begin

text \<open>
  \<^verbatim>\<open>server/src/db_handler.c\<close>: the users file and the scores file. A file is its bytes, absent
  when it was never created. What the operating system answers to the calls of one operation is an
  \<open>io\<close> record; the two mutexes and the file locks make each operation below one atomic step.
\<close>

section \<open>Files and system calls\<close>

datatype path_kind = Missing | Directory | Not_directory

record db =
  data_dir :: path_kind
  users_file :: "string option"
  scores_file :: "string option"

text \<open>
  \<open>io_read_stop = Some k\<close>: \<open>read\<close> fails after \<open>k\<close> bytes; \<open>io_write_stop = Some k\<close>: \<open>dprintf\<close>
  fails after \<open>k\<close> bytes reached the file.
\<close>

record io =
  io_open_fails :: bool
  io_flock_fails :: bool
  io_read_stop :: "nat option"
  io_write_stop :: "nat option"
  io_close_fails :: bool

definition io_ok :: io where
  "io_ok = \<lparr>io_open_fails = False, io_flock_fails = False, io_read_stop = None,
     io_write_stop = None, io_close_fails = False\<rparr>"

definition readable :: "io \<Rightarrow> string \<Rightarrow> string" where
  "readable io content = (case io_read_stop io of None \<Rightarrow> content | Some k \<Rightarrow> take k content)"

lemma io_ok_simps [simp]:
  "\<not> io_open_fails io_ok" "\<not> io_flock_fails io_ok" "io_read_stop io_ok = None"
  "io_write_stop io_ok = None" "\<not> io_close_fails io_ok" "readable io_ok c = c"
  by (simp_all add: io_ok_def readable_def)

section \<open>Reading a line\<close>

text \<open>
  \<open>read_line_from room fails pos cs\<close>: the loop of \<open>read_line\<close> with \<open>room\<close> bytes left in the
  buffer, \<open>pos\<close> read so far and \<open>cs\<close> still in the file. \<open>None\<close> is the return value -1; otherwise
  the return value is the length of the line.
\<close>

fun read_line_from :: "nat \<Rightarrow> bool \<Rightarrow> string \<Rightarrow> string \<Rightarrow> string option \<times> string" where
  "read_line_from 0 fails pos cs = (Some pos, cs)"
| "read_line_from (Suc room) fails pos [] = (if fails then None else Some pos, [])"
| "read_line_from (Suc room) fails pos (ch # cs) =
     (if ch = NL then (Some pos, cs) else read_line_from room fails (pos @ [ch]) cs)"

definition read_line :: "nat \<Rightarrow> bool \<Rightarrow> string \<Rightarrow> string option \<times> string" where
  "read_line buffer_size fails cs = read_line_from (buffer_size - 1) fails [] cs"

lemma read_line_from_length:
  "read_line_from room fails pos cs = (Some l, rest) \<Longrightarrow>
     length rest + length l \<le> length cs + length pos \<and> length l \<le> length pos + room"
  by (induction room fails pos cs rule: read_line_from.induct) (auto split: if_splits)

lemma read_line_shrinks:
  "read_line n fails cs = (Some l, rest) \<Longrightarrow> l \<noteq> [] \<Longrightarrow> length rest < length cs"
  using read_line_from_length [of "n - 1" fails "[]" cs l rest]
  by (cases l) (auto simp: read_line_def)

lemma read_line_fits:
  "read_line n fails cs = (Some l, rest) \<Longrightarrow> length l \<le> n - 1"
  using read_line_from_length [of "n - 1" fails "[]" cs l rest] by (auto simp: read_line_def)

lemma read_line_from_line:
  "NL \<notin> set l \<Longrightarrow> length l < room \<Longrightarrow>
   read_line_from room fails pos (l @ NL # cs) = (Some (pos @ l), cs)"
proof (induction l arbitrary: room pos)
  case Nil
  then show ?case by (cases room) auto
next
  case (Cons c l)
  then show ?case by (cases room) auto
qed

text \<open>A line that fits is read whole, and its line feed is consumed.\<close>

lemma read_line_line [simp]:
  "NL \<notin> set l \<Longrightarrow> length l < n - 1 \<Longrightarrow> read_line n fails (l @ NL # cs) = (Some l, cs)"
  by (simp add: read_line_def read_line_from_line)

lemma read_line_Nil [simp]: "1 < n \<Longrightarrow> read_line n fails [] = (if fails then None else Some [], [])"
  by (cases "n - 1") (auto simp: read_line_def)

section \<open>The data directory and the files\<close>

text \<open>
  The answers of \<open>mkdir\<close>: success, \<open>EEXIST\<close> with what the second \<open>stat\<close> then finds, or another
  error. The result is the return value and the directory afterwards.
\<close>

datatype mkdir_answer = Mkdir_ok | Mkdir_exists path_kind | Mkdir_fails

definition create_directory_if_not_exists :: "mkdir_answer \<Rightarrow> path_kind \<Rightarrow> int \<times> path_kind" where
  "create_directory_if_not_exists mkdir path =
     (case path of
        Directory \<Rightarrow> (0, path)
      | Not_directory \<Rightarrow> (-1, path)
      | Missing \<Rightarrow>
          (case mkdir of
             Mkdir_ok \<Rightarrow> (0, Directory)
           | Mkdir_exists k \<Rightarrow> (if k = Directory then 0 else -1, k)
           | Mkdir_fails \<Rightarrow> (-1, path)))"

definition open_append :: "io \<Rightarrow> string option \<Rightarrow> string option" where
  "open_append io file = (if io_open_fails io then None else Some (case file of None \<Rightarrow> [] | Some c \<Rightarrow> c))"

text \<open>\<open>init_db_files\<close>; \<open>None\<close> is \<open>exit(EXIT_FAILURE)\<close>.\<close>

definition init_db_files :: "mkdir_answer \<Rightarrow> io \<Rightarrow> io \<Rightarrow> db \<Rightarrow> db option" where
  "init_db_files mkdir io_users io_scores d =
     (let (r, dir) = create_directory_if_not_exists mkdir (data_dir d) in
      if r \<noteq> 0 then None
      else Some (d\<lparr>data_dir := dir,
        users_file := (case open_append io_users (users_file d) of None \<Rightarrow> users_file d | Some c \<Rightarrow> Some c),
        scores_file := (case open_append io_scores (scores_file d) of None \<Rightarrow> scores_file d | Some c \<Rightarrow> Some c)\<rparr>))"

section \<open>Users\<close>

record user_data =
  ud_username :: string
  ud_password :: string

datatype find_result = Find_error | Find_none | Find_user user_data

abbreviation USER_BUF :: nat where "USER_BUF \<equiv> MAX_ID_LEN + MAX_PW_LEN + 3"

text \<open>The scan of \<open>find_user_in_file\<close>, to the first line whose name matches.\<close>

function find_user_loop :: "bool \<Rightarrow> string \<Rightarrow> string \<Rightarrow> user_data option" where
  "find_user_loop fails username cs =
     (case read_line USER_BUF fails cs of
        (None, _) \<Rightarrow> None
      | (Some line, cs') \<Rightarrow>
          if line = [] then None
          else (case split_at COLON (cstr line) of
            None \<Rightarrow> find_user_loop fails username cs'
          | Some (name_part, password_part) \<Rightarrow>
              if length name_part < MAX_ID_LEN \<and> length password_part < MAX_PW_LEN
                 \<and> strcmp (strncpy_str MAX_ID_LEN name_part) username = 0
              then Some \<lparr>ud_username = strncpy_str MAX_ID_LEN name_part,
                         ud_password = strncpy_str MAX_PW_LEN password_part\<rparr>
              else find_user_loop fails username cs'))"
  by pat_completeness auto
termination
  by (relation "measure (\<lambda>(_, _, cs). length cs)") (auto intro: read_line_shrinks dest: sym)

declare find_user_loop.simps [simp del]

definition find_user_in_file :: "io \<Rightarrow> string \<Rightarrow> db \<Rightarrow> find_result" where
  "find_user_in_file io username d =
     (if io_open_fails io then Find_error
      else case users_file d of
        None \<Rightarrow> Find_none
      | Some content \<Rightarrow>
          if io_flock_fails io then Find_error
          else (case find_user_loop (io_read_stop io \<noteq> None) username (readable io content) of
            None \<Rightarrow> Find_none
          | Some u \<Rightarrow> Find_user u))"

text \<open>
  What \<open>add_user_to_file\<close> and \<open>add_score_to_file\<close> do with their formatted line: the return value
  (true for 1) and the file afterwards.
\<close>

definition append_line :: "io \<Rightarrow> string \<Rightarrow> string option \<Rightarrow> bool \<times> string option" where
  "append_line io line file =
     (case open_append io file of
        None \<Rightarrow> (False, file)
      | Some content \<Rightarrow>
          if io_flock_fails io then (False, Some content)
          else (case io_write_stop io of
            Some k \<Rightarrow> (False, Some (content @ take k line))
          | None \<Rightarrow> (\<not> io_close_fails io, Some (content @ line))))"

definition user_line :: "string \<Rightarrow> string \<Rightarrow> string" where
  "user_line u p = u @ COLON # p @ [NL]"

definition add_user_to_file :: "io \<Rightarrow> user_data \<Rightarrow> db \<Rightarrow> bool \<times> db" where
  "add_user_to_file io user d =
     (let (r, f) = append_line io (user_line (ud_username user) (ud_password user)) (users_file d)
      in (r, d\<lparr>users_file := f\<rparr>))"

section \<open>Scores\<close>

record score_record =
  sr_username :: string
  sr_score :: int

abbreviation SCORE_BUF :: nat where "SCORE_BUF \<equiv> MAX_ID_LEN + 16"

definition score_line :: "string \<Rightarrow> int \<Rightarrow> string" where
  "score_line u s = u @ COLON # show_int s @ [NL]"

definition add_score_to_file :: "io \<Rightarrow> string \<Rightarrow> int \<Rightarrow> db \<Rightarrow> bool \<times> db" where
  "add_score_to_file io username score d =
     (let (r, f) = append_line io (score_line username score) (scores_file d)
      in (r, d\<lparr>scores_file := f\<rparr>))"

text \<open>One line of the scores file, when it is well formed.\<close>

definition parse_score_line :: "string \<Rightarrow> score_record option" where
  "parse_score_line line =
     (case split_at COLON (cstr line) of
        None \<Rightarrow> None
      | Some (name_part, score_part) \<Rightarrow>
          if length name_part < MAX_ID_LEN
          then (let (score_value, rest) = strtol10 score_part in
            if rest \<noteq> score_part \<and> rest = []
            then Some \<lparr>sr_username = strncpy_str MAX_ID_LEN name_part, sr_score = to_int32 score_value\<rparr>
            else None)
          else None)"

text \<open>The loop of \<open>load_all_scores_from_file\<close>, with \<open>max_records - count\<close> records to go.\<close>

function load_scores_loop :: "nat \<Rightarrow> bool \<Rightarrow> string \<Rightarrow> score_record list" where
  "load_scores_loop room fails cs =
     (if room = 0 then []
      else case read_line SCORE_BUF fails cs of
        (None, _) \<Rightarrow> []
      | (Some line, cs') \<Rightarrow>
          if line = [] then []
          else (case parse_score_line line of
            None \<Rightarrow> load_scores_loop room fails cs'
          | Some r \<Rightarrow> r # load_scores_loop (room - 1) fails cs'))"
  by pat_completeness auto
termination
  by (relation "measure (\<lambda>(_, _, cs). length cs)") (auto intro: read_line_shrinks dest: sym)

declare load_scores_loop.simps [simp del]

text \<open>\<open>None\<close> is the return value -1; otherwise the return value is the length of the list.\<close>

definition load_all_scores_from_file :: "io \<Rightarrow> nat \<Rightarrow> db \<Rightarrow> score_record list option" where
  "load_all_scores_from_file io max_records d =
     (if io_open_fails io then None
      else case scores_file d of
        None \<Rightarrow> Some []
      | Some content \<Rightarrow>
          if io_flock_fails io then None
          else Some (load_scores_loop max_records (io_read_stop io \<noteq> None) (readable io content)))"

section \<open>Well-formed files\<close>

text \<open>
  A user that the code can store and find again: the name has no colon, neither part has a line
  feed, and both fit their fields. \<open>users_text\<close> is the file that holds a list of users.
\<close>

definition user_ok :: "string \<times> string \<Rightarrow> bool" where
  "user_ok up \<longleftrightarrow> nul_free (fst up) \<and> nul_free (snd up) \<and> COLON \<notin> set (fst up)
     \<and> NL \<notin> set (fst up) \<and> NL \<notin> set (snd up)
     \<and> length (fst up) < MAX_ID_LEN \<and> length (snd up) < MAX_PW_LEN"

definition users_text :: "(string \<times> string) list \<Rightarrow> string" where
  "users_text us = concat (map (\<lambda>(u, p). user_line u p) us)"

definition score_ok :: "string \<times> int \<Rightarrow> bool" where
  "score_ok us \<longleftrightarrow> nul_free (fst us) \<and> COLON \<notin> set (fst us) \<and> NL \<notin> set (fst us)
     \<and> length (fst us) < MAX_ID_LEN \<and> in_int32 (snd us)"

definition scores_text :: "(string \<times> int) list \<Rightarrow> string" where
  "scores_text rs = concat (map (\<lambda>(u, s). score_line u s) rs)"

lemma users_text_simps [simp]:
  "users_text [] = []"
  "users_text (up # us) = user_line (fst up) (snd up) @ users_text us"
  "users_text (us @ vs) = users_text us @ users_text vs"
  by (simp_all add: users_text_def split_def)

lemma scores_text_simps [simp]:
  "scores_text [] = []"
  "scores_text (r # rs) = score_line (fst r) (snd r) @ scores_text rs"
  "scores_text (rs @ qs) = scores_text rs @ scores_text qs"
  by (simp_all add: scores_text_def split_def)

lemma find_user_loop_Nil [simp]: "find_user_loop f name [] = None"
  by (subst find_user_loop.simps) simp

text \<open>The scan over one line that was read whole.\<close>

lemma find_user_loop_line:
  assumes "NL \<notin> set l" "length l < USER_BUF - 1" "nul_free l" "l = u @ COLON # p" "COLON \<notin> set u"
  shows "find_user_loop f name (l @ NL # cs) =
    (if length u < MAX_ID_LEN \<and> length p < MAX_PW_LEN \<and> u = name
     then Some \<lparr>ud_username = u, ud_password = p\<rparr> else find_user_loop f name cs)"
proof -
  have "read_line USER_BUF f (l @ NL # cs) = (Some l, cs)" using assms(1,2) by simp
  moreover have "l \<noteq> []" "cstr l = l" "split_at COLON l = Some (u, p)" using assms(3-5) by simp_all
  ultimately show ?thesis by (subst find_user_loop.simps) auto
qed

lemma find_user_loop_user_line:
  assumes "user_ok (u, p)"
  shows "find_user_loop f name (user_line u p @ cs) =
    (if u = name then Some \<lparr>ud_username = u, ud_password = p\<rparr> else find_user_loop f name cs)"
  using assms find_user_loop_line [of "u @ COLON # p" u p f name cs]
  by (auto simp: user_ok_def user_line_def)

lemma find_user_loop_text:
  assumes "\<forall>up \<in> set us. user_ok up"
  shows "find_user_loop f name (users_text us @ cs) =
    (case map_of us name of
       Some p \<Rightarrow> Some \<lparr>ud_username = name, ud_password = p\<rparr>
     | None \<Rightarrow> find_user_loop f name cs)"
  using assms by (induction us) (auto simp: find_user_loop_user_line split: option.split)

lemma load_scores_loop_Nil [simp]: "load_scores_loop m f [] = []"
  by (subst load_scores_loop.simps) simp

lemma load_scores_loop_0 [simp]: "load_scores_loop 0 f cs = []"
  by (subst load_scores_loop.simps) simp

lemma parse_score_line_ok:
  assumes "score_ok (u, s)"
  shows "parse_score_line (u @ COLON # show_int s) = Some \<lparr>sr_username = u, sr_score = s\<rparr>"
  using assms by (auto simp: parse_score_line_def score_ok_def split_at_append strtol_show_int)

lemma load_scores_loop_score_line:
  assumes "score_ok (u, s)"
  shows "load_scores_loop (Suc m) f (score_line u s @ cs) =
    \<lparr>sr_username = u, sr_score = s\<rparr> # load_scores_loop m f cs"
proof -
  have len: "length (u @ COLON # show_int s) < SCORE_BUF - 1"
    using assms show_int_length [of s] by (simp add: score_ok_def)
  have "NL \<notin> set (u @ COLON # show_int s)" using assms by (simp add: score_ok_def)
  then have "read_line SCORE_BUF f (score_line u s @ cs) = (Some (u @ COLON # show_int s), cs)"
    using read_line_line [of "u @ COLON # show_int s" SCORE_BUF f cs] len by (simp add: score_line_def)
  then show ?thesis
    using parse_score_line_ok [OF assms] by (subst load_scores_loop.simps) simp
qed

lemma load_scores_loop_text:
  assumes "\<forall>r \<in> set rs. score_ok r"
  shows "load_scores_loop m f (scores_text rs) =
    take m (map (\<lambda>(u, s). \<lparr>sr_username = u, sr_score = s\<rparr>) rs)"
  using assms
proof (induction rs arbitrary: m)
  case Nil
  then show ?case by simp
next
  case (Cons r rs)
  then show ?case
    by (cases m) (auto simp: load_scores_loop_score_line split_def)
qed

text \<open>Whatever the scores file holds, what is read fits the array and the fields.\<close>

lemma parse_score_line_fits:
  assumes "parse_score_line l = Some r"
  shows "length (sr_username r) < MAX_ID_LEN" "in_int32 (sr_score r)" "nul_free (sr_username r)"
proof -
  obtain u v where uv: "split_at COLON (cstr l) = Some (u, v)" "length u < MAX_ID_LEN"
      and r: "sr_username r = u" "in_int32 (sr_score r)"
    using assms by (auto simp: parse_score_line_def Let_def split: option.splits prod.splits if_splits)
  have "nul_free u" using split_at_Some [OF uv(1)] cstr_nul_free [of l] by auto
  then show "length (sr_username r) < MAX_ID_LEN" "in_int32 (sr_score r)" "nul_free (sr_username r)"
    using uv r by auto
qed

lemma load_scores_loop_length: "length (load_scores_loop m f cs) < Suc m"
proof (induction m f cs rule: load_scores_loop.induct)
  case (1 m f cs)
  then show ?case
    by (subst load_scores_loop.simps) (auto split: prod.splits option.splits)
qed

lemma load_scores_loop_fits:
  "r \<in> set (load_scores_loop m f cs) \<Longrightarrow>
     length (sr_username r) < MAX_ID_LEN \<and> in_int32 (sr_score r) \<and> nul_free (sr_username r)"
proof (induction m f cs rule: load_scores_loop.induct)
  case (1 m f cs)
  show ?case using "1.prems" "1.IH" unfolding load_scores_loop.simps [of m f cs]
    by (auto split: prod.splits option.splits if_splits dest: parse_score_line_fits)
qed

section \<open>The directory of users\<close>

text \<open>
  The contract of a directory in which the first entry of a key wins, as the authentication code
  relies on it.
\<close>

locale directory =
  fixes lookup :: "'s \<Rightarrow> 'k \<Rightarrow> 'v option"
    and enter :: "'k \<Rightarrow> 'v \<Rightarrow> 's \<Rightarrow> 's"
    and ok :: "'k \<Rightarrow> 'v \<Rightarrow> bool"
    and inv :: "'s \<Rightarrow> bool"
  assumes inv_enter: "inv s \<Longrightarrow> ok k v \<Longrightarrow> inv (enter k v s)"
    and lookup_enter: "inv s \<Longrightarrow> ok k v \<Longrightarrow>
      lookup (enter k v s) k' = (case lookup s k' of Some w \<Rightarrow> Some w | None \<Rightarrow> if k' = k then Some v else None)"
begin

definition enter_all :: "('k \<times> 'v) list \<Rightarrow> 's \<Rightarrow> 's" where
  "enter_all kvs s = fold (\<lambda>(k, v). enter k v) kvs s"

lemma inv_enter_all: "inv s \<Longrightarrow> \<forall>(k, v) \<in> set kvs. ok k v \<Longrightarrow> inv (enter_all kvs s)"
  unfolding enter_all_def by (induction kvs arbitrary: s) (auto simp: inv_enter)

lemma lookup_enter_all:
  "inv s \<Longrightarrow> \<forall>(k, v) \<in> set kvs. ok k v \<Longrightarrow>
   lookup (enter_all kvs s) k = (case lookup s k of Some w \<Rightarrow> Some w | None \<Rightarrow> map_of kvs k)"
  unfolding enter_all_def
  by (induction kvs arbitrary: s) (auto simp: inv_enter lookup_enter split: option.splits)

lemma lookup_kept:
  "inv s \<Longrightarrow> \<forall>(k, v) \<in> set kvs. ok k v \<Longrightarrow> lookup s k = Some w \<Longrightarrow> lookup (enter_all kvs s) k = Some w"
  by (simp add: lookup_enter_all)

end

definition users_content :: "db \<Rightarrow> string" where
  "users_content d = (case users_file d of None \<Rightarrow> [] | Some c \<Rightarrow> c)"

definition users_inv :: "db \<Rightarrow> bool" where
  "users_inv d \<longleftrightarrow> (\<exists>us. (\<forall>up \<in> set us. user_ok up) \<and> users_content d = users_text us)"

definition stored_password :: "db \<Rightarrow> string \<Rightarrow> string option" where
  "stored_password d name =
     (case find_user_in_file io_ok name d of Find_user u \<Rightarrow> Some (ud_password u) | _ \<Rightarrow> None)"

definition store_user :: "string \<Rightarrow> string \<Rightarrow> db \<Rightarrow> db" where
  "store_user name pw d = snd (add_user_to_file io_ok \<lparr>ud_username = name, ud_password = pw\<rparr> d)"

lemma find_user_in_file_ok:
  "find_user_in_file io_ok name d =
    (case find_user_loop False name (users_content d) of None \<Rightarrow> Find_none | Some u \<Rightarrow> Find_user u)"
  by (simp add: find_user_in_file_def users_content_def split: option.split)

lemma find_user_text:
  assumes "\<forall>up \<in> set us. user_ok up" "users_content d = users_text us @ cs"
  shows "find_user_in_file io_ok name d =
    (case map_of us name of
       Some p \<Rightarrow> Find_user \<lparr>ud_username = name, ud_password = p\<rparr>
     | None \<Rightarrow> (case find_user_loop False name cs of None \<Rightarrow> Find_none | Some u \<Rightarrow> Find_user u))"
  using assms by (simp add: find_user_in_file_ok find_user_loop_text split: option.split)

lemma append_line_ok [simp]:
  "append_line io_ok line file = (True, Some ((case file of None \<Rightarrow> [] | Some c \<Rightarrow> c) @ line))"
  by (simp add: append_line_def open_append_def)

lemma append_line_content:
  "\<exists>t. (case snd (append_line io line file) of None \<Rightarrow> [] | Some c \<Rightarrow> c)
         = (case file of None \<Rightarrow> [] | Some c \<Rightarrow> c) @ t"
  by (auto simp: append_line_def open_append_def split: option.split)

lemma add_user_content:
  "\<exists>t. users_content (snd (add_user_to_file io u d)) = users_content d @ t"
  using append_line_content [of io "user_line (ud_username u) (ud_password u)" "users_file d"]
  by (simp add: add_user_to_file_def users_content_def case_prod_beta)

lemma store_user_content [simp]:
  "users_content (store_user name pw d) = users_content d @ user_line name pw"
  by (simp add: store_user_def add_user_to_file_def users_content_def)

interpretation users_dir: directory stored_password store_user "\<lambda>u p. user_ok (u, p)" users_inv
proof
  fix d k v k'
  assume "users_inv d" and ok: "user_ok (k, v)"
  then obtain us where us: "\<forall>up \<in> set us. user_ok up" "users_content d = users_text us"
    by (auto simp: users_inv_def)
  then have us': "\<forall>up \<in> set (us @ [(k, v)]). user_ok up"
      "users_content (store_user k v d) = users_text (us @ [(k, v)])"
    using ok by auto
  show "users_inv (store_user k v d)" using us' unfolding users_inv_def by blast
  have "stored_password d k' = map_of us k'"
    using find_user_text [OF us(1), of d "[]" k'] us(2)
    by (simp add: stored_password_def split: option.split)
  moreover have "stored_password (store_user k v d) k' = map_of (us @ [(k, v)]) k'"
    using find_user_text [OF us'(1), of "store_user k v d" "[]" k'] us'(2)
    by (auto simp: stored_password_def map_add_def split: option.splits)
  ultimately show "stored_password (store_user k v d) k' =
      (case stored_password d k' of Some w \<Rightarrow> Some w | None \<Rightarrow> if k' = k then Some v else None)"
    by (auto simp: map_add_def split: option.split)
qed

section \<open>Properties\<close>

definition run_adds :: "(io \<times> user_data) list \<Rightarrow> db \<Rightarrow> db" where
  "run_adds adds d = fold (\<lambda>(io, u) d. snd (add_user_to_file io u d)) adds d"

lemma run_adds_content: "\<exists>t. users_content (run_adds adds d) = users_content d @ t"
proof (induction adds arbitrary: d)
  case Nil
  then show ?case by (simp add: run_adds_def)
next
  case (Cons a adds)
  obtain io u where a: "a = (io, u)" by (cases a)
  obtain t where t: "users_content (snd (add_user_to_file io u d)) = users_content d @ t"
    using add_user_content by blast
  obtain t' where "users_content (run_adds adds (snd (add_user_to_file io u d))) =
      users_content (snd (add_user_to_file io u d)) @ t'"
    using Cons.IH by blast
  then show ?case using a t by (simp add: run_adds_def)
qed

text \<open>
  A user that can be found stays found with the same password, whatever is added to the
  users file afterwards and however those additions fail (open, lock, partial write, close).
\<close>

theorem registered_user_kept:
  assumes "users_inv d" "stored_password d name = Some p"
  shows "stored_password (run_adds adds d) name = Some p"
proof -
  obtain us where us: "\<forall>up \<in> set us. user_ok up" "users_content d = users_text us"
    using assms(1) by (auto simp: users_inv_def)
  have m: "map_of us name = Some p"
    using assms(2) find_user_text [OF us(1), of d "[]" name] us(2)
    by (simp add: stored_password_def split: option.splits)
  obtain t where "users_content (run_adds adds d) = users_text us @ t"
    using run_adds_content us(2) by metis
  then show ?thesis using find_user_text [OF us(1), of "run_adds adds d" t name] m
    by (simp add: stored_password_def)
qed

definition empty_db :: db where
  "empty_db = \<lparr>data_dir = Directory, users_file = Some [], scores_file = Some []\<rparr>"

lemma users_inv_empty [simp]: "users_inv empty_db"
  unfolding users_inv_def by (rule exI [of _ "[]"]) (simp add: users_content_def empty_db_def)

lemma find_empty [simp]: "stored_password empty_db name = None"
  by (simp add: stored_password_def find_user_in_file_ok users_content_def empty_db_def)

theorem registered_user_kept_witness:
  "stored_password (run_adds
      [(io_ok\<lparr>io_write_stop := Some 3\<rparr>, \<lparr>ud_username = ''amy'', ud_password = ''xx''\<rparr>)]
      (store_user ''bob'' ''pw'' empty_db)) ''bob'' = Some ''pw''"
proof -
  have ok: "user_ok (''bob'', ''pw'')" by (simp add: user_ok_def)
  show ?thesis
    using registered_user_kept [OF users_dir.inv_enter [OF users_inv_empty ok]]
      users_dir.lookup_enter [OF users_inv_empty ok, of "''bob''"] by simp
qed

text \<open>
  Storing users and looking them up again: after storing a list of well-formed users one by
  one, a lookup gives the password that was already on file for that name, else the first one stored
  for it, else nothing.
\<close>

theorem stored_users_found:
  assumes "users_inv d" "\<forall>(u, p) \<in> set ups. user_ok (u, p)"
  shows "stored_password (fold (\<lambda>(u, p). store_user u p) ups d) name =
    (case stored_password d name of Some w \<Rightarrow> Some w | None \<Rightarrow> map_of ups name)"
  using users_dir.lookup_enter_all [OF assms] by (simp add: users_dir.enter_all_def)

theorem stored_users_found_witness:
  "stored_password (fold (\<lambda>(u, p). store_user u p) [(''bob'', ''pw''), (''amy'', ''xx'')] empty_db) ''amy''
     = Some ''xx''"
  using stored_users_found [of empty_db "[(''bob'', ''pw''), (''amy'', ''xx'')]" "''amy''"]
  by (simp add: user_ok_def)

text \<open>
  A write that fails half way is not repaired: when storing one user stops after \<open>k\<close> bytes
  (0 < k, at most the name), the next registration reports success but its line is glued to
  the fragment, so that user cannot be found.
\<close>

theorem torn_write_loses_next_user:
  assumes "users_inv d" "user_ok (u1, p1)" "user_ok (u2, p2)" "stored_password d u2 = None"
    and "0 < k" "k \<le> length u1" "io_write_stop io = Some k" "\<not> io_open_fails io" "\<not> io_flock_fails io"
    and "k + length u2 + length p2 < USER_BUF - 2"
  defines "d1 \<equiv> snd (add_user_to_file io \<lparr>ud_username = u1, ud_password = p1\<rparr> d)"
  shows "\<not> fst (add_user_to_file io \<lparr>ud_username = u1, ud_password = p1\<rparr> d)
    \<and> fst (add_user_to_file io_ok \<lparr>ud_username = u2, ud_password = p2\<rparr> d1)
    \<and> find_user_in_file io_ok u2 (store_user u2 p2 d1) = Find_none"
proof -
  obtain us where us: "\<forall>up \<in> set us. user_ok up" "users_content d = users_text us"
    using assms(1) by (auto simp: users_inv_def)
  have m: "map_of us u2 = None"
    using assms(4) find_user_text [OF us(1), of d "[]" u2] us(2)
    by (simp add: stored_password_def split: option.splits)
  have add1: "add_user_to_file io \<lparr>ud_username = u1, ud_password = p1\<rparr> d =
      (False, d\<lparr>users_file := Some (users_text us @ take k u1)\<rparr>)"
    using assms(6-9) us(2)
    by (simp add: add_user_to_file_def append_line_def open_append_def users_content_def user_line_def)
  then have d1: "users_content d1 = users_text us @ take k u1"
    by (simp add: d1_def users_content_def)
  let ?l = "(take k u1 @ u2) @ COLON # p2"
  have c: "users_content (store_user u2 p2 d1) = users_text us @ (?l @ NL # [])"
    by (simp add: d1 user_line_def)
  have ne: "take k u1 @ u2 \<noteq> u2" using assms(5,6) by auto
  have clean: "NL \<notin> set ?l" "nul_free ?l" "COLON \<notin> set (take k u1 @ u2)"
    using assms(2,3) by (auto simp: user_ok_def dest: in_set_takeD)
  have "length ?l < USER_BUF - 1" using assms(6,10) by simp
  then have "find_user_loop False u2 (?l @ NL # []) = None"
    using find_user_loop_line [OF clean(1) _ clean(2) refl clean(3), of False u2 "[]"] ne by simp
  then have "find_user_in_file io_ok u2 (store_user u2 p2 d1) = Find_none"
    using find_user_text [OF us(1) c, of u2] m by simp
  moreover have "fst (add_user_to_file io_ok \<lparr>ud_username = u2, ud_password = p2\<rparr> d1)"
    by (simp add: add_user_to_file_def)
  ultimately show ?thesis using add1 by simp
qed

theorem torn_write_loses_next_user_witness:
  "find_user_in_file io_ok ''amy'' (store_user ''amy'' ''xx''
     (snd (add_user_to_file (io_ok\<lparr>io_write_stop := Some 2\<rparr>)
        \<lparr>ud_username = ''bob'', ud_password = ''pw''\<rparr> empty_db))) = Find_none"
  using torn_write_loses_next_user
    [of empty_db "''bob''" "''pw''" "''amy''" "''xx''" 2 "io_ok\<lparr>io_write_stop := Some 2\<rparr>"]
  by (simp add: user_ok_def)

definition scores_content :: "db \<Rightarrow> string" where
  "scores_content d = (case scores_file d of None \<Rightarrow> [] | Some c \<Rightarrow> c)"

definition store_scores :: "(string \<times> int) list \<Rightarrow> db \<Rightarrow> db" where
  "store_scores rs d = fold (\<lambda>(u, s) d. snd (add_score_to_file io_ok u s d)) rs d"

lemma scores_content_empty [simp]: "scores_content empty_db = []"
  by (simp add: scores_content_def empty_db_def)

lemma store_scores_content:
  "scores_content (store_scores rs d) = scores_content d @ scores_text rs"
proof (induction rs arbitrary: d)
  case Nil
  then show ?case by (simp add: store_scores_def)
next
  case (Cons r rs)
  have "scores_content (snd (add_score_to_file io_ok (fst r) (snd r) d)) =
      scores_content d @ score_line (fst r) (snd r)"
    by (simp add: add_score_to_file_def scores_content_def)
  moreover have "store_scores (r # rs) d = store_scores rs (snd (add_score_to_file io_ok (fst r) (snd r) d))"
    by (simp add: store_scores_def split_def)
  ultimately show ?case using Cons.IH by simp
qed

lemma load_all_scores_ok:
  "load_all_scores_from_file io_ok m d = Some (load_scores_loop m False (scores_content d))"
  by (simp add: load_all_scores_from_file_def scores_content_def split: option.split)

text \<open>
  Claim C25. Scores written with \<open>%s:%d\<close> and read back with \<open>strtol\<close>: every submitted score comes
  back, in order, with its exact 32-bit value, but only the first \<open>max_records\<close> of the file:
  what is submitted after that is never read.
\<close>

theorem scores_roundtrip:
  assumes "\<forall>r \<in> set old. score_ok r" "\<forall>r \<in> set new. score_ok r" "scores_content d = scores_text old"
  shows "load_all_scores_from_file io_ok max_records (store_scores new d) =
    Some (map (\<lambda>(u, s). \<lparr>sr_username = u, sr_score = s\<rparr>) (take max_records (old @ new)))"
proof -
  have "scores_content (store_scores new d) = scores_text (old @ new)"
    using assms(3) by (simp add: store_scores_content)
  moreover have "\<forall>r \<in> set (old @ new). score_ok r" using assms(1,2) by auto
  ultimately show ?thesis
    using load_scores_loop_text [of "old @ new" max_records False]
    by (simp add: load_all_scores_ok take_map)
qed

theorem scores_roundtrip_witness:
  "load_all_scores_from_file io_ok 2 (store_scores [(''bob'', 70), (''amy'', -3), (''bob'', 90)] empty_db)
     = Some [\<lparr>sr_username = ''bob'', sr_score = 70\<rparr>, \<lparr>sr_username = ''amy'', sr_score = -3\<rparr>]"
  using scores_roundtrip [of "[]" "[(''bob'', 70), (''amy'', -3), (''bob'', 90)]" empty_db 2]
  by (simp add: score_ok_def in_int32_def scores_content_def empty_db_def numeral_2_eq_2)

text \<open>
  Whatever bytes the scores file holds and however the calls fail, at most \<open>max_records\<close>
  records are written to the array, every name fits its 32-byte field with its terminator and every
  score is a 32-bit integer.
\<close>

theorem load_all_scores_bounds:
  assumes "load_all_scores_from_file io max_records d = Some rs"
  shows "length rs \<le> max_records
    \<and> (\<forall>r \<in> set rs. length (sr_username r) < MAX_ID_LEN \<and> nul_free (sr_username r) \<and> in_int32 (sr_score r))"
  using assms load_scores_loop_length [of max_records] load_scores_loop_fits [of _ max_records]
  by (auto simp: load_all_scores_from_file_def less_Suc_eq_le split: if_splits option.splits)

theorem load_all_scores_bounds_witness:
  "length [\<lparr>sr_username = ''bob'', sr_score = -2\<rparr>] \<le> (1 :: nat)"
proof -
  have "load_all_scores_from_file io_ok 1 (empty_db\<lparr>scores_file := Some (scores_text [(''bob'', -2), (''amy'', 7)])\<rparr>)
      = Some [\<lparr>sr_username = ''bob'', sr_score = -2\<rparr>]"
    using load_scores_loop_text [of "[(''bob'', -2), (''amy'', 7)]" 1 False]
    by (simp add: load_all_scores_ok scores_content_def score_ok_def in_int32_def del: scores_text_simps)
  from load_all_scores_bounds [OF this] show ?thesis by simp
qed

end
