(* ===== verification/Hash_Util.thy ===== *)
theory Hash_Util
  imports Protocol
begin

text \<open>
  \<^verbatim>\<open>common/src/hash_util.c\<close>: the initialisation flag, the hexadecimal printer and the password
  hash. OpenSSL is not part of the repository: the calls on its digest context are the record
  \<open>evp\<close>, an argument of the model.
\<close>

section \<open>Hexadecimal\<close>

definition hex_digit :: "nat \<Rightarrow> char" where
  "hex_digit n = (if n < 10 then char_of (48 + n) else char_of (87 + n))"

fun bytes_to_hex :: "bytes \<Rightarrow> string" where
  "bytes_to_hex [] = []"
| "bytes_to_hex (b # bs) = hex_digit (of_char b div 16) # hex_digit (of_char b mod 16) # bytes_to_hex bs"

definition hex_val :: "char \<Rightarrow> nat" where
  "hex_val c = (if of_char c < (58 :: nat) then of_char c - 48 else of_char c - 87)"

fun hex_to_bytes :: "string \<Rightarrow> bytes" where
  "hex_to_bytes (h # l # cs) = char_of (16 * hex_val h + hex_val l) # hex_to_bytes cs"
| "hex_to_bytes _ = []"

definition is_hex :: "char \<Rightarrow> bool" where
  "is_hex c \<longleftrightarrow> is_digit c \<or> (97 \<le> (of_char c :: nat) \<and> (of_char c :: nat) \<le> 102)"

lemma hex_digit [simp]: "n < 16 \<Longrightarrow> hex_val (hex_digit n) = n" "n < 16 \<Longrightarrow> is_hex (hex_digit n)"
  by (auto simp: hex_val_def hex_digit_def is_hex_def is_digit_def)

lemma nibbles [simp]:
  "of_char (c :: char) div 16 < (16 :: nat)" "of_char (c :: char) mod 16 < (16 :: nat)"
proof -
  have "(of_char c :: nat) < 16 * 16" using nat_of_char_less_256 [of c] by simp
  then show "of_char (c :: char) div 16 < (16 :: nat)" by (rule less_mult_imp_div_less)
qed simp

lemma length_bytes_to_hex [simp]: "length (bytes_to_hex bs) = 2 * length bs"
  by (induction bs) auto

lemma bytes_to_hex_chars: "c \<in> set (bytes_to_hex bs) \<Longrightarrow> is_hex c"
  by (induction bs) auto

lemma hex_to_bytes_to_hex [simp]: "hex_to_bytes (bytes_to_hex bs) = bs"
  by (induction bs) auto

lemma bytes_to_hex_clean [simp]:
  "nul_free (bytes_to_hex bs)" "NL \<notin> set (bytes_to_hex bs)" "COLON \<notin> set (bytes_to_hex bs)"
  by (auto simp: nul_free_def dest!: bytes_to_hex_chars simp: is_hex_def is_digit_def)

section \<open>Initialisation and the password hash\<close>

abbreviation SHA256_DIGEST_LENGTH :: nat where "SHA256_DIGEST_LENGTH \<equiv> 32"

definition crypto_init :: "bool \<Rightarrow> bool \<times> bool" where
  "crypto_init initialized = (if initialized then (True, initialized) else (True, True))"

definition crypto_cleanup :: "bool \<Rightarrow> bool" where
  "crypto_cleanup initialized = (if \<not> initialized then initialized else False)"

text \<open>
  The digest context: whether it can be made, whether each call returns 1, and the digest that
  \<open>EVP_DigestFinal_ex\<close> writes (its length is \<open>hash_len\<close>).
\<close>

record evp =
  evp_ctx_new :: bool
  evp_init :: bool
  evp_update :: "string \<Rightarrow> bool"
  evp_final :: "string \<Rightarrow> bytes option"

text \<open>The result is the return value and, when it is 1, the string written to \<open>hash_output\<close>.\<close>

definition hash_password_sha256 :: "evp \<Rightarrow> bool \<Rightarrow> string option \<Rightarrow> bool \<times> string" where
  "hash_password_sha256 ssl initialized password =
     (if \<not> initialized then (False, [])
      else case password of
        None \<Rightarrow> (False, [])
      | Some pw \<Rightarrow>
          if \<not> evp_ctx_new ssl then (False, [])
          else if \<not> evp_init ssl \<or> \<not> evp_update ssl pw then (False, [])
          else case evp_final ssl pw of
            None \<Rightarrow> (False, [])
          | Some hash \<Rightarrow>
              if length hash \<noteq> SHA256_DIGEST_LENGTH then (False, [])
              else (True, bytes_to_hex hash))"

lemma crypto_init_then_hash [simp]: "fst (crypto_init c)" "snd (crypto_init c)"
  by (simp_all add: crypto_init_def)

lemma crypto_cleanup [simp]: "\<not> crypto_cleanup c"
  by (simp add: crypto_cleanup_def)

lemma hash_success:
  assumes "hash_password_sha256 ssl c pw = (True, h)"
  obtains p d where "pw = Some p" "evp_final ssl p = Some d" "length d = 32" "h = bytes_to_hex d"
  using assms by (auto simp: hash_password_sha256_def split: if_splits option.splits)

text \<open>
  A password hash the code accepts has 64 lower-case hexadecimal digits: it fits the
  72-byte password field with its terminator and holds no NUL, line feed or colon, so it can stand in a
  line of the users file; and two passwords get the same string only when OpenSSL gives them the
  same digest.
\<close>

theorem hash_password_storable:
  assumes "hash_password_sha256 ssl c pw = (True, h)"
  shows "length h = 64 \<and> length h < MAX_PW_LEN \<and> nul_free h \<and> NL \<notin> set h \<and> COLON \<notin> set h
    \<and> (\<forall>c' pw'. hash_password_sha256 ssl c' pw' = (True, h)
          \<longrightarrow> evp_final ssl (the pw') = evp_final ssl (the pw))"
proof -
  obtain p d where d: "pw = Some p" "evp_final ssl p = Some d" "length d = 32" "h = bytes_to_hex d"
    using assms by (rule hash_success)
  have "evp_final ssl (the pw') = evp_final ssl (the pw)"
    if "hash_password_sha256 ssl c' pw' = (True, h)" for c' pw'
    using that d by (auto elim!: hash_success dest: arg_cong [of _ _ hex_to_bytes])
  then show ?thesis using d by auto
qed

definition toy_evp :: evp where
  "toy_evp = \<lparr>evp_ctx_new = True, evp_init = True, evp_update = (\<lambda>_. True),
     evp_final = (\<lambda>p. Some (take 32 (p @ replicate 32 CHR 0xAB)))\<rparr>"

theorem hash_password_storable_witness:
  "\<exists>h. hash_password_sha256 toy_evp True (Some ''secret'') = (True, h) \<and> length h = 64"
proof -
  have "hash_password_sha256 toy_evp True (Some ''secret'')
      = (True, bytes_to_hex (take 32 (''secret'' @ replicate 32 CHR 0xAB)))"
    by (simp add: hash_password_sha256_def toy_evp_def)
  then show ?thesis using hash_password_storable by blast
qed

end
