(* ===== verification/Auth_Manager.thy ===== *)
theory Auth_Manager
  imports Db_Handler Hash_Util
begin

text \<open>
  \<^verbatim>\<open>server/src/auth_manager.c\<close>: registration and login over the users file. The arguments are the
  pointers that the connection handler makes into the received body; the result \<open>None\<close> means that
  the call reads outside that body (undefined behaviour).
\<close>

definition init_auth_system :: "bool \<Rightarrow> bool" where
  "init_auth_system initialized = snd (crypto_init initialized)"

definition register_user_impl ::
    "io \<Rightarrow> io \<Rightarrow> cptr \<Rightarrow> cptr \<Rightarrow> db \<Rightarrow> (bool \<times> string \<times> db) option" where
  "register_user_impl io_find io_add username hashed_password d =
     (let empty = Some (False, snprintf_str MAX_MSG_LEN ''Username and password cannot be empty.'', d) in
      if username = Null \<or> hashed_password = Null then empty
      else do {
        u \<leftarrow> deref username;
        if u = [] then empty
        else do {
          p \<leftarrow> deref hashed_password;
          if p = [] then empty
          else if MAX_ID_LEN \<le> length u \<or> MAX_PW_LEN \<le> length p
          then Some (False, snprintf_str MAX_MSG_LEN ''Username or password too long.'', d)
          else (case find_user_in_file io_find u d of
              Find_user _ \<Rightarrow>
                Some (False, snprintf_str MAX_MSG_LEN (''User '' @ quoted u @ '' already exists.''), d)
            | Find_error \<Rightarrow>
                Some (False, snprintf_str MAX_MSG_LEN ''Error checking user existence (DB).'', d)
            | Find_none \<Rightarrow>
                (let new_user = \<lparr>ud_username = strncpy_str MAX_ID_LEN u, ud_password = strncpy_str MAX_PW_LEN p\<rparr>;
                     (ok, d') = add_user_to_file io_add new_user d
                 in if ok
                    then Some (True, snprintf_str MAX_MSG_LEN
                           (''User '' @ quoted u @ '' registered successfully.''), d')
                    else Some (False, snprintf_str MAX_MSG_LEN
                           (''Failed to save new user '' @ quoted u @ '' (DB).''), d')))
        }
      })"

text \<open>The result: the return value, the message and the string in \<open>logged_in_user\<close>.\<close>

definition login_user_impl ::
    "io \<Rightarrow> cptr \<Rightarrow> cptr \<Rightarrow> db \<Rightarrow> (bool \<times> string \<times> string) option" where
  "login_user_impl io username hashed_password d =
     (if username = Null \<or> hashed_password = Null
      then Some (False, snprintf_str MAX_MSG_LEN ''Username or password cannot be null.'', [])
      else do {
        u \<leftarrow> deref username;
        case find_user_in_file io u d of
          Find_none \<Rightarrow>
            Some (False, snprintf_str MAX_MSG_LEN (''User '' @ quoted u @ '' not found.''), [])
        | Find_error \<Rightarrow>
            Some (False, snprintf_str MAX_MSG_LEN (''Error finding user '' @ quoted u @ '' (DB).''), [])
        | Find_user user_from_db \<Rightarrow> do {
            p \<leftarrow> deref hashed_password;
            if strcmp (ud_password user_from_db) p = 0
            then Some (True, snprintf_str MAX_MSG_LEN
                   (''Login successful for '' @ quoted u @ ''.''), strncpy_str MAX_ID_LEN u)
            else Some (False, snprintf_str MAX_MSG_LEN
                   (''Invalid password for user '' @ quoted u @ ''.''), [])
          }
      })"

section \<open>The two operations by cases\<close>

lemma length_snprintf_str [simp, c_string]: "0 < n \<Longrightarrow> length (snprintf_str n s) < n"
  by (auto simp: snprintf_str_def)

lemma nul_free_snprintf_str [simp, c_string]: "nul_free s \<Longrightarrow> nul_free (snprintf_str n s)"
  by (simp add: snprintf_str_def)

lemma find_user_loop_name:
  "find_user_loop f name cs = Some u \<Longrightarrow>
     ud_username u = name \<and> COLON \<notin> set name \<and> nul_free name \<and> length name < MAX_ID_LEN
     \<and> length (ud_password u) < MAX_PW_LEN"
proof (induction f name cs rule: find_user_loop.induct)
  case (1 f name cs)
  obtain r cs' where rl: "read_line USER_BUF f cs = (r, cs')" by (cases "read_line USER_BUF f cs")
  obtain line where r: "r = Some line" "line \<noteq> []"
    using "1.prems" rl find_user_loop.simps [of f name cs] by (auto split: option.splits if_splits)
  show ?case
  proof (cases "split_at COLON (cstr line)")
    case None
    then have "find_user_loop f name cs' = Some u"
      using "1.prems" rl r find_user_loop.simps [of f name cs] by simp
    then show ?thesis using "1.IH"(1) [OF rl [symmetric] r None] by simp
  next
    case (Some np)
    obtain n p where np: "np = (n, p)" by (cases np)
    have n: "COLON \<notin> set n" "nul_free n"
      using split_at_Some [of COLON "cstr line" n p] cstr_nul_free [of line] Some np by auto
    let ?hit = "length n < MAX_ID_LEN \<and> length p < MAX_PW_LEN \<and> strcmp (strncpy_str MAX_ID_LEN n) name = 0"
    show ?thesis
    proof (cases ?hit)
      case True
      then show ?thesis using "1.prems" rl r Some np n find_user_loop.simps [of f name cs] by auto
    next
      case False
      then have "find_user_loop f name cs' = Some u"
        using "1.prems" rl r Some np find_user_loop.simps [of f name cs] by (simp split: if_splits)
      then show ?thesis using "1.IH"(2) [OF rl [symmetric] r Some np [symmetric] False] by simp
    qed
  qed
qed

text \<open>Whatever the file holds, what is found has the name that was asked for, with no colon in it.\<close>

lemma find_user_in_file_name:
  "find_user_in_file io name d = Find_user u \<Longrightarrow>
     ud_username u = name \<and> COLON \<notin> set name \<and> length name < MAX_ID_LEN"
  by (auto simp: find_user_in_file_def dest: find_user_loop_name split: if_splits option.splits)

lemma login_user_impl_Str:
  "login_user_impl io (Str u) (Str p) d =
     Some (case find_user_in_file io u d of
        Find_user x \<Rightarrow>
          if ud_password x = p then (True, snprintf_str MAX_MSG_LEN
               (''Login successful for '' @ quoted u @ ''.''), strncpy_str MAX_ID_LEN u)
          else (False, snprintf_str MAX_MSG_LEN (''Invalid password for user '' @ quoted u @ ''.''), [])
      | Find_none \<Rightarrow> (False, snprintf_str MAX_MSG_LEN (''User '' @ quoted u @ '' not found.''), [])
      | Find_error \<Rightarrow> (False, snprintf_str MAX_MSG_LEN (''Error finding user '' @ quoted u @ '' (DB).''), []))"
  by (simp add: login_user_impl_def split: find_result.split)

lemma login_user_impl_success:
  assumes "login_user_impl io up pp d = Some (True, msg, who)"
  obtains u p where "up = Str u" "pp = Str p" "find_user_in_file io u d = Find_user \<lparr>ud_username = u, ud_password = p\<rparr>"
    "who = u" "length u < MAX_ID_LEN" "COLON \<notin> set u"
proof -
  obtain u where u: "up = Str u"
    using assms by (cases up) (auto simp: login_user_impl_def split: if_splits)
  then obtain x p where x: "find_user_in_file io u d = Find_user x" "pp = Str p" "ud_password x = p"
      "who = strncpy_str MAX_ID_LEN u"
    using assms by (cases pp) (auto simp: login_user_impl_def split: if_splits find_result.splits)
  then have "ud_username x = u" "length u < MAX_ID_LEN" "COLON \<notin> set u"
    using find_user_in_file_name by auto
  moreover from this have "x = \<lparr>ud_username = u, ud_password = p\<rparr>" using x(3) by simp
  ultimately show ?thesis using that u x by simp
qed

lemma stored_password_find:
  "stored_password d u = Some p \<longleftrightarrow> find_user_in_file io_ok u d = Find_user \<lparr>ud_username = u, ud_password = p\<rparr>"
  by (auto simp: stored_password_def split: find_result.splits dest: find_user_in_file_name)

lemma stored_password_none:
  "stored_password d u = None \<longleftrightarrow> find_user_in_file io_ok u d = Find_none"
  by (auto simp: stored_password_def find_user_in_file_ok split: find_result.splits option.splits)

text \<open>A login with readable arguments and a working disk is accepted exactly for the stored password.\<close>

lemma login_iff:
  "login_user_impl io_ok (Str u) (Str p) d = Some (ok, msg, who) \<Longrightarrow>
     (ok \<longleftrightarrow> stored_password d u = Some p) \<and> who = (if ok then u else [])"
  by (auto simp: login_user_impl_Str stored_password_def split: find_result.splits if_splits
      dest: find_user_in_file_name)

lemma register_new:
  assumes "u \<noteq> []" "p \<noteq> []" "length u < MAX_ID_LEN" "length p < MAX_PW_LEN" "stored_password d u = None"
  shows "register_user_impl io_ok io_ok (Str u) (Str p) d =
    Some (True, snprintf_str MAX_MSG_LEN
       (''User '' @ quoted u @ '' registered successfully.''), store_user u p d)"
proof -
  have "fst (add_user_to_file io_ok \<lparr>ud_username = u, ud_password = p\<rparr> d)"
    by (simp add: add_user_to_file_def)
  then have "add_user_to_file io_ok \<lparr>ud_username = u, ud_password = p\<rparr> d = (True, store_user u p d)"
    by (simp add: store_user_def prod_eq_iff)
  then show ?thesis using assms by (simp add: register_user_impl_def stored_password_none)
qed

lemma register_taken:
  assumes "u \<noteq> []" "p \<noteq> []" "length u < MAX_ID_LEN" "length p < MAX_PW_LEN" "stored_password d u = Some q"
  shows "register_user_impl io_ok io_ok (Str u) (Str p) d =
    Some (False, snprintf_str MAX_MSG_LEN
       (''User '' @ quoted u @ '' already exists.''), d)"
  using assms by (simp add: register_user_impl_def stored_password_find)

section \<open>Properties\<close>

text \<open>
  Claim C8. Registration then login: on a well-formed users file, registering a fresh well-formed
  name succeeds; from then on a login under that name is accepted exactly with the registered
  password, the session gets that name, every other account answers as before, and a second
  registration of the name is refused and leaves the files alone.
\<close>

theorem register_then_login:
  assumes "users_inv d" "user_ok (u, p)" "u \<noteq> []" "p \<noteq> []" "stored_password d u = None"
  shows "\<exists>msg d'. register_user_impl io_ok io_ok (Str u) (Str p) d = Some (True, msg, d')
    \<and> users_inv d'
    \<and> (\<forall>q ok msg' who. login_user_impl io_ok (Str u) (Str q) d' = Some (ok, msg', who)
          \<longrightarrow> (ok \<longleftrightarrow> q = p) \<and> who = (if ok then u else []))
    \<and> (\<forall>v. v \<noteq> u \<longrightarrow> stored_password d' v = stored_password d v)
    \<and> (\<exists>msg'. register_user_impl io_ok io_ok (Str u) (Str p) d' = Some (False, msg', d'))"
proof -
  have len: "length u < MAX_ID_LEN" "length p < MAX_PW_LEN" using assms(2) by (auto simp: user_ok_def)
  have look: "stored_password (store_user u p d) v = (if v = u then Some p else stored_password d v)" for v
    using users_dir.lookup_enter [OF assms(1,2), of v] assms(5) by (auto split: option.splits)
  have "users_inv (store_user u p d)" using users_dir.inv_enter [OF assms(1,2)] .
  moreover have "(ok \<longleftrightarrow> q = p) \<and> who = (if ok then u else [])"
    if "login_user_impl io_ok (Str u) (Str q) (store_user u p d) = Some (ok, msg', who)" for q ok msg' who
    using login_iff [OF that] look by auto
  ultimately show ?thesis
    using register_new [OF assms(3,4) len assms(5)] look
      register_taken [OF assms(3,4) len, of "store_user u p d" p] by auto
qed

theorem register_then_login_witness:
  "\<exists>msg d'. register_user_impl io_ok io_ok (Str ''bob'') (Str ''pw'') empty_db = Some (True, msg, d')
     \<and> users_inv d'"
  using register_then_login [of empty_db "''bob''" "''pw''"] by (auto simp: user_ok_def)

text \<open>
  Claim C24. A login is accepted only for an account of the users file whose stored password is
  the submitted one, whatever the file holds; the session name is then exactly the submitted name,
  it fits the 32-byte buffer and has no colon. A refused login leaves the session name empty.
\<close>

theorem login_sound:
  assumes "login_user_impl io up pp d = Some (ok, msg, who)"
  shows "(ok \<longrightarrow> (\<exists>u p. up = Str u \<and> pp = Str p \<and> who = u \<and> length u < MAX_ID_LEN \<and> COLON \<notin> set u
            \<and> find_user_in_file io u d = Find_user \<lparr>ud_username = u, ud_password = p\<rparr>))
    \<and> (\<not> ok \<longrightarrow> who = []) \<and> length msg < MAX_MSG_LEN"
proof -
  have "who = [] \<or> ok"
    using assms by (auto simp: login_user_impl_def split: if_splits find_result.splits bind_splits)
  moreover have "length msg < MAX_MSG_LEN"
    using assms by (auto simp: login_user_impl_def split: if_splits find_result.splits bind_splits)
  ultimately show ?thesis using assms
    by (cases ok) (auto elim!: login_user_impl_success)
qed

theorem login_sound_witness:
  "\<exists>msg. login_user_impl io_ok (Str ''bob'') (Str ''pw'') (store_user ''bob'' ''pw'' empty_db) = Some (True, msg, ''bob'')
     \<and> find_user_in_file io_ok ''bob'' (store_user ''bob'' ''pw'' empty_db)
         = Find_user \<lparr>ud_username = ''bob'', ud_password = ''pw''\<rparr>
     \<and> login_user_impl io_ok (Str ''bob'') (Str ''px'') (store_user ''bob'' ''pw'' empty_db) \<noteq> Some (True, msg, ''bob'')"
proof -
  let ?d = "store_user ''bob'' ''pw'' empty_db"
  have look: "stored_password ?d ''bob'' = Some ''pw''"
    using users_dir.lookup_enter [OF users_inv_empty, of "''bob''" "''pw''" "''bob''"] by (simp add: user_ok_def)
  obtain msg where l: "login_user_impl io_ok (Str ''bob'') (Str ''pw'') ?d = Some (True, msg, ''bob'')"
    using look by (simp add: login_user_impl_Str stored_password_find)
  have "find_user_in_file io_ok ''bob'' ?d = Find_user \<lparr>ud_username = ''bob'', ud_password = ''pw''\<rparr>"
    using login_sound [OF l] by simp
  moreover have "login_user_impl io_ok (Str ''bob'') (Str ''px'') ?d \<noteq> Some (True, msg, ''bob'')"
    using login_sound [of io_ok "Str ''bob''" "Str ''px''" ?d True msg "''bob''"] look by (auto simp: stored_password_find)
  ultimately show ?thesis using l by blast
qed

text \<open>
  A name with a colon is accepted by registration every time it is tried (the account is
  appended again and reported as registered), and no login under it is ever accepted: the line is
  read back under the part before the colon.
\<close>

theorem colon_name_registers_but_never_logs_in:
  assumes "COLON \<in> set u" "p \<noteq> []" "length u < MAX_ID_LEN" "length p < MAX_PW_LEN"
  shows "(\<exists>msg. register_user_impl io_ok io_ok (Str u) (Str p) d = Some (True, msg, store_user u p d))
    \<and> (\<forall>io q d' ok msg who. login_user_impl io (Str u) (Str q) d' = Some (ok, msg, who) \<longrightarrow> \<not> ok)"
proof -
  have "find_user_loop False u (users_content d) = None"
    using find_user_loop_name assms(1) by (metis not_None_eq)
  then have "stored_password d u = None" by (simp add: stored_password_none find_user_in_file_ok)
  moreover have "u \<noteq> []" using assms(1) by auto
  moreover have "\<not> ok" if "login_user_impl io (Str u) (Str q) d' = Some (ok, msg, who)" for io q d' ok msg who
    using that assms(1) by (cases ok) (auto elim!: login_user_impl_success)
  ultimately show ?thesis using register_new assms by blast
qed

theorem colon_name_registers_but_never_logs_in_witness:
  "(\<exists>msg. register_user_impl io_ok io_ok (Str ''a:b'') (Str ''pw'') empty_db
        = Some (True, msg, store_user ''a:b'' ''pw'' empty_db))
   \<and> (\<nexists>msg who. login_user_impl io_ok (Str ''a:b'') (Str ''pw'') (store_user ''a:b'' ''pw'' empty_db)
        = Some (True, msg, who))"
  using colon_name_registers_but_never_logs_in [of "''a:b''" "''pw''" empty_db] by simp metis

text \<open>
  A name that starts with a line feed is accepted and writes an empty line; the scan stops
  at an empty line, so from then on no account stored after it can be found, although its
  registration is reported as a success; the accounts stored before it keep working.
\<close>

theorem newline_name_hides_later_users:
  assumes "users_inv d" "stored_password d (NL # u) = None" "length u < MAX_ID_LEN - 1"
    "p \<noteq> []" "length p < MAX_PW_LEN"
  shows "\<exists>msg d'. register_user_impl io_ok io_ok (Str (NL # u)) (Str p) d = Some (True, msg, d')
    \<and> (\<forall>adds name. stored_password (run_adds adds d') name = stored_password d name)"
proof -
  obtain us where us: "\<forall>up \<in> set us. user_ok up" "users_content d = users_text us"
    using assms(1) by (auto simp: users_inv_def)
  have "stored_password (run_adds adds (store_user (NL # u) p d)) name = stored_password d name" for adds name
  proof -
    obtain t where t: "users_content (run_adds adds (store_user (NL # u) p d)) =
        users_text us @ NL # u @ COLON # p @ NL # t"
      using run_adds_content [of adds "store_user (NL # u) p d"] us(2) by (auto simp: user_line_def)
    have "find_user_loop False name (NL # u @ COLON # p @ NL # t) = None"
      using read_line_line [of "[]" USER_BUF False] by (subst find_user_loop.simps) simp
    then show ?thesis
      using find_user_text [OF us(1) t, of name] find_user_text [OF us(1), of d "[]" name] us(2)
      by (simp add: stored_password_def split: option.split)
  qed
  then show ?thesis using register_new [of "NL # u" p d] assms by auto
qed

theorem newline_name_hides_later_users_witness:
  "\<exists>msg d'. register_user_impl io_ok io_ok (Str [NL]) (Str ''pw'') empty_db = Some (True, msg, d')
     \<and> stored_password (run_adds [(io_ok, \<lparr>ud_username = ''bob'', ud_password = ''pw''\<rparr>)] d') ''bob'' = None"
proof -
  obtain msg d' where "register_user_impl io_ok io_ok (Str [NL]) (Str ''pw'') empty_db = Some (True, msg, d')"
      "\<forall>adds name. stored_password (run_adds adds d') name = stored_password empty_db name"
    using newline_name_hides_later_users [of empty_db "[]" "''pw''"] by auto
  then show ?thesis by simp
qed

end
