(* ===== verification/Score_Manager.thy ===== *)
theory Score_Manager
  imports Db_Handler "HOL-Library.Multiset"
begin

text \<open>
  \<^verbatim>\<open>server/src/score_manager.c\<close>: score submission and the leaderboard. The leaderboard is made in
  three steps: sort the records by name and falling score, keep the first record of each name, sort
  what was kept by falling score.
\<close>

section \<open>The library's sort\<close>

text \<open>
  \<open>qsort\<close> returns an ordered permutation; the C standard leaves open how it orders equal elements.
  The contract is the locale, in which any other sort with the same contract is shown to give the
  same keys; the model's sort is insertion sort.
\<close>

lemma sorted_perm_unique:
  assumes "sorted_wrt P xs" "sorted_wrt P ys" "mset xs = mset ys"
    and "\<And>a b. P a b \<Longrightarrow> P b a \<Longrightarrow> a = b"
  shows "xs = ys"
  using assms(1-3)
proof (induction xs arbitrary: ys)
  case Nil
  then show ?case by simp
next
  case (Cons x xs)
  then obtain y ys' where ys: "ys = y # ys'" by (cases ys) auto
  have "x \<in> set ys" "y \<in> set (x # xs)" using Cons.prems(3) ys by (metis list.set_intros(1) set_mset_mset)+
  then have "x = y" using Cons.prems(1,2) ys assms(4) by auto
  then show ?case using Cons ys by auto
qed

locale c_sort =
  fixes srt :: "'a list \<Rightarrow> 'a list"
    and cmp :: "'a \<Rightarrow> 'a \<Rightarrow> int"
    and key :: "'a \<Rightarrow> 'k"
    and kle :: "'k \<Rightarrow> 'k \<Rightarrow> bool"
  assumes srt_perm: "mset (srt xs) = mset xs"
    and srt_ordered: "sorted_wrt (\<lambda>a b. cmp a b \<le> 0) (srt xs)"
    and cmp_key: "cmp a b \<le> 0 \<longleftrightarrow> kle (key a) (key b)"
    and kle_antisym: "kle k l \<Longrightarrow> kle l k \<Longrightarrow> k = l"
begin

lemma srt_set: "set (srt xs) = set xs"
  using srt_perm by (metis set_mset_mset)

lemma srt_length: "length (srt xs) = length xs"
  using srt_perm by (metis size_mset)

lemma srt_keys: "sorted_wrt kle (map key (srt xs))"
  using srt_ordered by (simp add: sorted_wrt_map cmp_key)

lemma same_keys:
  assumes "mset ys = mset xs" "sorted_wrt (\<lambda>a b. cmp a b \<le> 0) ys"
  shows "map key ys = map key (srt xs)"
proof (rule sorted_perm_unique)
  show "sorted_wrt kle (map key ys)" using assms(2) by (simp add: sorted_wrt_map cmp_key)
  show "sorted_wrt kle (map key (srt xs))" by (rule srt_keys)
  show "mset (map key ys) = mset (map key (srt xs))" using assms(1) srt_perm by simp
qed (rule kle_antisym)

end

fun qsort_insert :: "('a \<Rightarrow> 'a \<Rightarrow> int) \<Rightarrow> 'a \<Rightarrow> 'a list \<Rightarrow> 'a list" where
  "qsort_insert cmp x [] = [x]"
| "qsort_insert cmp x (y # ys) = (if cmp x y \<le> 0 then x # y # ys else y # qsort_insert cmp x ys)"

fun qsort :: "('a \<Rightarrow> 'a \<Rightarrow> int) \<Rightarrow> 'a list \<Rightarrow> 'a list" where
  "qsort cmp [] = []"
| "qsort cmp (x # xs) = qsort_insert cmp x (qsort cmp xs)"

lemma mset_qsort_insert [simp]: "mset (qsort_insert cmp x xs) = add_mset x (mset xs)"
  by (induction xs) auto

lemma mset_qsort [simp]: "mset (qsort cmp xs) = mset xs"
  by (induction xs) auto

lemma set_qsort_insert [simp]: "set (qsort_insert cmp x xs) = insert x (set xs)"
  by (induction xs) auto

lemma qsort_ordered:
  assumes total: "\<And>a b. \<not> cmp a b \<le> 0 \<Longrightarrow> cmp b a \<le> 0"
    and trans: "\<And>a b c. cmp a b \<le> 0 \<Longrightarrow> cmp b c \<le> 0 \<Longrightarrow> cmp a c \<le> (0 :: int)"
  shows "sorted_wrt (\<lambda>a b. cmp a b \<le> 0) (qsort cmp xs)"
proof -
  have "sorted_wrt (\<lambda>a b. cmp a b \<le> 0) ys \<Longrightarrow> sorted_wrt (\<lambda>a b. cmp a b \<le> 0) (qsort_insert cmp x ys)" for x ys
    by (induction ys) (auto intro: total trans)
  then show ?thesis by (induction xs) auto
qed

section \<open>The comparison functions\<close>

definition compare_score_records_for_user_best :: "score_record \<Rightarrow> score_record \<Rightarrow> int" where
  "compare_score_records_for_user_best a b =
     (let user_cmp = strcmp (sr_username a) (sr_username b) in
      if user_cmp \<noteq> 0 then user_cmp
      else if sr_score a < sr_score b then 1
      else if sr_score b < sr_score a then -1
      else 0)"

definition compare_leaderboard_entries_final :: "entry \<Rightarrow> entry \<Rightarrow> int" where
  "compare_leaderboard_entries_final a b =
     (if snd a < snd b then 1 else if snd b < snd a then -1 else 0)"

definition before_for_best :: "score_record \<Rightarrow> score_record \<Rightarrow> bool" where
  "before_for_best a b \<longleftrightarrow> strcmp (sr_username a) (sr_username b) < 0
     \<or> sr_username a = sr_username b \<and> sr_score b \<le> sr_score a"

lemma compare_best_le: "compare_score_records_for_user_best a b \<le> 0 \<longleftrightarrow> before_for_best a b"
  using strcmp_le_iff [of "sr_username a" "sr_username b"]
  by (auto simp: compare_score_records_for_user_best_def before_for_best_def Let_def)

lemma before_for_best_total: "before_for_best a b \<or> before_for_best b a"
  using strcmp_linear [of "sr_username a" "sr_username b"] by (auto simp: before_for_best_def)

lemma before_for_best_trans: "before_for_best a b \<Longrightarrow> before_for_best b c \<Longrightarrow> before_for_best a c"
  unfolding before_for_best_def
  using strcmp_less_trans [of "sr_username a" "sr_username b" "sr_username c"] by fastforce

lemma before_for_best_antisym: "before_for_best a b \<Longrightarrow> before_for_best b a \<Longrightarrow> a = b"
proof -
  assume ab: "before_for_best a b" and ba: "before_for_best b a"
  have "sr_username a = sr_username b"
    using ab ba strcmp_asym [of "sr_username a" "sr_username b"] by (auto simp: before_for_best_def)
  moreover from this have "sr_score a = sr_score b" using ab ba by (simp add: before_for_best_def)
  ultimately show "a = b" by simp
qed

interpretation best_sort: c_sort
  "qsort compare_score_records_for_user_best" compare_score_records_for_user_best "\<lambda>r. r" before_for_best
proof
  show "sorted_wrt (\<lambda>a b. compare_score_records_for_user_best a b \<le> 0)
      (qsort compare_score_records_for_user_best xs)" for xs
  proof (rule qsort_ordered)
    show "\<not> compare_score_records_for_user_best a b \<le> 0 \<Longrightarrow> compare_score_records_for_user_best b a \<le> 0" for a b
      using before_for_best_total [of a b] by (simp add: compare_best_le)
    show "compare_score_records_for_user_best a c \<le> 0"
      if "compare_score_records_for_user_best a b \<le> 0" "compare_score_records_for_user_best b c \<le> 0" for a b c
      using that before_for_best_trans [of a b c] by (simp add: compare_best_le)
  qed
qed (auto simp: compare_best_le intro: before_for_best_antisym)

interpretation final_sort: c_sort
  "qsort compare_leaderboard_entries_final" compare_leaderboard_entries_final snd "\<lambda>k l. l \<le> k"
proof
  show "sorted_wrt (\<lambda>a b. compare_leaderboard_entries_final a b \<le> 0)
      (qsort compare_leaderboard_entries_final xs)" for xs
    by (rule qsort_ordered) (auto simp: compare_leaderboard_entries_final_def split: if_splits)
qed (auto simp: compare_leaderboard_entries_final_def)

section \<open>Submission and leaderboard\<close>

definition submit_score_impl :: "io \<Rightarrow> string \<Rightarrow> int \<Rightarrow> db \<Rightarrow> bool \<times> string \<times> db" where
  "submit_score_impl io username score d =
     (if username = []
      then (False, snprintf_str MAX_MSG_LEN ''Cannot submit score for an anonymous user.'', d)
      else (let (ok, d') = add_score_to_file io username score d in
        if ok
        then (True, snprintf_str MAX_MSG_LEN
               (''Score '' @ show_int score @ '' submitted successfully for '' @ quoted username @ ''.''), d')
        else (False, snprintf_str MAX_MSG_LEN (''Failed to save score for '' @ quoted username @ ''.''), d')))"

abbreviation MAX_TOTAL_SCORES :: nat where "MAX_TOTAL_SCORES \<equiv> 500"

text \<open>
  The selection loop: \<open>prev\<close> is \<open>last_processed_user\<close>, \<open>out\<close> the entries kept so far; a name of 32
  bytes or more would be cut to 31.
\<close>

fun best_loop :: "nat \<Rightarrow> string \<Rightarrow> entry list \<Rightarrow> score_record list \<Rightarrow> entry list" where
  "best_loop max_final prev out [] = out"
| "best_loop max_final prev out (r # rs) =
     (if strcmp (sr_username r) prev \<noteq> 0
      then if length out < max_final
           then best_loop max_final (strncpy_str MAX_ID_LEN (sr_username r))
                  (out @ [(strncpy_str MAX_ID_LEN (sr_username r), sr_score r)]) rs
           else best_loop max_final prev out rs
      else best_loop max_final prev out rs)"

text \<open>The count written to \<open>*final_count\<close> and the entries written to the array.\<close>

definition get_leaderboard_impl :: "io \<Rightarrow> nat \<Rightarrow> db \<Rightarrow> int \<times> entry list" where
  "get_leaderboard_impl io max_final d =
     (case load_all_scores_from_file io MAX_TOTAL_SCORES d of
        None \<Rightarrow> (-1, [])
      | Some all_scores \<Rightarrow>
          if all_scores = [] then (0, [])
          else (let es = best_loop max_final [] [] (qsort compare_score_records_for_user_best all_scores)
                in (int (length es),
                    if es \<noteq> [] then qsort compare_leaderboard_entries_final es else es)))"

section \<open>The leaderboard's meaning\<close>

text \<open>The selection without its bound: the first record of each name.\<close>

fun group_heads :: "string \<Rightarrow> score_record list \<Rightarrow> entry list" where
  "group_heads prev [] = []"
| "group_heads prev (r # rs) =
     (if sr_username r \<noteq> prev then (sr_username r, sr_score r) # group_heads (sr_username r) rs
      else group_heads prev rs)"

lemma best_loop_full: "max_final \<le> length out \<Longrightarrow> best_loop max_final prev out rs = out"
  by (induction rs) auto

lemma best_loop_heads:
  assumes "\<forall>r \<in> set rs. length (sr_username r) < MAX_ID_LEN"
  shows "best_loop max_final prev out rs = out @ take (max_final - length out) (group_heads prev rs)"
  using assms
proof (induction rs arbitrary: prev out)
  case Nil
  then show ?case by simp
next
  case (Cons r rs)
  show ?case
  proof (cases "length out < max_final")
    case True
    then have k: "max_final - length out = Suc (max_final - Suc (length out))" by simp
    then show ?thesis using Cons True by (subst k) auto
  next
    case False
    then show ?thesis by (simp add: best_loop_full)
  qed
qed

text \<open>The best score of a name among some records.\<close>

definition best_of :: "score_record list \<Rightarrow> entry \<Rightarrow> bool" where
  "best_of rs e \<longleftrightarrow> (\<exists>r \<in> set rs. sr_username r = fst e \<and> sr_score r = snd e)
     \<and> (\<forall>r \<in> set rs. sr_username r = fst e \<longrightarrow> sr_score r \<le> snd e)"

definition names :: "score_record list \<Rightarrow> string set" where
  "names rs = sr_username ` set rs - {[]}"

lemma group_heads_sorted:
  assumes "sorted_wrt before_for_best rs"
    and "\<forall>r \<in> set rs. strcmp prev (sr_username r) \<le> 0"
  shows "fst ` set (group_heads prev rs) = sr_username ` set rs - {prev}
    \<and> sorted_wrt (\<lambda>a b. strcmp (fst a) (fst b) < 0) (group_heads prev rs)
    \<and> (\<forall>e \<in> set (group_heads prev rs). best_of rs e)"
  using assms
proof (induction rs arbitrary: prev)
  case Nil
  then show ?case by simp
next
  case (Cons r rs)
  have le: "\<forall>q \<in> set rs. strcmp (sr_username r) (sr_username q) \<le> 0"
    using Cons.prems(1) by (auto simp: before_for_best_def strcmp_le_iff)
  show ?case
  proof (cases "sr_username r = prev")
    case True
    note IH = Cons.IH [of prev]
    have "best_of (r # rs) e" if "e \<in> set (group_heads prev rs)" for e
    proof -
      have "best_of rs e" "fst e \<noteq> prev" using IH Cons.prems that by (auto simp: image_iff)
      then show ?thesis using True by (auto simp: best_of_def)
    qed
    then show ?thesis using IH Cons.prems True by auto
  next
    case False
    note IH = Cons.IH [of "sr_username r"]
    have less: "strcmp prev (sr_username r) < 0"
      using Cons.prems(2) False by (auto simp: strcmp_le_iff)
    have gt: "strcmp prev (sr_username q) < 0" if "q \<in> set rs" for q
      using strcmp_less_trans [OF less] less le that by (auto simp: strcmp_le_iff)
    have names: "fst ` set (group_heads (sr_username r) rs) = sr_username ` set rs - {sr_username r}"
      using IH Cons.prems(1) le by simp
    have above: "strcmp (sr_username r) (fst e) < 0" if e: "e \<in> set (group_heads (sr_username r) rs)" for e
    proof -
      have "fst e \<in> sr_username ` set rs - {sr_username r}" using names e by blast
      then show ?thesis using le by (auto simp: strcmp_le_iff)
    qed
    have "best_of (r # rs) e" if e: "e \<in> set (group_heads (sr_username r) rs)" for e
    proof -
      have "best_of rs e" "fst e \<noteq> sr_username r"
        using IH Cons.prems(1) le e above [OF e] by auto
      then show ?thesis by (auto simp: best_of_def)
    qed
    moreover have "best_of (r # rs) (sr_username r, sr_score r)"
      using Cons.prems(1) by (auto simp: best_of_def before_for_best_def)
    moreover have "prev \<notin> sr_username ` set rs" using gt by fastforce
    ultimately show ?thesis using IH Cons.prems(1) le False above names by auto
  qed
qed

lemma set_take_strict:
  assumes "sorted_wrt (\<lambda>a b. strcmp (fst a) (fst b) < 0) (es :: entry list)"
  shows "e \<in> set (take m es) \<longleftrightarrow>
    e \<in> set es \<and> card {v \<in> fst ` set es. strcmp v (fst e) < 0} < m"
  using assms
proof (induction es arbitrary: m)
  case Nil
  then show ?case by simp
next
  case (Cons x es)
  have x: "{v \<in> fst ` set (x # es). strcmp v (fst x) < 0} = {}"
    using Cons.prems strcmp_asym by fastforce
  have rest: "card {v \<in> fst ` set (x # es). strcmp v (fst e) < 0} =
      Suc (card {v \<in> fst ` set es. strcmp v (fst e) < 0})" if "e \<in> set es"
  proof -
    have "{v \<in> fst ` set (x # es). strcmp v (fst e) < 0} = insert (fst x) {v \<in> fst ` set es. strcmp v (fst e) < 0}"
      using Cons.prems that by auto
    moreover have "fst x \<notin> {v \<in> fst ` set es. strcmp v (fst e) < 0}" using Cons.prems by fastforce
    ultimately show ?thesis by simp
  qed
  show ?case
  proof (cases m)
    case 0
    then show ?thesis by simp
  next
    case (Suc k)
    define A where "A = card {v \<in> fst ` set (x # es). strcmp v (fst e) < 0}"
    have "e = x \<Longrightarrow> A = 0" using x by (simp only: A_def card.empty)
    moreover have "e \<in> set es \<Longrightarrow> A = Suc (card {v \<in> fst ` set es. strcmp v (fst e) < 0})"
      using rest by (simp only: A_def)
    ultimately have "e = x \<or> e \<in> set (take k es) \<longleftrightarrow> e \<in> set (x # es) \<and> A < m"
      using Cons.IH [of k] Cons.prems Suc by auto
    then show ?thesis using Suc by (simp only: A_def) auto
  qed
qed

lemma strict_distinct:
  "sorted_wrt (\<lambda>a b. strcmp (fst a) (fst b) < 0) es \<Longrightarrow> distinct (map fst es)"
  by (induction es) auto

lemma best_of_unique: "best_of rs (u, s) \<Longrightarrow> best_of rs (u, t) \<Longrightarrow> s = t"
  unfolding best_of_def by (metis antisym fst_conv snd_conv)

text \<open>The entries kept by the selection loop over the sorted records.\<close>

lemma kept_entries:
  fixes m :: nat and rs :: "score_record list"
  assumes "\<forall>r \<in> set rs. length (sr_username r) < MAX_ID_LEN"
  defines "es \<equiv> best_loop m [] [] (qsort compare_score_records_for_user_best rs)"
  shows "distinct (map fst es)" "length es \<le> m"
    and "e \<in> set es \<longleftrightarrow> best_of rs e \<and> fst e \<noteq> [] \<and> card {v \<in> names rs. strcmp v (fst e) < 0} < m"
proof -
  let ?srt = "qsort compare_score_records_for_user_best rs"
  let ?hs = "group_heads [] ?srt"
  have set: "set ?srt = set rs" by (rule best_sort.srt_set)
  have heads: "fst ` set ?hs = names rs" "sorted_wrt (\<lambda>a b. strcmp (fst a) (fst b) < 0) ?hs"
      "\<forall>e \<in> set ?hs. best_of rs e"
  proof -
    have bot: "strcmp [] s \<le> 0" for s by (cases s) auto
    have "fst ` set ?hs = sr_username ` set ?srt - {[]}
        \<and> sorted_wrt (\<lambda>a b. strcmp (fst a) (fst b) < 0) ?hs \<and> (\<forall>e \<in> set ?hs. best_of ?srt e)"
      using best_sort.srt_keys [of rs] bot by (intro group_heads_sorted) auto
    then show "fst ` set ?hs = names rs" "sorted_wrt (\<lambda>a b. strcmp (fst a) (fst b) < 0) ?hs"
        "\<forall>e \<in> set ?hs. best_of rs e"
      by (simp_all add: set names_def best_of_def)
  qed
  have es: "es = take m ?hs"
    using best_loop_heads [of ?srt m "[]" "[]"] assms(1) set by (simp add: es_def)
  show "distinct (map fst es)" "length es \<le> m"
    using strict_distinct [OF heads(2)] by (auto simp: es take_map [symmetric])
  have "e \<in> set ?hs \<longleftrightarrow> best_of rs e \<and> fst e \<noteq> []"
  proof
    assume "e \<in> set ?hs"
    then show "best_of rs e \<and> fst e \<noteq> []" using heads by (auto simp: names_def image_iff)
  next
    assume e: "best_of rs e \<and> fst e \<noteq> []"
    then have "fst e \<in> fst ` set ?hs" by (force simp: heads(1) names_def best_of_def)
    then obtain e' where "e' \<in> set ?hs" "fst e' = fst e" by auto
    then show "e \<in> set ?hs" using heads(3) e best_of_unique by (metis prod.collapse)
  qed
  then show "e \<in> set es \<longleftrightarrow> best_of rs e \<and> fst e \<noteq> [] \<and> card {v \<in> names rs. strcmp v (fst e) < 0} < m"
    using set_take_strict [OF heads(2), of e m] heads(1) by (auto simp: es)
qed

lemma get_leaderboard_Some:
  assumes "load_all_scores_from_file io MAX_TOTAL_SCORES d = Some rs"
  shows "get_leaderboard_impl io m d =
    (int (length (best_loop m [] [] (qsort compare_score_records_for_user_best rs))),
     qsort compare_leaderboard_entries_final (best_loop m [] [] (qsort compare_score_records_for_user_best rs)))"
  using assms by (auto simp: get_leaderboard_impl_def Let_def)

section \<open>Properties\<close>

text \<open>
  Claim C9. What the leaderboard shows, for any scores file and any bound: the count is the number of
  entries, at most the bound; no name occurs twice; scores do not increase down the list; and a name with a
  score is shown exactly when it is one of the first \<open>max_final\<close> nonempty names among the records in
  \<open>strcmp\<close> order, with the best score that it has in the records that were loaded.
\<close>

theorem leaderboard_contents:
  assumes "load_all_scores_from_file io MAX_TOTAL_SCORES d = Some rs"
    and "get_leaderboard_impl io max_final d = (n, es)"
  shows "n = int (length es) \<and> length es \<le> max_final \<and> distinct (map fst es)
    \<and> sorted_wrt (\<ge>) (map snd es)
    \<and> (\<forall>e. e \<in> set es \<longleftrightarrow>
         best_of rs e \<and> fst e \<noteq> [] \<and> card {v \<in> names rs. strcmp v (fst e) < 0} < max_final)"
proof -
  define kept where "kept = best_loop max_final [] [] (qsort compare_score_records_for_user_best rs)"
  have fits: "\<forall>r \<in> set rs. length (sr_username r) < MAX_ID_LEN"
    using assms(1) load_scores_loop_fits
    by (auto simp: load_all_scores_from_file_def split: if_splits option.splits)
  have n: "n = int (length kept)" and es: "es = qsort compare_leaderboard_entries_final kept"
    using assms get_leaderboard_Some [of io d rs max_final] by (simp_all add: kept_def)
  note kept = kept_entries [OF fits, where m = max_final, folded kept_def]
  have "mset (map fst es) = mset (map fst kept)" by (simp add: es)
  then have "distinct (map fst es)" using kept(1) by (metis mset_eq_imp_distinct_iff)
  moreover have "sorted_wrt (\<lambda>k l. l \<le> k) (map snd es)" using final_sort.srt_keys by (simp add: es)
  ultimately show ?thesis using kept(2,3) n final_sort.srt_set [of kept] final_sort.srt_length [of kept]
    by (simp add: es)
qed

definition sample_db :: db where
  "sample_db = store_scores [(''bob'', 70), (''amy'', 5), (''bob'', 90)] empty_db"

lemma sample_load:
  "load_all_scores_from_file io_ok MAX_TOTAL_SCORES sample_db =
     Some [\<lparr>sr_username = ''bob'', sr_score = 70\<rparr>, \<lparr>sr_username = ''amy'', sr_score = 5\<rparr>,
           \<lparr>sr_username = ''bob'', sr_score = 90\<rparr>]"
proof -
  have "scores_content sample_db = scores_text [(''bob'', 70), (''amy'', 5), (''bob'', 90)]"
    by (simp add: sample_db_def store_scores_content del: scores_text_simps)
  then show ?thesis
    using load_scores_loop_text [of "[(''bob'', 70), (''amy'', 5), (''bob'', 90)]" MAX_TOTAL_SCORES False]
    by (simp add: load_all_scores_ok score_ok_def in_int32_def del: scores_text_simps)
qed

theorem leaderboard_contents_witness:
  "\<exists>n es. get_leaderboard_impl io_ok 10 sample_db = (n, es) \<and> sorted_wrt (\<ge>) (map snd es) \<and> (''bob'', 90) \<in> set es"
proof -
  obtain n es where g: "get_leaderboard_impl io_ok 10 sample_db = (n, es)" by fastforce
  let ?rs = "[\<lparr>sr_username = ''bob'', sr_score = 70\<rparr>, \<lparr>sr_username = ''amy'', sr_score = 5\<rparr>,
           \<lparr>sr_username = ''bob'', sr_score = 90\<rparr>] :: score_record list"
  have "card {v \<in> names ?rs. strcmp v ''bob'' < 0} \<le> card (names ?rs)"
    by (rule card_mono) (auto simp: names_def)
  also have "\<dots> \<le> 2" by (simp add: names_def card_insert_if)
  finally show ?thesis using leaderboard_contents [OF sample_load g] g by (auto simp: best_of_def)
qed

text \<open>
  While at most \<open>max_final\<close> players have a score, the leaderboard is what it is meant to be:
  exactly the best score of every player, highest first.
\<close>

theorem leaderboard_complete_when_few_players:
  assumes "load_all_scores_from_file io MAX_TOTAL_SCORES d = Some rs"
    and "get_leaderboard_impl io max_final d = (n, es)"
    and "card (names rs) \<le> max_final"
  shows "set es = {e. best_of rs e \<and> fst e \<noteq> []} \<and> fst ` set es = names rs \<and> sorted_wrt (\<ge>) (map snd es)"
proof -
  define kept where "kept = best_loop max_final [] [] (qsort compare_score_records_for_user_best rs)"
  have fits: "\<forall>r \<in> set rs. length (sr_username r) < MAX_ID_LEN"
    using assms(1) load_scores_loop_fits
    by (auto simp: load_all_scores_from_file_def split: if_splits option.splits)
  have es: "es = qsort compare_leaderboard_entries_final kept"
    using assms get_leaderboard_Some [of io d rs max_final] by (simp add: kept_def)
  have few: "card {v \<in> names rs. strcmp v u < 0} < max_final" if "u \<in> names rs" for u
  proof -
    have "u \<in> names rs - {v \<in> names rs. strcmp v u < 0}" using that by simp
    then have "{v \<in> names rs. strcmp v u < 0} \<subset> names rs" by blast
    then have "card {v \<in> names rs. strcmp v u < 0} < card (names rs)"
      by (intro psubset_card_mono) (simp_all add: names_def)
    then show ?thesis using assms(3) by simp
  qed
  have named: "best_of rs e \<and> fst e \<noteq> [] \<Longrightarrow> fst e \<in> names rs" for e
    by (force simp: best_of_def names_def)
  have set: "set es = {e. best_of rs e \<and> fst e \<noteq> []}"
    using kept_entries(3) [OF fits, where m = max_final, folded kept_def] few named final_sort.srt_set [of kept] es
    by blast
  moreover have "u \<in> fst ` {e. best_of rs e \<and> fst e \<noteq> []}" if u: "u \<in> names rs" for u
  proof -
    let ?S = "sr_score ` {r \<in> set rs. sr_username r = u}"
    have S: "finite ?S" "?S \<noteq> {}" using u by (auto simp: names_def)
    then obtain r where "r \<in> set rs" "sr_username r = u" "Max ?S = sr_score r"
      using Max_in [OF S] by (elim imageE) auto
    moreover have "sr_score q \<le> Max ?S" if "q \<in> set rs" "sr_username q = u" for q
      using that by (intro Max_ge [OF S(1)]) auto
    ultimately have "best_of rs (u, Max ?S)" by (auto simp: best_of_def)
    then show ?thesis using u by (force simp: names_def)
  qed
  moreover have "sorted_wrt (\<lambda>k l. l \<le> k) (map snd es)" using final_sort.srt_keys by (simp add: es)
  ultimately show ?thesis using named by auto
qed

theorem leaderboard_complete_when_few_players_witness:
  "\<exists>n es. get_leaderboard_impl io_ok 10 sample_db = (n, es) \<and> fst ` set es = {''amy'', ''bob''}"
proof -
  obtain n es where g: "get_leaderboard_impl io_ok 10 sample_db = (n, es)" by fastforce
  show ?thesis using leaderboard_complete_when_few_players [OF sample_load g] g
    by (auto simp: names_def card_insert_if)
qed

text \<open>
  With more players than the bound, the leaderboard goes by the alphabet instead of the
  scores: a player with at least \<open>max_final\<close> nonempty names before theirs in \<open>strcmp\<close> order is never
  shown, whatever their score.
\<close>

theorem leaderboard_drops_late_names:
  assumes "load_all_scores_from_file io MAX_TOTAL_SCORES d = Some rs"
    and "get_leaderboard_impl io max_final d = (n, es)"
    and "max_final \<le> card {v \<in> names rs. strcmp v u < 0}"
  shows "u \<notin> fst ` set es"
proof -
  have fits: "\<forall>r \<in> set rs. length (sr_username r) < MAX_ID_LEN"
    using assms(1) load_scores_loop_fits
    by (auto simp: load_all_scores_from_file_def split: if_splits option.splits)
  show ?thesis
    using kept_entries(3) [OF fits, where m = max_final] final_sort.srt_set
      get_leaderboard_Some [OF assms(1), of max_final] assms(2,3) by fastforce
qed

theorem leaderboard_drops_late_names_witness:
  "''bob'' \<notin> fst ` set (snd (get_leaderboard_impl io_ok 1 sample_db))"
proof -
  obtain n es where g: "get_leaderboard_impl io_ok 1 sample_db = (n, es)" by fastforce
  have "{v \<in> names [\<lparr>sr_username = ''bob'', sr_score = 70\<rparr>, \<lparr>sr_username = ''amy'', sr_score = 5\<rparr>,
           \<lparr>sr_username = ''bob'', sr_score = 90\<rparr>]. strcmp v ''bob'' < 0} = {''amy''}"
    by (auto simp: names_def)
  then show ?thesis using leaderboard_drops_late_names [OF sample_load g, of "''bob''"] g by simp
qed

text \<open>
  Once the scores file holds \<open>MAX_TOTAL_SCORES\<close> records the leaderboard is frozen: no
  score that is submitted afterwards, by any player and however high, changes it.
\<close>

theorem leaderboard_frozen_after_500:
  assumes "scores_content d = scores_text old" "\<forall>r \<in> set (old @ new). score_ok r"
    and "MAX_TOTAL_SCORES \<le> length old"
  shows "get_leaderboard_impl io_ok max_final (store_scores new d) = get_leaderboard_impl io_ok max_final d"
proof -
  have "load_all_scores_from_file io_ok MAX_TOTAL_SCORES (store_scores new d)
      = load_all_scores_from_file io_ok MAX_TOTAL_SCORES d"
    using assms load_scores_loop_text [of "old @ new" MAX_TOTAL_SCORES False]
      load_scores_loop_text [of old MAX_TOTAL_SCORES False]
    by (simp add: load_all_scores_ok store_scores_content)
  then show ?thesis by (simp add: get_leaderboard_impl_def)
qed

theorem leaderboard_frozen_after_500_witness:
  "get_leaderboard_impl io_ok 10 (store_scores [(''zed'', 1000)] (store_scores (replicate 500 (''bob'', 1)) empty_db))
     = get_leaderboard_impl io_ok 10 (store_scores (replicate 500 (''bob'', 1)) empty_db)"
  by (rule leaderboard_frozen_after_500 [of _ "replicate 500 (''bob'', 1)"])
    (simp_all add: store_scores_content score_ok_def in_int32_def)

end
