(* ===== verification/Word_Manager.thy ===== *)
theory Word_Manager
  imports Db_Handler
begin

text \<open>
  \<^verbatim>\<open>server/src/word_manager.c\<close>: loading \<^verbatim>\<open>data/words.txt\<close> into \<open>g_wordlist\<close>, with the default words
  written when the file is missing, empty or has no usable word. \<open>read_line_direct\<close> is the same
  function as \<open>read_line\<close> of the database handler. The words of \<open>g_wordlist\<close> are a list; its length
  is \<open>count\<close>.
\<close>

definition read_line_direct :: "nat \<Rightarrow> bool \<Rightarrow> string \<Rightarrow> string option \<times> string" where
  "read_line_direct buffer_size fails cs = read_line_from (buffer_size - 1) fails [] cs"

lemma read_line_direct_eq: "read_line_direct = read_line"
  by (simp add: fun_eq_iff read_line_direct_def read_line_def)

definition default_words :: "string list" where
  "default_words = [''hello'', ''world'', ''rain'', ''typing'', ''keyboard'', ''program'', ''linux'',
     ''thread'', ''mutex'', ''socket'', ''network'', ''coding'', ''algorithm'', ''pointer'', ''system'']"

definition words_text :: "string list \<Rightarrow> string" where
  "words_text ws = concat (map (\<lambda>w. w @ [NL]) ws)"

text \<open>True for the return value 0; the file is truncated by \<open>open\<close> before the first word is written.\<close>

definition write_default_words_to_file :: "io \<Rightarrow> string option \<Rightarrow> bool \<times> string option" where
  "write_default_words_to_file io file =
     (if io_open_fails io then (False, file)
      else case io_write_stop io of
        Some k \<Rightarrow> (False, Some (take k (words_text default_words)))
      | None \<Rightarrow> (\<not> io_close_fails io, Some (words_text default_words)))"

definition is_file_empty :: "bool \<Rightarrow> string option \<Rightarrow> int" where
  "is_file_empty stat_fails file =
     (case file of
        None \<Rightarrow> -1
      | Some content \<Rightarrow> if stat_fails then -1 else if content = [] then 1 else 0)"

abbreviation WORD_BUF :: nat where "WORD_BUF \<equiv> MAX_WORD_STR_LEN + 2"

definition strip_line_end :: "string \<Rightarrow> string" where
  "strip_line_end line = takeWhile (\<lambda>c. c \<noteq> CR \<and> c \<noteq> NL) (cstr line)"

text \<open>The read loop, with room for \<open>room\<close> more words.\<close>

function load_words_loop :: "nat \<Rightarrow> bool \<Rightarrow> string \<Rightarrow> string list" where
  "load_words_loop room fails cs =
     (if room = 0 then []
      else case read_line_direct WORD_BUF fails cs of
        (None, _) \<Rightarrow> []
      | (Some line, cs') \<Rightarrow>
          if line = [] then []
          else if strip_line_end line \<noteq> [] \<and> length (strip_line_end line) < MAX_WORD_STR_LEN
          then strncpy_str MAX_WORD_STR_LEN (strip_line_end line) # load_words_loop (room - 1) fails cs'
          else load_words_loop room fails cs')"
  by pat_completeness auto
termination
  by (relation "measure (\<lambda>(_, _, cs). length cs)")
    (auto intro: read_line_shrinks simp: read_line_direct_eq dest: sym)

declare load_words_loop.simps [simp del]

text \<open>
  One pass from the label \<open>reload\<close>: what the operating system answers to \<open>stat\<close>, to the three
  places that may write the default words, and to the two \<open>open\<close> calls for reading (reading happens
  through the descriptor that the last of them returned).
\<close>

record pass_io =
  p_stat_fails :: bool
  p_write_empty :: io
  p_read :: io
  p_write_missing :: io
  p_reopen :: io
  p_write_none :: io

definition pass_ok :: pass_io where
  "pass_ok = \<lparr>p_stat_fails = False, p_write_empty = io_ok, p_read = io_ok, p_write_missing = io_ok,
     p_reopen = io_ok, p_write_none = io_ok\<rparr>"

text \<open>The descriptor that \<open>load_wordlist_from_file\<close> reads from, or none when it returns -1.\<close>

definition open_words :: "pass_io \<Rightarrow> string option \<Rightarrow> (io \<times> string) option \<times> string option" where
  "open_words p file =
     (if io_open_fails (p_read p) then (None, file)
      else case file of
        Some content \<Rightarrow> (Some (p_read p, content), file)
      | None \<Rightarrow>
          (let (ok, file') = write_default_words_to_file (p_write_missing p) file in
           if \<not> ok \<or> io_open_fails (p_reopen p) then (None, file')
           else (map_option (\<lambda>c. (p_reopen p, c)) file', file')))"

text \<open>
  \<open>load_wordlist_from_file\<close>: the return value, \<open>g_wordlist\<close> and the file. The list gives one
  \<open>pass_io\<close> for each pass; \<open>None\<close> means that the call has not returned after that many passes.
\<close>

fun load_wordlist_from_file ::
    "pass_io list \<Rightarrow> string list \<Rightarrow> string option \<Rightarrow> (int \<times> string list \<times> string option) option" where
  "load_wordlist_from_file [] g_wordlist file = None"
| "load_wordlist_from_file (p # ps) g_wordlist file =
     (let (ok1, file1) = (if is_file_empty (p_stat_fails p) file = 1
                          then write_default_words_to_file (p_write_empty p) file else (True, file))
      in if \<not> ok1 then Some (-1, g_wordlist, file1)
         else (case open_words p file1 of
             (None, file2) \<Rightarrow> Some (-1, g_wordlist, file2)
           | (Some (io, content), file2) \<Rightarrow>
               (let ws = load_words_loop MAX_WORDLIST_WORDS (io_read_stop io \<noteq> None) (readable io content) in
                if ws = []
                then (let (ok3, file3) = write_default_words_to_file (p_write_none p) file2 in
                      if \<not> ok3 then Some (-1, [], file3)
                      else load_wordlist_from_file ps [] file3)
                else Some (int (length ws), ws, file2))))"

declare load_wordlist_from_file.simps [simp del]

section \<open>Lemmas\<close>

lemma words_text_simps [simp]:
  "words_text [] = []"
  "words_text (w # ws) = w @ NL # words_text ws"
  "words_text (ws @ vs) = words_text ws @ words_text vs"
  by (simp_all add: words_text_def)

definition word_ok :: "string \<Rightarrow> bool" where
  "word_ok w \<longleftrightarrow> w \<noteq> [] \<and> nul_free w \<and> NL \<notin> set w \<and> CR \<notin> set w \<and> length w < MAX_WORD_STR_LEN"

lemma strip_line_end_id [simp]: "nul_free w \<Longrightarrow> NL \<notin> set w \<Longrightarrow> CR \<notin> set w \<Longrightarrow> strip_line_end w = w"
  by (auto simp: strip_line_end_def)

lemma default_words_ok: "\<forall>w \<in> set default_words. word_ok w"
  by (simp add: default_words_def word_ok_def)

lemma load_words_loop_0 [simp]: "load_words_loop 0 f cs = []"
  by (subst load_words_loop.simps) simp

lemma load_words_loop_Nil [simp]: "load_words_loop m f [] = []"
  by (subst load_words_loop.simps) (simp add: read_line_direct_eq)

lemma load_words_loop_blank [simp]: "load_words_loop m f (NL # cs) = []"
  using read_line_line [of "[]" WORD_BUF f cs]
  by (subst load_words_loop.simps) (simp add: read_line_direct_eq)

lemma load_words_loop_word:
  "word_ok w \<Longrightarrow> load_words_loop (Suc m) f (w @ NL # cs) = w # load_words_loop m f cs"
  using read_line_line [of w WORD_BUF f cs]
  by (subst load_words_loop.simps) (simp add: read_line_direct_eq word_ok_def)

lemma load_words_loop_text:
  "\<forall>w \<in> set ws. word_ok w \<Longrightarrow>
   load_words_loop m f (words_text ws @ cs) = take m ws @ load_words_loop (m - length ws) f cs"
proof (induction ws arbitrary: m)
  case Nil
  then show ?case by simp
next
  case (Cons w ws)
  then show ?case by (cases m) (auto simp: load_words_loop_word)
qed

lemma load_words_loop_length: "length (load_words_loop m f cs) < Suc m"
proof (induction m f cs rule: load_words_loop.induct)
  case (1 m f cs)
  then show ?case by (subst load_words_loop.simps) (auto split: prod.splits option.splits)
qed

lemma strip_line_end_clean:
  "nul_free (strip_line_end l)" "NL \<notin> set (strip_line_end l)" "CR \<notin> set (strip_line_end l)"
  using cstr_nul_free [of l] unfolding strip_line_end_def nul_free_def
  by (auto dest: set_takeWhileD)

lemma load_words_loop_words: "w \<in> set (load_words_loop m f cs) \<Longrightarrow> word_ok w"
proof (induction m f cs rule: load_words_loop.induct)
  case (1 m f cs)
  show ?case using "1.prems" "1.IH" unfolding load_words_loop.simps [of m f cs]
    by (auto split: prod.splits option.splits if_splits simp: word_ok_def strip_line_end_clean)
qed

lemma write_default_ok [simp]:
  "write_default_words_to_file io_ok file = (True, Some (words_text default_words))"
  by (simp add: write_default_words_to_file_def)

lemma pass_ok_simps [simp]:
  "\<not> p_stat_fails pass_ok" "p_write_empty pass_ok = io_ok" "p_read pass_ok = io_ok"
  "p_write_missing pass_ok = io_ok" "p_reopen pass_ok = io_ok" "p_write_none pass_ok = io_ok"
  by (simp_all add: pass_ok_def)

lemma load_default_text:
  "load_words_loop MAX_WORDLIST_WORDS f (words_text default_words) = default_words"
  using load_words_loop_text [OF default_words_ok, of MAX_WORDLIST_WORDS f "[]"]
  by (simp add: default_words_def)

lemma words_text_default_nonempty [simp]: "words_text default_words \<noteq> []" "default_words \<noteq> []"
  by (simp_all add: default_words_def)

text \<open>One pass over a working disk, by what the file holds.\<close>

lemma load_pass_ok:
  "load_wordlist_from_file (pass_ok # ps) g file =
    (case file of
       None \<Rightarrow> Some (int (length default_words), default_words, Some (words_text default_words))
     | Some content \<Rightarrow>
         if content = [] then Some (int (length default_words), default_words, Some (words_text default_words))
         else (let ws = load_words_loop MAX_WORDLIST_WORDS False content in
           if ws = [] then load_wordlist_from_file ps [] (Some (words_text default_words))
           else Some (int (length ws), ws, file)))"
  by (subst load_wordlist_from_file.simps)
    (auto simp: is_file_empty_def open_words_def load_default_text Let_def split: option.split)

lemma length_default_words [simp]: "length default_words = 15"
  by (simp add: default_words_def)

section \<open>Properties\<close>

text \<open>
  Claim C28. Whatever \<^verbatim>\<open>words.txt\<close> holds, or if it is missing, loading it from a working disk
  returns after at most two passes, with between 1 and 256 words, each nonempty, shorter than 32
  bytes and without line ends, and the return value is their number.
\<close>

theorem load_wordlist_returns:
  "\<exists>n ws file'. load_wordlist_from_file [pass_ok, pass_ok] g file = Some (n, ws, file')
     \<and> 1 \<le> n \<and> n \<le> int MAX_WORDLIST_WORDS \<and> n = int (length ws) \<and> list_all word_ok ws"
proof -
  have def: "list_all word_ok default_words" using default_words_ok by (simp add: list_all_iff)
  show ?thesis
  proof (cases "file = None \<or> file = Some []")
    case True
    then show ?thesis using def by (auto simp: load_pass_ok)
  next
    case False
    then obtain c where c: "file = Some c" "c \<noteq> []" by auto
    let ?ws = "load_words_loop MAX_WORDLIST_WORDS False c"
    have "length ?ws \<le> MAX_WORDLIST_WORDS" "list_all word_ok ?ws"
      using load_words_loop_length [of MAX_WORDLIST_WORDS False c] load_words_loop_words
      by (auto simp: list_all_iff less_Suc_eq_le)
    then show ?thesis using c def
      by (cases "?ws = []") (auto simp: load_pass_ok load_default_text Suc_le_eq Let_def)
  qed
qed

text \<open>
  Claim C26. On a working disk a missing or empty file is created with the fifteen default words, which
  are the words loaded; a file of well-formed lines gives its first 256 words and is left as it is.
\<close>

theorem load_wordlist_functional:
  assumes "ws \<noteq> []" "list_all word_ok ws"
  shows "load_wordlist_from_file (pass_ok # ps) g None = Some (15, default_words, Some (words_text default_words))
    \<and> load_wordlist_from_file (pass_ok # ps) g (Some []) = Some (15, default_words, Some (words_text default_words))
    \<and> load_wordlist_from_file (pass_ok # ps) g (Some (words_text ws))
        = Some (int (min (length ws) MAX_WORDLIST_WORDS), take MAX_WORDLIST_WORDS ws, Some (words_text ws))"
proof -
  have "load_words_loop MAX_WORDLIST_WORDS False (words_text ws) = take MAX_WORDLIST_WORDS ws"
    using load_words_loop_text [of ws MAX_WORDLIST_WORDS False "[]"] assms(2) by (simp add: list_all_iff)
  moreover have "words_text ws \<noteq> []" using assms(1) by (cases ws) auto
  ultimately show ?thesis using assms(1) by (auto simp: load_pass_ok min_def)
qed

theorem load_wordlist_functional_witness:
  "load_wordlist_from_file [pass_ok] [] (Some (words_text [''cat'', ''dog'']))
     = Some (2, [''cat'', ''dog''], Some (words_text [''cat'', ''dog'']))"
  using load_wordlist_functional [of "[''cat'', ''dog'']" "[]" "[]"] by (simp add: word_ok_def)

text \<open>
  An empty line ends the list: the words after it are not loaded; and when the file starts
  with an empty line, the whole file is overwritten with the default words.
\<close>

theorem blank_line_ends_wordlist:
  assumes "list_all word_ok ws" "length ws < MAX_WORDLIST_WORDS"
  shows "load_wordlist_from_file [pass_ok, pass_ok] g (Some (words_text ws @ NL # others)) =
    (if ws = [] then Some (15, default_words, Some (words_text default_words))
     else Some (int (length ws), ws, Some (words_text ws @ NL # others)))"
proof -
  have "load_words_loop MAX_WORDLIST_WORDS False (words_text ws @ NL # others) = ws"
    using load_words_loop_text [of ws MAX_WORDLIST_WORDS False "NL # others"] assms by (simp add: list_all_iff)
  then show ?thesis by (auto simp: load_pass_ok load_default_text)
qed

theorem blank_line_ends_wordlist_witness:
  "load_wordlist_from_file [pass_ok, pass_ok] [] (Some (NL # words_text [''cat'', ''dog'']))
     = Some (15, default_words, Some (words_text default_words))"
  using blank_line_ends_wordlist [of "[]" "[]" "words_text [''cat'', ''dog'']"] by simp

text \<open>
  When every read fails at once, although the file can be written, the call never returns:
  it writes the default words and jumps back for ever.
\<close>

theorem load_wordlist_may_not_return:
  assumes "list_all (\<lambda>p. io_read_stop (p_read p) = Some 0 \<and> \<not> io_open_fails (p_read p)
      \<and> p_write_empty p = io_ok \<and> p_write_none p = io_ok) ps"
  shows "load_wordlist_from_file ps g (Some content) = None"
  using assms
proof (induction ps arbitrary: g content)
  case Nil
  then show ?case by (simp add: load_wordlist_from_file.simps)
next
  case (Cons p ps)
  have none: "load_words_loop MAX_WORDLIST_WORDS True (readable (p_read p) c) = []" for c
    using Cons.prems by (simp add: readable_def)
  show ?case using Cons none
    by (subst load_wordlist_from_file.simps) (auto simp: is_file_empty_def open_words_def Let_def)
qed

theorem load_wordlist_may_not_return_witness:
  "load_wordlist_from_file (replicate 1000 (pass_ok\<lparr>p_read := io_ok\<lparr>io_read_stop := Some 0\<rparr>\<rparr>)) [] (Some ''rain'') = None"
  by (rule load_wordlist_may_not_return) (simp add: list_all_iff)

end
