(* ===== verification/Net_IO.thy ===== *)
theory Net_IO
  imports Protocol
begin

text \<open>
  The byte transport of \<^verbatim>\<open>server/src/server_network.c\<close>: \<open>send_all\<close>, \<open>recv_all\<close> and
  \<open>send_response\<close>. What the calls of \<open>recv\<close> and \<open>send\<close> on a socket answer is a list of events. A
  chunk that is longer than the request is delivered in parts; an empty chunk is the return value
  0 (the peer closed); a list that is used up means that the call is still blocked.
\<close>

section \<open>Receiving\<close>

datatype recv_event = Chunk bytes | Recv_intr | Recv_err

datatype recv_result = Received bytes | Recv_failed | Recv_blocked

fun recv_all :: "nat \<Rightarrow> bytes \<Rightarrow> recv_event list \<Rightarrow> recv_result \<times> recv_event list" where
  "recv_all len got evs =
     (if len \<le> length got then (Received got, evs)
      else case evs of
        [] \<Rightarrow> (Recv_blocked, [])
      | Recv_intr # evs' \<Rightarrow> recv_all len got evs'
      | Recv_err # evs' \<Rightarrow> (Recv_failed, evs')
      | Chunk c # evs' \<Rightarrow>
          if c = [] then (Recv_failed, evs')
          else if length c \<le> len - length got then recv_all len (got @ c) evs'
          else (Received (got @ take (len - length got) c), Chunk (drop (len - length got) c) # evs'))"

declare recv_all.simps [simp del]

lemma recv_all_done [simp]: "len \<le> length got \<Longrightarrow> recv_all len got evs = (Received got, evs)"
  by (simp add: recv_all.simps)

lemma recv_all_step [simp]:
  assumes "length got < len"
  shows "recv_all len got [] = (Recv_blocked, [])"
    and "recv_all len got (Recv_intr # evs) = recv_all len got evs"
    and "recv_all len got (Recv_err # evs) = (Recv_failed, evs)"
    and "recv_all len got (Chunk c # evs) =
      (if c = [] then (Recv_failed, evs)
       else if length c \<le> len - length got then recv_all len (got @ c) evs
       else (Received (got @ take (len - length got) c), Chunk (drop (len - length got) c) # evs))"
  using assms by (simp_all add: recv_all.simps [of len got])

text \<open>
  The byte stream behind a list of events: what can be read before the first failure, and whether
  the stream then fails (otherwise the reader waits).
\<close>

fun stream :: "recv_event list \<Rightarrow> bytes" where
  "stream [] = []"
| "stream (Recv_intr # evs) = stream evs"
| "stream (Recv_err # evs) = []"
| "stream (Chunk c # evs) = (if c = [] then [] else c @ stream evs)"

fun stream_fails :: "recv_event list \<Rightarrow> bool" where
  "stream_fails [] = False"
| "stream_fails (Recv_intr # evs) = stream_fails evs"
| "stream_fails (Recv_err # evs) = True"
| "stream_fails (Chunk c # evs) = (c = [] \<or> stream_fails evs)"

lemma recv_all_stream:
  assumes "length got \<le> len"
  shows "(len - length got \<le> length (stream evs) \<longrightarrow>
      (\<exists>evs'. recv_all len got evs = (Received (got @ take (len - length got) (stream evs)), evs')
         \<and> stream evs' = drop (len - length got) (stream evs) \<and> stream_fails evs' = stream_fails evs))
    \<and> (length (stream evs) < len - length got \<longrightarrow>
      fst (recv_all len got evs) = (if stream_fails evs then Recv_failed else Recv_blocked))"
  using assms
proof (induction evs arbitrary: got)
  case Nil
  then show ?case by auto
next
  case (Cons e evs)
  show ?case
  proof (cases "length got = len")
    case True
    then show ?thesis by simp
  next
    case False
    then have lt: "length got < len" using Cons.prems by simp
    show ?thesis
    proof (cases e)
      case (Chunk c)
      then show ?thesis
        using Cons.IH [of "got @ c"] lt by (cases "c \<noteq> [] \<and> length c \<le> len - length got") auto
    qed (use Cons.IH [of got] lt in auto)
  qed
qed

text \<open>
  \<open>recv_all\<close> against a byte stream: however the bytes are cut into chunks and
  however often the call is interrupted, it delivers exactly the next \<open>len\<close> bytes and leaves the
  rest of the stream for the next call; when fewer remain, it fails if the stream ended and waits
  otherwise.
\<close>

theorem recv_all_delivers:
  "(if len \<le> length (stream evs)
    then \<exists>evs'. recv_all len [] evs = (Received (take len (stream evs)), evs')
       \<and> stream evs' = drop len (stream evs) \<and> stream_fails evs' = stream_fails evs
    else fst (recv_all len [] evs) = (if stream_fails evs then Recv_failed else Recv_blocked))"
  using recv_all_stream [of "[]" len evs] by simp

lemma recv_all_ok:
  assumes "stream evs = b @ rest"
  obtains evs' where "recv_all (length b) [] evs = (Received b, evs')" "stream evs' = rest"
    "stream_fails evs' = stream_fails evs"
  using recv_all_stream [of "[]" "length b" evs] assms by auto

lemma recv_all_length: "recv_all len got evs = (Received b, evs') \<Longrightarrow> length got \<le> len \<Longrightarrow> length b = len"
proof (induction evs arbitrary: got)
  case Nil
  then show ?case by (cases "length got = len") auto
next
  case (Cons e evs)
  then show ?case
    by (cases "length got = len"; cases e) (auto split: if_splits)
qed

text \<open>The number of events and bytes still to come: what a loop over \<open>recv_all\<close> consumes.\<close>

fun pending :: "recv_event list \<Rightarrow> nat" where
  "pending [] = 0"
| "pending (Chunk c # evs) = Suc (length c + pending evs)"
| "pending (Recv_intr # evs) = Suc (pending evs)"
| "pending (Recv_err # evs) = Suc (pending evs)"

lemma recv_all_pending:
  "recv_all len got evs = (Received b, evs') \<Longrightarrow> pending evs' \<le> pending evs \<and> (length got < len \<longrightarrow> pending evs' < pending evs)"
proof (induction evs arbitrary: got)
  case Nil
  then show ?case by (cases "length got < len") auto
next
  case (Cons e evs)
  show ?case
  proof (cases "length got < len")
    case True
    then show ?thesis using Cons.prems Cons.IH
      by (cases e) (auto split: if_splits, fastforce+)
  next
    case False
    then show ?thesis using Cons.prems by simp
  qed
qed

section \<open>Sending\<close>

text \<open>
  \<open>send\<close> is called with flags 0 and neither program changes the disposition of \<open>SIGPIPE\<close>, so a
  \<open>send\<close> on a connection that the peer has reset (\<open>Send_pipe\<close>) ends the whole process.
\<close>

datatype send_event = Sent nat | Send_intr | Send_err | Send_pipe

datatype send_result = Send_ok | Send_failed | Send_blocked | Send_killed

text \<open>The result, the bytes that went out, and the events that are left.\<close>

fun send_all :: "bytes \<Rightarrow> send_event list \<Rightarrow> send_result \<times> bytes \<times> send_event list" where
  "send_all buf evs =
     (if buf = [] then (Send_ok, [], evs)
      else case evs of
        [] \<Rightarrow> (Send_blocked, [], [])
      | Send_intr # evs' \<Rightarrow> send_all buf evs'
      | Send_err # evs' \<Rightarrow> (Send_failed, [], evs')
      | Send_pipe # evs' \<Rightarrow> (Send_killed, [], evs')
      | Sent n # evs' \<Rightarrow>
          if n = 0 then (Send_failed, [], evs')
          else (case send_all (drop n buf) evs' of (r, out, evs'') \<Rightarrow> (r, take n buf @ out, evs'')))"

declare send_all.simps [simp del]

lemma send_all_Nil [simp]: "send_all [] evs = (Send_ok, [], evs)"
  by (simp add: send_all.simps)

lemma send_all_step [simp]:
  assumes "buf \<noteq> []"
  shows "send_all buf [] = (Send_blocked, [], [])"
    and "send_all buf (Send_intr # evs) = send_all buf evs"
    and "send_all buf (Send_err # evs) = (Send_failed, [], evs)"
    and "send_all buf (Send_pipe # evs) = (Send_killed, [], evs)"
    and "send_all buf (Sent n # evs) =
      (if n = 0 then (Send_failed, [], evs)
       else (case send_all (drop n buf) evs of (r, out, evs') \<Rightarrow> (r, take n buf @ out, evs')))"
  using assms by (simp_all add: send_all.simps [of buf])

definition send_response :: "message_type \<Rightarrow> bytes \<Rightarrow> send_event list \<Rightarrow> send_result \<times> bytes \<times> send_event list" where
  "send_response msg_type response_data evs =
     (let header = enc_header \<lparr>hdr_type = msg_code msg_type, hdr_length = length response_data\<rparr> in
      case send_all header evs of
        (Send_ok, out, evs') \<Rightarrow>
          if response_data \<noteq> []
          then (case send_all response_data evs' of (r, out', evs'') \<Rightarrow> (r, out @ out', evs''))
          else (Send_ok, out, evs')
      | (r, out, evs') \<Rightarrow> (r, out, evs'))"

lemma send_all_out:
  "send_all buf evs = (r, out, evs') \<Longrightarrow>
     (\<exists>t. buf = out @ t) \<and> (r = Send_ok \<longrightarrow> out = buf)"
proof (induction evs arbitrary: buf out)
  case Nil
  then show ?case by (cases "buf = []") auto
next
  case (Cons e evs)
  show ?case
  proof (cases "buf = []")
    case True
    then show ?thesis using Cons.prems by simp
  next
    case buf: False
    show ?thesis
    proof (cases e)
      case (Sent n)
      obtain r1 o1 e1 where s: "send_all (drop n buf) evs = (r1, o1, e1)" by (cases "send_all (drop n buf) evs")
      show ?thesis
      proof (cases "n = 0")
        case True
        then show ?thesis using Cons.prems Sent buf by auto
      next
        case False
        then have eqs: "r = r1" "out = take n buf @ o1" "evs' = e1"
          using Cons.prems Sent buf s by auto
        obtain t where t: "drop n buf = o1 @ t" "r1 = Send_ok \<longrightarrow> o1 = drop n buf"
          using Cons.IH s eqs by blast
        have "buf = take n buf @ o1 @ t" using t(1) by (metis append_take_drop_id)
        then show ?thesis using t eqs by auto
      qed
    qed (use Cons buf in auto)
  qed
qed

text \<open>
  A response goes out as one frame: the bytes sent are always a prefix of the packed
  header followed by the body, and all of it when the return value is 0.
\<close>

theorem send_response_frame:
  assumes "send_response m body evs = (r, out, evs')"
  shows "(\<exists>t. enc_header \<lparr>hdr_type = msg_code m, hdr_length = length body\<rparr> @ body = out @ t)
    \<and> (r = Send_ok \<longrightarrow> out = enc_header \<lparr>hdr_type = msg_code m, hdr_length = length body\<rparr> @ body)"
proof -
  let ?h = "enc_header \<lparr>hdr_type = msg_code m, hdr_length = length body\<rparr>"
  obtain r1 o1 e1 where h: "send_all ?h evs = (r1, o1, e1)" by (cases "send_all ?h evs")
  note hd = send_all_out [OF h]
  show ?thesis
  proof (cases "r1 = Send_ok \<and> body \<noteq> []")
    case True
    obtain r2 o2 e2 where b: "send_all body e1 = (r2, o2, e2)" by (cases "send_all body e1")
    then show ?thesis using send_all_out [OF b] True hd h assms
      by (auto simp: send_response_def)
  next
    case False
    then show ?thesis using hd h assms
      by (cases r1) (auto simp: send_response_def split: if_splits)
  qed
qed

theorem send_response_frame_witness:
  "\<exists>evs'. send_response MSG_TYPE_ERROR ''no'' [Sent 4, Send_intr, Sent 9, Sent 1, Sent 7] =
     (Send_ok, enc_header \<lparr>hdr_type = 0, hdr_length = length ''no''\<rparr> @ ''no'', evs')"
proof -
  obtain r out evs' where s:
      "send_response MSG_TYPE_ERROR ''no'' [Sent 4, Send_intr, Sent 9, Sent 1, Sent 7] = (r, out, evs')"
    by (cases "send_response MSG_TYPE_ERROR ''no'' [Sent 4, Send_intr, Sent 9, Sent 1, Sent 7]")
  moreover have "r = Send_ok"
    using s by (simp add: send_response_def)
  ultimately show ?thesis using send_response_frame [OF s] by simp
qed

end
