(* ===== verification/Login_Table.thy ===== *)
theory Login_Table
  imports Protocol "HOL-Library.Multiset"
begin

text \<open>
  The table of logged-in users of \<^verbatim>\<open>server/src/server_network.c\<close>: 100 slots, each operation one
  critical section of \<open>logged_in_users_mutex\<close>. The contract that the connection handler relies on is
  that of a set of names with limited room (the locale \<open>name_set\<close>, which the client's table of
  active words satisfies too).
\<close>

section \<open>A set of names with limited room\<close>

locale name_set =
  fixes member :: "'s \<Rightarrow> string \<Rightarrow> bool"
    and put :: "string \<Rightarrow> 's \<Rightarrow> 's"
    and del :: "string \<Rightarrow> 's \<Rightarrow> 's"
    and room :: "'s \<Rightarrow> bool"
    and ok :: "string \<Rightarrow> bool"
    and inv :: "'s \<Rightarrow> bool"
  assumes inv_put: "inv s \<Longrightarrow> ok k \<Longrightarrow> \<not> member s k \<Longrightarrow> room s \<Longrightarrow> inv (put k s)"
    and inv_del: "inv s \<Longrightarrow> inv (del k s)"
    and member_put: "inv s \<Longrightarrow> ok k \<Longrightarrow> \<not> member s k \<Longrightarrow> room s \<Longrightarrow>
      member (put k s) l \<longleftrightarrow> l = k \<or> member s l"
    and member_del: "inv s \<Longrightarrow> member (del k s) l \<longleftrightarrow> member s l \<and> l \<noteq> k"
begin

definition claim_name :: "string \<Rightarrow> 's \<Rightarrow> 's" where
  "claim_name k s = (if ok k \<and> \<not> member s k \<and> room s then put k s else s)"

lemma inv_claim: "inv s \<Longrightarrow> inv (claim_name k s)"
  by (simp add: claim_name_def inv_put)

lemma member_claim:
  "inv s \<Longrightarrow> member (claim_name k s) l \<longleftrightarrow> member s l \<or> (l = k \<and> ok k \<and> room s)"
  by (auto simp: claim_name_def member_put)

lemma put_del_same:
  "inv s \<Longrightarrow> ok k \<Longrightarrow> \<not> member s k \<Longrightarrow> room s \<Longrightarrow> member (del k (put k s)) l \<longleftrightarrow> member s l"
  by (auto simp: member_del inv_put member_put)

lemma del_all: "inv s \<Longrightarrow> member (fold del ks s) l \<longleftrightarrow> member s l \<and> l \<notin> set ks"
  by (induction ks arbitrary: s) (auto simp: inv_del member_del)

end

section \<open>The table\<close>

record logged_in_user =
  lu_username :: string
  lu_client_sock :: int
  lu_is_active :: bool

abbreviation MAX_LOGGED_IN_USERS :: nat where "MAX_LOGGED_IN_USERS \<equiv> 100"

text \<open>
  \<open>is_user_already_logged_in\<close> from slot \<open>i\<close> on: the index of the slot or -1; \<open>None\<close> when an
  active slot is compared with a name that cannot be read.
\<close>

fun logged_in_from :: "int \<Rightarrow> logged_in_user list \<Rightarrow> cptr \<Rightarrow> int option" where
  "logged_in_from i [] username = Some (-1)"
| "logged_in_from i (x # xs) username =
     (if lu_is_active x
      then (case deref username of
          None \<Rightarrow> None
        | Some u \<Rightarrow> if strcmp (lu_username x) u = 0 then Some i else logged_in_from (i + 1) xs username)
      else logged_in_from (i + 1) xs username)"

definition is_user_already_logged_in :: "logged_in_user list \<Rightarrow> cptr \<Rightarrow> int option" where
  "is_user_already_logged_in tbl username = logged_in_from 0 tbl username"

text \<open>The first free slot takes the name; the result says whether there was one.\<close>

fun add_logged_in_user :: "string \<Rightarrow> int \<Rightarrow> logged_in_user list \<Rightarrow> bool \<times> logged_in_user list" where
  "add_logged_in_user username client_sock [] = (False, [])"
| "add_logged_in_user username client_sock (x # xs) =
     (if \<not> lu_is_active x
      then (True, \<lparr>lu_username = snprintf_str MAX_ID_LEN username, lu_client_sock = client_sock,
                   lu_is_active = True\<rparr> # xs)
      else (let (r, xs') = add_logged_in_user username client_sock xs in (r, x # xs')))"

fun remove_logged_in_user :: "string \<Rightarrow> logged_in_user list \<Rightarrow> logged_in_user list" where
  "remove_logged_in_user username [] = []"
| "remove_logged_in_user username (x # xs) =
     (if lu_is_active x \<and> strcmp (lu_username x) username = 0
      then x\<lparr>lu_is_active := False, lu_username := []\<rparr> # xs
      else x # remove_logged_in_user username xs)"

definition init_logged_in_users :: "logged_in_user list \<Rightarrow> logged_in_user list" where
  "init_logged_in_users tbl = map (\<lambda>x. x\<lparr>lu_is_active := False, lu_username := []\<rparr>) tbl"

definition empty_login_table :: "logged_in_user list" where
  "empty_login_table = replicate MAX_LOGGED_IN_USERS \<lparr>lu_username = [], lu_client_sock = 0, lu_is_active = False\<rparr>"

section \<open>The names in the table\<close>

definition active_names :: "logged_in_user list \<Rightarrow> string list" where
  "active_names tbl = map lu_username (filter lu_is_active tbl)"

definition table_inv :: "logged_in_user list \<Rightarrow> bool" where
  "table_inv tbl \<longleftrightarrow> length tbl = MAX_LOGGED_IN_USERS \<and> distinct (active_names tbl)"

lemma active_names_simps [simp]:
  "active_names [] = []"
  "active_names (x # xs) = (if lu_is_active x then lu_username x # active_names xs else active_names xs)"
  by (simp_all add: active_names_def)

lemma logged_in_from_Str:
  "\<exists>r. logged_in_from i tbl (Str u) = Some r \<and> (0 \<le> i \<longrightarrow> (r = -1 \<longleftrightarrow> u \<notin> set (active_names tbl)))"
proof (induction tbl arbitrary: i)
  case Nil
  then show ?case by simp
next
  case (Cons x xs)
  from Cons [of "i + 1"] show ?case by auto
qed

lemma is_user_already_logged_in_Str:
  "is_user_already_logged_in tbl (Str u) = Some r \<Longrightarrow> r = -1 \<longleftrightarrow> u \<notin> set (active_names tbl)"
  using logged_in_from_Str [of 0 tbl u] by (auto simp: is_user_already_logged_in_def)

lemma is_user_already_logged_in_defined: "\<exists>r. is_user_already_logged_in tbl (Str u) = Some r"
  using logged_in_from_Str [of 0 tbl u] by (auto simp: is_user_already_logged_in_def)

lemma not_logged_in_iff: "is_user_already_logged_in tbl (Str u) = Some (-1) \<longleftrightarrow> u \<notin> set (active_names tbl)"
  using is_user_already_logged_in_defined [of tbl u] is_user_already_logged_in_Str [of tbl u] by auto

lemma is_user_already_logged_in_unreadable:
  "deref p = None \<Longrightarrow> is_user_already_logged_in tbl p = (if active_names tbl = [] then Some (-1) else None)"
proof -
  assume "deref p = None"
  then have "logged_in_from i tbl p = (if active_names tbl = [] then Some (-1) else None)" for i
    by (induction tbl arbitrary: i) auto
  then show ?thesis by (simp add: is_user_already_logged_in_def)
qed

lemma length_active_names: "length (active_names tbl) \<le> length tbl"
  by (induction tbl) auto

lemma add_logged_in_user_names:
  assumes "length u < MAX_ID_LEN"
  shows "length (active_names tbl) < length tbl \<Longrightarrow>
      fst (add_logged_in_user u s tbl)
      \<and> mset (active_names (snd (add_logged_in_user u s tbl))) = add_mset u (mset (active_names tbl))"
    and "length tbl \<le> length (active_names tbl) \<Longrightarrow> add_logged_in_user u s tbl = (False, tbl)"
proof (induction tbl)
  case (Cons x xs)
  {
    case 1
    then show ?case using Cons.IH(1) assms by (auto simp: snprintf_str_def split_beta)
  next
    case 2
    then have "lu_is_active x" using length_active_names [of xs] by (auto split: if_splits)
    then show ?case using 2 Cons.IH(2) by simp
  }
qed simp_all

lemma length_add_logged_in_user [simp]: "length (snd (add_logged_in_user u s tbl)) = length tbl"
  by (induction tbl) (auto simp: split_beta)

lemma remove_logged_in_user_names:
  "active_names (remove_logged_in_user u tbl) = remove1 u (active_names tbl)"
  by (induction tbl) auto

lemma length_remove_logged_in_user [simp]: "length (remove_logged_in_user u tbl) = length tbl"
  by (induction tbl) auto

lemma table_inv_empty [simp]: "table_inv empty_login_table" "active_names empty_login_table = []"
  by (simp_all add: table_inv_def empty_login_table_def active_names_def)

lemma active_names_init [simp]: "active_names (init_logged_in_users tbl) = []"
  by (induction tbl) (auto simp: init_logged_in_users_def)

definition logged_in :: "logged_in_user list \<Rightarrow> string \<Rightarrow> bool" where
  "logged_in tbl u \<longleftrightarrow> is_user_already_logged_in tbl (Str u) \<noteq> Some (-1)"

lemma logged_in_iff [simp]: "logged_in tbl u \<longleftrightarrow> u \<in> set (active_names tbl)"
  by (simp add: logged_in_def not_logged_in_iff)

definition has_room :: "logged_in_user list \<Rightarrow> bool" where
  "has_room tbl \<longleftrightarrow> length (active_names tbl) < MAX_LOGGED_IN_USERS"

lemma add_logged_in_user_result:
  assumes "length u < MAX_ID_LEN" "length tbl = MAX_LOGGED_IN_USERS"
  shows "fst (add_logged_in_user u s tbl) \<longleftrightarrow> has_room tbl"
    and "has_room tbl \<Longrightarrow> set (active_names (snd (add_logged_in_user u s tbl))) = insert u (set (active_names tbl))"
    and "\<not> has_room tbl \<Longrightarrow> snd (add_logged_in_user u s tbl) = tbl"
proof -
  show "has_room tbl \<Longrightarrow> set (active_names (snd (add_logged_in_user u s tbl))) = insert u (set (active_names tbl))"
    using add_logged_in_user_names(1) [OF assms(1), of tbl s] assms(2)
    by (metis has_room_def set_mset_add_mset_insert set_mset_mset)
  show "\<not> has_room tbl \<Longrightarrow> snd (add_logged_in_user u s tbl) = tbl"
    using add_logged_in_user_names(2) [OF assms(1), of tbl s] assms(2) by (simp add: has_room_def)
  show "fst (add_logged_in_user u s tbl) \<longleftrightarrow> has_room tbl"
    using add_logged_in_user_names [OF assms(1), of tbl s] assms(2)
    by (cases "has_room tbl") (simp_all add: has_room_def)
qed

lemma table_inv_add:
  assumes "table_inv tbl" "length u < MAX_ID_LEN" "u \<notin> set (active_names tbl)"
  shows "table_inv (snd (add_logged_in_user u s tbl))"
proof (cases "has_room tbl")
  case True
  then have "mset (active_names (snd (add_logged_in_user u s tbl))) = mset (u # active_names tbl)"
    using add_logged_in_user_names(1) [OF assms(2), of tbl s] assms(1) by (simp add: has_room_def table_inv_def)
  then have "distinct (active_names (snd (add_logged_in_user u s tbl))) = distinct (u # active_names tbl)"
    by (rule mset_eq_imp_distinct_iff)
  then show ?thesis using assms by (simp add: table_inv_def)
next
  case False
  then show ?thesis using add_logged_in_user_result(3) [OF assms(2)] assms(1) by (simp add: table_inv_def)
qed

lemma table_inv_remove: "table_inv tbl \<Longrightarrow> table_inv (remove_logged_in_user u tbl)"
  by (simp add: table_inv_def remove_logged_in_user_names distinct_remove1)

lemma set_remove_logged_in_user:
  "table_inv tbl \<Longrightarrow> set (active_names (remove_logged_in_user u tbl)) = set (active_names tbl) - {u}"
  by (simp add: table_inv_def remove_logged_in_user_names set_remove1_eq)

interpretation login_table: name_set logged_in "\<lambda>u tbl. snd (add_logged_in_user u sock tbl)"
  remove_logged_in_user has_room "\<lambda>u. length u < MAX_ID_LEN" table_inv
  for sock :: int
proof
  fix tbl k l
  assume inv: "table_inv tbl"
  show "table_inv (remove_logged_in_user k tbl)" using inv by (rule table_inv_remove)
  show "logged_in (remove_logged_in_user k tbl) l \<longleftrightarrow> logged_in tbl l \<and> l \<noteq> k"
    using set_remove_logged_in_user [OF inv] by simp
  assume k: "length k < MAX_ID_LEN" "\<not> logged_in tbl k" "has_room tbl"
  show "table_inv (snd (add_logged_in_user k sock tbl))" using table_inv_add [OF inv k(1)] k(2) by simp
  show "logged_in (snd (add_logged_in_user k sock tbl)) l \<longleftrightarrow> l = k \<or> logged_in tbl l"
    using add_logged_in_user_result(2) [OF k(1)] inv k(3) by (simp add: table_inv_def)
qed

section \<open>Properties\<close>

text \<open>
  Claim C27. The table is a set of at most 100 names: adding a name that is absent puts exactly that
  name in, when there is room, and does nothing otherwise; removing takes exactly that name out; no name is
  in the table twice; and the name check answers by membership.
\<close>

theorem login_table_is_set:
  assumes "table_inv tbl" "length u < MAX_ID_LEN" "u \<notin> set (active_names tbl)"
  shows "(add_logged_in_user u sock tbl = (True, snd (add_logged_in_user u sock tbl)) \<longleftrightarrow> has_room tbl)
    \<and> set (active_names (snd (add_logged_in_user u sock tbl)))
        = (if has_room tbl then insert u (set (active_names tbl)) else set (active_names tbl))
    \<and> set (active_names (remove_logged_in_user v tbl)) = set (active_names tbl) - {v}
    \<and> table_inv (snd (add_logged_in_user u sock tbl)) \<and> table_inv (remove_logged_in_user v tbl)
    \<and> (is_user_already_logged_in tbl (Str v) = Some (-1) \<longleftrightarrow> v \<notin> set (active_names tbl))"
proof -
  have len: "length tbl = MAX_LOGGED_IN_USERS" using assms(1) by (simp add: table_inv_def)
  note add = add_logged_in_user_result [OF assms(2) len, of sock]
  have "add_logged_in_user u sock tbl = (True, snd (add_logged_in_user u sock tbl)) \<longleftrightarrow> has_room tbl"
    using add(1) by (metis prod.collapse prod.inject)
  then show ?thesis
    using add(2,3) not_logged_in_iff set_remove_logged_in_user [OF assms(1)] table_inv_add [OF assms] table_inv_remove [OF assms(1)]
    by auto
qed

theorem login_table_is_set_witness:
  "set (active_names (snd (add_logged_in_user ''bob'' 7 empty_login_table))) = {''bob''}"
  using login_table_is_set [of empty_login_table "''bob''" 7] by (simp add: has_room_def)

end
