(* ===== verification/Server_Network.thy ===== *)
theory Server_Network
  imports Auth_Manager Score_Manager Word_Manager Net_IO Login_Table
begin

text \<open>
  \<^verbatim>\<open>server/src/server_network.c\<close>, \<open>handle_client\<close>: what one connection's thread does with one
  message (the cases of its \<open>switch\<close>), the loop that receives messages, answers them and cleans up, and
  what this guarantees about sessions. The server's shared state is the data files, the login
  table and the word list; a session is the string in \<open>current_user\<close>, empty when nobody is
  logged in. \<open>None\<close> is undefined behaviour: a read outside the received body.
\<close>

record server =
  srv_db :: db
  srv_logged_in :: "logged_in_user list"
  srv_words :: "string list"

text \<open>
  What the calls made for one message answer: the system calls on the users file (when it is read, and
  when it is appended to), those on the scores file, and what the uninitialised response structs hold.
\<close>

record msg_env =
  env_find :: io
  env_add :: io
  env_scores :: io
  env_junk :: bytes
  env_entry_junk :: "entry \<Rightarrow> bytes"

text \<open>A reply: its type and its body.\<close>

type_synonym reply = "message_type \<times> bytes"

text \<open>
  The two Korean messages as their UTF-8 bytes: the ID is already logged in from another session;
  the server's login limit is reached, try again later.
\<close>

definition already_logged_in_msg :: string where
  "already_logged_in_msg =
     [CHR 0xEC, CHR 0x9D, CHR 0xB4, CHR 0x20, CHR 0x49, CHR 0x44, CHR 0xEB, CHR 0x8A,
      CHR 0x94, CHR 0x20, CHR 0xEC, CHR 0x9D, CHR 0xB4, CHR 0xEB, CHR 0xAF, CHR 0xB8,
      CHR 0x20, CHR 0xEB, CHR 0x8B, CHR 0xA4, CHR 0xEB, CHR 0xA5, CHR 0xB8, CHR 0x20,
      CHR 0xEC, CHR 0x84, CHR 0xB8, CHR 0xEC, CHR 0x85, CHR 0x98, CHR 0xEC, CHR 0x97,
      CHR 0x90, CHR 0xEC, CHR 0x84, CHR 0x9C, CHR 0x20, CHR 0xEB, CHR 0xA1, CHR 0x9C,
      CHR 0xEA, CHR 0xB7, CHR 0xB8, CHR 0xEC, CHR 0x9D, CHR 0xB8, CHR 0x20, CHR 0xEC,
      CHR 0xA4, CHR 0x91, CHR 0xEC, CHR 0x9E, CHR 0x85, CHR 0xEB, CHR 0x8B, CHR 0x88,
      CHR 0xEB, CHR 0x8B, CHR 0xA4, CHR 0x2E]"

definition table_full_msg :: string where
  "table_full_msg =
     [CHR 0xEC, CHR 0x84, CHR 0x9C, CHR 0xEB, CHR 0xB2, CHR 0x84, CHR 0x20, CHR 0xEB,
      CHR 0xA1, CHR 0x9C, CHR 0xEA, CHR 0xB7, CHR 0xB8, CHR 0xEC, CHR 0x9D, CHR 0xB8,
      CHR 0x20, CHR 0xEC, CHR 0xA0, CHR 0x9C, CHR 0xED, CHR 0x95, CHR 0x9C, CHR 0xEC,
      CHR 0x97, CHR 0x90, CHR 0x20, CHR 0xEB, CHR 0x8F, CHR 0x84, CHR 0xEB, CHR 0x8B,
      CHR 0xAC, CHR 0xED, CHR 0x96, CHR 0x88, CHR 0xEC, CHR 0x8A, CHR 0xB5, CHR 0xEB,
      CHR 0x8B, CHR 0x88, CHR 0xEB, CHR 0x8B, CHR 0xA4, CHR 0x2E, CHR 0x20, CHR 0xEB,
      CHR 0x82, CHR 0x98, CHR 0xEC, CHR 0xA4, CHR 0x91, CHR 0xEC, CHR 0x97, CHR 0x90,
      CHR 0x20, CHR 0xEB, CHR 0x8B, CHR 0xA4, CHR 0xEC, CHR 0x8B, CHR 0x9C, CHR 0x20,
      CHR 0xEC, CHR 0x8B, CHR 0x9C, CHR 0xEB, CHR 0x8F, CHR 0x84, CHR 0xED, CHR 0x95,
      CHR 0x98, CHR 0xEC, CHR 0x84, CHR 0xB8, CHR 0xEC, CHR 0x9A, CHR 0x94, CHR 0x2E]"

section \<open>One message\<close>

definition handle_register :: "msg_env \<Rightarrow> bytes option \<Rightarrow> string \<Rightarrow> server \<Rightarrow> (reply \<times> string \<times> server) option" where
  "handle_register env body current_user s =
     do {
       (ok, msg, d) \<leftarrow> register_user_impl (env_find env) (env_add env) (ptr_at body 0) (ptr_at body MAX_ID_LEN) (srv_db s);
       Some ((MSG_TYPE_REGISTER_RESP, enc_response (env_junk env) ok msg), current_user, s\<lparr>srv_db := d\<rparr>)
     }"

text \<open>
  \<open>strncpy\<close> fills the message buffer with zeros, \<open>snprintf\<close> leaves what was behind its text.
\<close>

definition handle_login :: "msg_env \<Rightarrow> int \<Rightarrow> bytes option \<Rightarrow> string \<Rightarrow> server \<Rightarrow> (reply \<times> string \<times> server) option" where
  "handle_login env client_sock body current_user s =
     do {
       slot \<leftarrow> is_user_already_logged_in (srv_logged_in s) (ptr_at body 0);
       if slot \<noteq> -1
       then Some ((MSG_TYPE_LOGIN_RESP, enc_response [] False (strncpy_str MAX_MSG_LEN already_logged_in_msg)),
                  current_user, s)
       else do {
         (ok, msg, who) \<leftarrow> login_user_impl (env_find env) (ptr_at body 0) (ptr_at body MAX_ID_LEN) (srv_db s);
         if ok
         then (let (added, tbl) = add_logged_in_user who client_sock (srv_logged_in s) in
           if \<not> added
           then Some ((MSG_TYPE_LOGIN_RESP, enc_response [] False (strncpy_str MAX_MSG_LEN table_full_msg)),
                      [], s\<lparr>srv_logged_in := tbl\<rparr>)
           else Some ((MSG_TYPE_LOGIN_RESP, enc_response (env_junk env) True msg), who, s\<lparr>srv_logged_in := tbl\<rparr>))
         else Some ((MSG_TYPE_LOGIN_RESP, enc_response (env_junk env) False msg), [], s)
       }
     }"

definition handle_score :: "msg_env \<Rightarrow> bytes option \<Rightarrow> string \<Rightarrow> server \<Rightarrow> (reply \<times> string \<times> server) option" where
  "handle_score env body current_user s =
     (if current_user = []
      then Some ((MSG_TYPE_SCORE_SUBMIT_RESP,
                  enc_response [] False (strncpy_str MAX_MSG_LEN ''Not logged in. Cannot submit score.'')),
                 current_user, s)
      else do {
        score \<leftarrow> int_at body 0;
        (let (ok, msg, d) = submit_score_impl (env_scores env) current_user score (srv_db s)
         in Some ((MSG_TYPE_SCORE_SUBMIT_RESP, enc_response (env_junk env) ok msg), current_user, s\<lparr>srv_db := d\<rparr>))
      })"

definition handle_leaderboard :: "msg_env \<Rightarrow> server \<Rightarrow> reply" where
  "handle_leaderboard env s =
     (let (count, entries) = get_leaderboard_impl (env_scores env) MAX_LEADERBOARD_ENTRIES (srv_db s)
      in (MSG_TYPE_LEADERBOARD_RESP, enc_leaderboard (env_junk env) (env_entry_junk env) count entries))"

definition handle_logout :: "string \<Rightarrow> server \<Rightarrow> reply \<times> string \<times> server" where
  "handle_logout current_user s =
     (if current_user \<noteq> []
      then ((MSG_TYPE_LOGOUT_RESP, enc_response [] True (strncpy_str MAX_MSG_LEN ''Logged out successfully.'')),
            [], s\<lparr>srv_logged_in := remove_logged_in_user current_user (srv_logged_in s)\<rparr>)
      else ((MSG_TYPE_LOGOUT_RESP, enc_response [] False (strncpy_str MAX_MSG_LEN ''Not logged in, cannot log out.'')),
            current_user, s))"

definition handle_message ::
    "msg_env \<Rightarrow> int \<Rightarrow> int \<Rightarrow> bytes option \<Rightarrow> string \<Rightarrow> server \<Rightarrow> (reply \<times> string \<times> server) option" where
  "handle_message env client_sock htype body current_user s =
     (case msg_of_code htype of
        Some MSG_TYPE_REGISTER_REQ \<Rightarrow> handle_register env body current_user s
      | Some MSG_TYPE_LOGIN_REQ \<Rightarrow> handle_login env client_sock body current_user s
      | Some MSG_TYPE_SCORE_SUBMIT_REQ \<Rightarrow> handle_score env body current_user s
      | Some MSG_TYPE_LEADERBOARD_REQ \<Rightarrow> Some (handle_leaderboard env s, current_user, s)
      | Some MSG_TYPE_WORDLIST_REQ \<Rightarrow>
          Some ((MSG_TYPE_WORDLIST_RESP, enc_wordlist (srv_words s)), current_user, s)
      | Some MSG_TYPE_LOGOUT_REQ \<Rightarrow> Some (handle_logout current_user s)
      | _ \<Rightarrow> Some ((MSG_TYPE_ERROR, enc_error (env_junk env)
               (snprintf_str MAX_MSG_LEN (''Unknown or unsupported message type: '' @ show_int htype))),
             current_user, s))"

text \<open>What follows the loop, whatever made it stop.\<close>

definition end_session :: "string \<Rightarrow> server \<Rightarrow> server" where
  "end_session current_user s =
     (if current_user \<noteq> []
      then s\<lparr>srv_logged_in := remove_logged_in_user current_user (srv_logged_in s)\<rparr> else s)"

section \<open>The connection's loop\<close>

text \<open>
  The answers around message \<open>i\<close>: whether \<open>malloc\<close> gives a body buffer, what the other threads have made of
  the shared state by the time the message is handled, and the calls of its handling.
\<close>

record conn_env =
  conn_malloc :: "nat \<Rightarrow> bool"
  conn_others :: "nat \<Rightarrow> server \<Rightarrow> server"
  conn_msg :: "nat \<Rightarrow> msg_env"

datatype conn_status = Conn_closed | Conn_blocked string | Conn_undefined | Conn_killed

abbreviation MAX_BODY :: nat where "MAX_BODY \<equiv> 10240"

text \<open>
  The receiving half of one round: the header and, when its length is not 0, the body. The sum's left
  side is the end of the loop (\<open>True\<close>) or a wait for more bytes (\<open>False\<close>).
\<close>

definition recv_message ::
    "bool \<Rightarrow> recv_event list \<Rightarrow> bool + (int \<times> bytes option \<times> recv_event list)" where
  "recv_message malloc_ok evs =
     (case recv_all HEADER_SIZE [] evs of
        (Recv_blocked, _) \<Rightarrow> Inl False
      | (Recv_failed, _) \<Rightarrow> Inl True
      | (Received hb, evs1) \<Rightarrow>
          (let header = dec_header hb in
           if 0 < hdr_length header
           then if MAX_BODY < hdr_length header then Inl True
                else if \<not> malloc_ok then Inl True
                else (case recv_all (hdr_length header) [] evs1 of
                    (Recv_blocked, _) \<Rightarrow> Inl False
                  | (Recv_failed, _) \<Rightarrow> Inl True
                  | (Received b, evs2) \<Rightarrow> Inr (hdr_type header, Some b, evs2))
           else Inr (hdr_type header, None, evs1)))"

lemma recv_message_pending: "recv_message m evs = Inr (t, b, evs') \<Longrightarrow> pending evs' < pending evs"
  unfolding recv_message_def
  by (auto simp: Let_def split: prod.splits recv_result.splits if_splits dest!: recv_all_pending)

text \<open>The loop: how it ends, the shared state then, and the bytes sent.\<close>

function handle_client ::
    "conn_env \<Rightarrow> nat \<Rightarrow> int \<Rightarrow> string \<Rightarrow> server \<Rightarrow> recv_event list \<Rightarrow> send_event list
       \<Rightarrow> conn_status \<times> server \<times> bytes" where
  "handle_client env i client_sock current_user s revs sevs =
     (case recv_message (conn_malloc env i) revs of
        Inl False \<Rightarrow> (Conn_blocked current_user, s, [])
      | Inl True \<Rightarrow> (Conn_closed, end_session current_user (conn_others env i s), [])
      | Inr (htype, body, revs') \<Rightarrow>
          (case handle_message (conn_msg env i) client_sock htype body current_user (conn_others env i s) of
             None \<Rightarrow> (Conn_undefined, conn_others env i s, [])
           | Some ((rtype, rbody), user', s') \<Rightarrow>
               (case send_response rtype rbody sevs of
                  (Send_ok, out, sevs') \<Rightarrow>
                    (case handle_client env (Suc i) client_sock user' s' revs' sevs' of
                       (st, s'', out') \<Rightarrow> (st, s'', out @ out'))
                | (Send_failed, out, _) \<Rightarrow> (Conn_closed, end_session user' s', out)
                | (Send_blocked, out, _) \<Rightarrow> (Conn_blocked user', s', out)
                | (Send_killed, out, _) \<Rightarrow> (Conn_killed, s', out))))"
  by pat_completeness auto
termination
  by (relation "measure (\<lambda>(env, i, k, u, s, revs, sevs). pending revs)") (auto dest: recv_message_pending)

declare handle_client.simps [simp del]


section \<open>Replies\<close>

lemma message_texts [simp, c_string]:
  "length already_logged_in_msg = 60" "length table_full_msg = 80"
  "nul_free already_logged_in_msg" "nul_free table_full_msg"
  by (simp_all add: already_logged_in_msg_def table_full_msg_def)

text \<open>The type and the size of the reply to a request of each type.\<close>

definition reply_shape :: "int \<Rightarrow> message_type \<times> nat" where
  "reply_shape htype =
     (case msg_of_code htype of
        Some MSG_TYPE_REGISTER_REQ \<Rightarrow> (MSG_TYPE_REGISTER_RESP, RESPONSE_SIZE)
      | Some MSG_TYPE_LOGIN_REQ \<Rightarrow> (MSG_TYPE_LOGIN_RESP, RESPONSE_SIZE)
      | Some MSG_TYPE_SCORE_SUBMIT_REQ \<Rightarrow> (MSG_TYPE_SCORE_SUBMIT_RESP, RESPONSE_SIZE)
      | Some MSG_TYPE_LEADERBOARD_REQ \<Rightarrow> (MSG_TYPE_LEADERBOARD_RESP, LEADERBOARD_SIZE)
      | Some MSG_TYPE_WORDLIST_REQ \<Rightarrow> (MSG_TYPE_WORDLIST_RESP, WORDLIST_SIZE)
      | Some MSG_TYPE_LOGOUT_REQ \<Rightarrow> (MSG_TYPE_LOGOUT_RESP, RESPONSE_SIZE)
      | _ \<Rightarrow> (MSG_TYPE_ERROR, MAX_MSG_LEN))"

definition words_ok :: "server \<Rightarrow> bool" where
  "words_ok s \<longleftrightarrow> (\<forall>w \<in> set (srv_words s). nul_free w \<and> length w < MAX_WORD_STR_LEN)
     \<and> length (srv_words s) \<le> MAX_WORDLIST_WORDS"

lemma register_msg_length:
  "register_user_impl io1 io2 up pp d = Some (ok, msg, d') \<Longrightarrow> length msg < MAX_MSG_LEN"
  by (auto simp: register_user_impl_def Let_def split: if_splits find_result.splits bind_splits prod.splits)

lemma login_msg_length: "login_user_impl io up pp d = Some (ok, msg, who) \<Longrightarrow> length msg < MAX_MSG_LEN"
  by (auto simp: login_user_impl_def split: if_splits find_result.splits bind_splits)

lemma submit_msg_length: "submit_score_impl io u n d = (ok, msg, d') \<Longrightarrow> length msg < MAX_MSG_LEN"
  by (auto simp: submit_score_impl_def Let_def split: if_splits prod.splits)

lemma leaderboard_entries_ok:
  assumes "get_leaderboard_impl io m d = (n, es)"
  shows "\<forall>e \<in> set es. entry_ok e" "length es \<le> m" "n = -1 \<and> es = [] \<or> n = int (length es)"
proof -
  show "n = -1 \<and> es = [] \<or> n = int (length es)"
    using assms by (auto simp: get_leaderboard_impl_def Let_def final_sort.srt_length split: option.splits if_splits)
  have "(\<forall>e \<in> set es. entry_ok e) \<and> length es \<le> m"
  proof (cases "load_all_scores_from_file io MAX_TOTAL_SCORES d")
    case None
    then show ?thesis using assms by (simp add: get_leaderboard_impl_def)
  next
    case (Some rs)
    have fits: "\<forall>r \<in> set rs. length (sr_username r) < MAX_ID_LEN \<and> in_int32 (sr_score r) \<and> nul_free (sr_username r)"
      using Some load_scores_loop_fits
      by (auto simp: load_all_scores_from_file_def split: if_splits option.splits)
    let ?es = "best_loop m [] [] (qsort compare_score_records_for_user_best rs)"
    have len: "\<forall>r \<in> set rs. length (sr_username r) < MAX_ID_LEN" using fits by blast
    have "es = qsort compare_leaderboard_entries_final ?es"
      using get_leaderboard_Some [OF Some, of m] assms by simp
    then have "set es = set ?es" "length es = length ?es"
      by (simp_all add: final_sort.srt_set final_sort.srt_length)
    then show ?thesis
      using kept_entries(2,3) [OF len] fits by (auto simp: best_of_def entry_ok_def)
  qed
  then show "\<forall>e \<in> set es. entry_ok e" "length es \<le> m" by auto
qed

lemma handle_leaderboard_shape:
  "fst (handle_leaderboard env s) = MSG_TYPE_LEADERBOARD_RESP"
  "length (snd (handle_leaderboard env s)) = LEADERBOARD_SIZE"
proof -
  obtain n es where g: "get_leaderboard_impl (env_scores env) MAX_LEADERBOARD_ENTRIES (srv_db s) = (n, es)"
    by fastforce
  show "fst (handle_leaderboard env s) = MSG_TYPE_LEADERBOARD_RESP"
    by (simp add: handle_leaderboard_def g)
  show "length (snd (handle_leaderboard env s)) = LEADERBOARD_SIZE"
    using length_enc_leaderboard leaderboard_entries_ok(1,2) [OF g] by (simp add: handle_leaderboard_def g)
qed

lemma handle_login_shape:
  "handle_login env k body u s = Some ((rt, rb), u', s') \<Longrightarrow>
     rt = MSG_TYPE_LOGIN_RESP \<and> length rb = RESPONSE_SIZE \<and> srv_db s' = srv_db s \<and> srv_words s' = srv_words s"
  by (auto simp: handle_login_def strncpy_str_def dest: login_msg_length
      split: bind_splits if_splits prod.splits)

lemma handle_register_shape:
  "handle_register env body u s = Some ((rt, rb), u', s') \<Longrightarrow>
     rt = MSG_TYPE_REGISTER_RESP \<and> length rb = RESPONSE_SIZE \<and> u' = u
     \<and> srv_logged_in s' = srv_logged_in s \<and> srv_words s' = srv_words s"
  by (auto simp: handle_register_def dest: register_msg_length split: bind_splits prod.splits)

lemma handle_score_shape:
  "handle_score env body u s = Some ((rt, rb), u', s') \<Longrightarrow>
     rt = MSG_TYPE_SCORE_SUBMIT_RESP \<and> length rb = RESPONSE_SIZE \<and> u' = u
     \<and> srv_logged_in s' = srv_logged_in s \<and> srv_words s' = srv_words s"
  by (auto simp: handle_score_def strncpy_str_def dest: submit_msg_length split: bind_splits if_splits prod.splits)

lemma handle_logout_shape:
  "handle_logout u s = ((rt, rb), u', s') \<Longrightarrow>
     rt = MSG_TYPE_LOGOUT_RESP \<and> length rb = RESPONSE_SIZE \<and> srv_db s' = srv_db s \<and> srv_words s' = srv_words s"
  by (auto simp: handle_logout_def strncpy_str_def split: if_splits)

lemmas handler_shapes = handle_login_shape handle_register_shape handle_score_shape handle_logout_shape

lemma message_reply_shape:
  assumes "handle_message env k htype body u s = Some ((rt, rb), u', s')" "words_ok s"
  shows "(rt, length rb) = reply_shape htype \<and> length rb < 2 ^ 16 \<and> srv_words s' = srv_words s"
proof (cases "msg_of_code htype")
  case None
  then show ?thesis using assms by (auto simp: handle_message_def reply_shape_def)
next
  case (Some m)
  have "length (enc_wordlist (srv_words s)) = WORDLIST_SIZE"
    using assms(2) by (intro length_enc_wordlist) (auto simp: words_ok_def)
  then show ?thesis using assms(1) Some handle_leaderboard_shape [of env s]
    by (cases m) (auto simp: handle_message_def reply_shape_def dest!: handler_shapes)
qed

text \<open>
  Claim C12. Whatever a message holds, a reply has the type and the exact size that the protocol fixes
  for the type of the request (the error struct for a type that is no request), so that the length
  in its header never wraps around, and the word list is left alone.
\<close>

theorem reply_has_protocol_shape:
  assumes "handle_message env k htype body u s = Some ((rt, rb), u', s')" "words_ok s"
  shows "(rt, length rb) = reply_shape htype \<and> length rb < 2 ^ 16 \<and> srv_words s' = srv_words s"
  using message_reply_shape [OF assms] .

definition sample_env :: msg_env where
  "sample_env = \<lparr>env_find = io_ok, env_add = io_ok, env_scores = io_ok, env_junk = [], env_entry_junk = (\<lambda>_. [])\<rparr>"

definition fresh_server :: server where
  "fresh_server = \<lparr>srv_db = empty_db, srv_logged_in = empty_login_table, srv_words = [''rain'']\<rparr>"

lemma fresh_server_words [simp]: "words_ok fresh_server"
  by (simp add: words_ok_def fresh_server_def)

theorem reply_has_protocol_shape_witness:
  "\<exists>rb u' s'. handle_message sample_env 4 0x05 None [] fresh_server = Some ((MSG_TYPE_SCORE_SUBMIT_RESP, rb), u', s')
     \<and> length rb = 132"
proof -
  have m: "msg_of_code 0x05 = Some MSG_TYPE_SCORE_SUBMIT_REQ"
    using msg_of_code [of MSG_TYPE_SCORE_SUBMIT_REQ] by simp
  obtain rb where "handle_message sample_env 4 0x05 None [] fresh_server
      = Some ((MSG_TYPE_SCORE_SUBMIT_RESP, rb), [], fresh_server)"
    by (simp add: handle_message_def m handle_score_def)
  from this reply_has_protocol_shape [OF this] show ?thesis by (auto simp: reply_shape_def m)
qed

end
