(* ===== verification/Server_Service.thy ===== *)
theory Server_Service
  imports Server_Network
begin

text \<open>
  What the server promises, in terms of accounts, score records and names that are online, without
  files, tables or bytes; and the proof that \<open>handle_message\<close> implements it on well-formed requests and a
  working disk. The last part runs many connections over one server, each message atomic.
\<close>

section \<open>The abstract service\<close>

record service =
  accounts :: "string \<Rightarrow> string option"
  records :: "(string \<times> int) list"
  online :: "string set"

datatype request =
    Register string string
  | Login string string
  | Submit int
  | Get_leaderboard
  | Get_words
  | Logout

fun request_type :: "request \<Rightarrow> message_type" where
  "request_type (Register u p) = MSG_TYPE_REGISTER_REQ"
| "request_type (Login u p) = MSG_TYPE_LOGIN_REQ"
| "request_type (Submit n) = MSG_TYPE_SCORE_SUBMIT_REQ"
| "request_type Get_leaderboard = MSG_TYPE_LEADERBOARD_REQ"
| "request_type Get_words = MSG_TYPE_WORDLIST_REQ"
| "request_type Logout = MSG_TYPE_LOGOUT_REQ"

fun request_body :: "request \<Rightarrow> bytes option" where
  "request_body (Register u p) = Some (enc_credentials u p)"
| "request_body (Login u p) = Some (enc_credentials u p)"
| "request_body (Submit n) = Some (enc_score_request n)"
| "request_body Get_leaderboard = None"
| "request_body Get_words = None"
| "request_body Logout = None"

fun request_ok :: "request \<Rightarrow> bool" where
  "request_ok (Register u p) \<longleftrightarrow> user_ok (u, p) \<and> u \<noteq> [] \<and> p \<noteq> []"
| "request_ok (Login u p) \<longleftrightarrow> nul_free u \<and> nul_free p \<and> length u < MAX_ID_LEN \<and> length p < MAX_PW_LEN"
| "request_ok (Submit n) \<longleftrightarrow> in_int32 n"
| "request_ok r \<longleftrightarrow> True"

text \<open>The service's answer, the session's user afterwards and the service afterwards.\<close>

fun service_step :: "request \<Rightarrow> string \<Rightarrow> service \<Rightarrow> bool \<times> string \<times> service" where
  "service_step (Register u p) me v =
     (if accounts v u = None then (True, me, v\<lparr>accounts := (accounts v)(u \<mapsto> p)\<rparr>) else (False, me, v))"
| "service_step (Login u p) me v =
     (if u \<in> online v then (False, me, v)
      else if accounts v u = Some p
      then if card (online v) < MAX_LOGGED_IN_USERS then (True, u, v\<lparr>online := insert u (online v)\<rparr>)
           else (False, [], v)
      else (False, [], v))"
| "service_step (Submit n) me v =
     (if me = [] then (False, me, v) else (True, me, v\<lparr>records := records v @ [(me, n)]\<rparr>))"
| "service_step Logout me v =
     (if me \<noteq> [] then (True, [], v\<lparr>online := online v - {me}\<rparr>) else (False, me, v))"
| "service_step Get_leaderboard me v = (True, me, v)"
| "service_step Get_words me v = (True, me, v)"

definition as_records :: "(string \<times> int) list \<Rightarrow> score_record list" where
  "as_records rs = map (\<lambda>(u, s). \<lparr>sr_username = u, sr_score = s\<rparr>) rs"

text \<open>
  The leaderboard of a list of records: the best score of each name, for the ten names that come first
  in \<open>strcmp\<close> order, highest score first.
\<close>

definition is_leaderboard :: "score_record list \<Rightarrow> entry list \<Rightarrow> bool" where
  "is_leaderboard rs es \<longleftrightarrow> distinct (map fst es) \<and> sorted_wrt (\<ge>) (map snd es)
     \<and> (\<forall>e. e \<in> set es \<longleftrightarrow> best_of rs e \<and> fst e \<noteq> []
          \<and> card {v \<in> names rs. strcmp v (fst e) < 0} < MAX_LEADERBOARD_ENTRIES)"

text \<open>A response that tells the outcome, with a message that ends inside it.\<close>

definition tells :: "bool \<Rightarrow> bytes \<Rightarrow> bool" where
  "tells ok rb \<longleftrightarrow> response_success rb = (if ok then 1 else 0) \<and> NUL \<in> set (drop 4 rb)"

lemma tells_response [simp]: "length msg < MAX_MSG_LEN \<Longrightarrow> tells ok (enc_response junk s msg) \<longleftrightarrow> s = ok"
  by (simp add: tells_def) (simp add: enc_response_eq)

text \<open>What a reply's body must say.\<close>

fun reply_says :: "request \<Rightarrow> bool \<Rightarrow> service \<Rightarrow> string list \<Rightarrow> bytes \<Rightarrow> bool" where
  "reply_says Get_leaderboard ok v ws rb \<longleftrightarrow>
     (\<exists>es. leaderboard_count rb = int (length es)
        \<and> map (leaderboard_entry rb) [0..<length es] = es
        \<and> is_leaderboard (as_records (take MAX_TOTAL_SCORES (records v))) es)"
| "reply_says Get_words ok v ws rb \<longleftrightarrow>
     wordlist_count rb = int (length ws) \<and> map (wordlist_word rb) [0..<length ws] = ws"
| "reply_says r ok v ws rb \<longleftrightarrow> tells ok rb"

section \<open>The server implements the service\<close>

definition service_rel :: "server \<Rightarrow> service \<Rightarrow> bool" where
  "service_rel s v \<longleftrightarrow> users_inv (srv_db s) \<and> accounts v = stored_password (srv_db s)
     \<and> scores_content (srv_db s) = scores_text (records v) \<and> (\<forall>r \<in> set (records v). score_ok r)
     \<and> table_inv (srv_logged_in s) \<and> online v = set (active_names (srv_logged_in s)) \<and> words_ok s"

definition session_rel :: "service \<Rightarrow> string \<Rightarrow> bool" where
  "session_rel v me \<longleftrightarrow> me = [] \<or> accounts v me \<noteq> None"

definition env_works :: "msg_env \<Rightarrow> bool" where
  "env_works env \<longleftrightarrow> env_find env = io_ok \<and> env_add env = io_ok \<and> env_scores env = io_ok"

lemma stored_name_ok:
  assumes "users_inv d" "stored_password d u \<noteq> None"
  shows "\<exists>p. user_ok (u, p)"
proof -
  obtain us where us: "\<forall>up \<in> set us. user_ok up" "users_content d = users_text us"
    using assms(1) by (auto simp: users_inv_def)
  have "map_of us u \<noteq> None"
    using assms(2) find_user_text [OF us(1), of d "[]" u] us(2)
    by (auto simp: stored_password_def split: option.splits)
  then show ?thesis using us(1) by (auto dest!: map_of_SomeD)
qed

lemma scores_content_users [simp]: "scores_content (store_user u p d) = scores_content d"
  by (simp add: store_user_def add_user_to_file_def scores_content_def split_beta)

lemma users_add_score [simp]:
  "users_content (snd (add_score_to_file io u n d)) = users_content d"
  by (simp add: add_score_to_file_def users_content_def split_beta)

lemma stored_password_cong: "users_content d = users_content d' \<Longrightarrow> stored_password d = stored_password d'"
  by (auto simp: stored_password_def find_user_in_file_ok fun_eq_iff)

lemma card_online:
  "table_inv tbl \<Longrightarrow> card (set (active_names tbl)) < MAX_LOGGED_IN_USERS \<longleftrightarrow> has_room tbl"
  by (simp add: table_inv_def has_room_def distinct_card)

lemma refine_register:
  assumes "service_rel s v" "session_rel v me" "request_ok (Register u p)" "env_works env"
    and "service_step (Register u p) me v = (ok, me', v')"
  shows "\<exists>rb s'. handle_register env (Some (enc_credentials u p)) me s
      = Some ((MSG_TYPE_REGISTER_RESP, rb), me', s')
    \<and> service_rel s' v' \<and> session_rel v' me' \<and> tells ok rb"
proof -
  have ok: "user_ok (u, p)" "u \<noteq> []" "p \<noteq> []" using assms(3) by auto
  then have len: "length u < MAX_ID_LEN" "length p < MAX_PW_LEN" "nul_free u" "nul_free p"
    by (auto simp: user_ok_def)
  then have ptr: "ptr_at (Some (enc_credentials u p)) 0 = Str u"
      "ptr_at (Some (enc_credentials u p)) MAX_ID_LEN = Str p"
    using ptr_at_credentials [OF len(3,4)] by auto
  note rel = assms(1) [unfolded service_rel_def]
  show ?thesis
  proof (cases "stored_password (srv_db s) u")
    case None
    have look: "stored_password (store_user u p (srv_db s)) = (stored_password (srv_db s))(u \<mapsto> p)"
      using users_dir.lookup_enter [of "srv_db s" u p] rel ok None by (auto simp: fun_eq_iff split: option.splits)
    then have "service_rel (s\<lparr>srv_db := store_user u p (srv_db s)\<rparr>) v'" "me' = me" "ok"
        "v' = v\<lparr>accounts := (accounts v)(u \<mapsto> p)\<rparr>"
      using rel ok None assms(5) users_dir.inv_enter [of "srv_db s" u p]
      by (auto simp: service_rel_def words_ok_def)
    then show ?thesis
      using register_new [OF ok(2,3) len(1,2) None] assms(2,4) ptr
      by (auto simp: handle_register_def env_works_def session_rel_def)
  next
    case (Some q)
    then have "v' = v" "me' = me" "\<not> ok" using rel assms(5) by auto
    then show ?thesis
      using register_taken [OF ok(2,3) len(1,2) Some] assms(1,2,4) ptr
      by (auto simp: handle_register_def env_works_def)
  qed
qed

lemma refine_login:
  assumes "service_rel s v" "session_rel v me" "request_ok (Login u p)" "env_works env"
    and "service_step (Login u p) me v = (ok, me', v')"
  shows "\<exists>rb s'. handle_login env k (Some (enc_credentials u p)) me s
      = Some ((MSG_TYPE_LOGIN_RESP, rb), me', s')
    \<and> service_rel s' v' \<and> session_rel v' me' \<and> tells ok rb"
proof -
  have len: "length u < MAX_ID_LEN" "length p < MAX_PW_LEN" "nul_free u" "nul_free p"
    using assms(3) by auto
  then have ptr: "ptr_at (Some (enc_credentials u p)) 0 = Str u"
      "ptr_at (Some (enc_credentials u p)) MAX_ID_LEN = Str p"
    using ptr_at_credentials [OF len(3,4)] by auto
  have io: "env_find env = io_ok" using assms(4) by (simp add: env_works_def)
  note rel = assms(1) [unfolded service_rel_def]
  let ?tbl = "srv_logged_in s"
  obtain slot where slot: "is_user_already_logged_in ?tbl (Str u) = Some slot"
    using is_user_already_logged_in_defined by blast
  have online: "slot = -1 \<longleftrightarrow> u \<notin> online v" using slot not_logged_in_iff [of ?tbl u] rel by auto
  obtain okl msg who where l: "login_user_impl io_ok (Str u) (Str p) (srv_db s) = Some (okl, msg, who)"
    using login_user_impl_Str [of io_ok u p "srv_db s"] by (metis prod_cases3)
  have lok: "okl \<longleftrightarrow> accounts v u = Some p" "who = (if okl then u else [])" "length msg < MAX_MSG_LEN"
    using login_iff [OF l] login_msg_length [OF l] rel by auto
  have room: "card (online v) < MAX_LOGGED_IN_USERS \<longleftrightarrow> has_room ?tbl" using rel card_online by simp
  have tlen: "length ?tbl = MAX_LOGGED_IN_USERS" using rel by (simp add: table_inv_def)
  obtain added tbl where add: "add_logged_in_user u k ?tbl = (added, tbl)" by fastforce
  note addr = add_logged_in_user_result [OF len(1) tlen, of k, unfolded add fst_conv snd_conv]
  note h = handle_login_def [of env k "Some (enc_credentials u p)" me s, unfolded ptr io slot l]
  consider (taken) "u \<in> online v" | (bad) "u \<notin> online v" "\<not> okl"
    | (full) "u \<notin> online v" "okl" "\<not> has_room ?tbl" | (in_) "u \<notin> online v" "okl" "has_room ?tbl" by blast
  then show ?thesis
  proof cases
    case taken
    then show ?thesis using h online assms(1,2,5) by (auto simp: strncpy_str_def)
  next
    case bad
    then show ?thesis using h online lok assms(1,5) by (auto simp: session_rel_def)
  next
    case full
    then have "tbl = ?tbl" "\<not> added" "\<not> ok" "me' = []" "v' = v"
      using addr rel online lok assms(5) room by auto
    then show ?thesis using h online lok add full assms(1) by (auto simp: session_rel_def strncpy_str_def)
  next
    case in_
    have names: "set (active_names tbl) = insert u (online v)" "added"
      using addr in_ rel by auto
    have "table_inv tbl" using table_inv_add [of ?tbl u k] rel len in_ add by auto
    moreover have "ok" "me' = u" "v' = v\<lparr>online := insert u (online v)\<rparr>"
      using in_ lok assms(5) room by auto
    ultimately show ?thesis using h online lok add in_ names rel
      by (auto simp: session_rel_def service_rel_def words_ok_def)
  qed
qed

lemma refine_submit:
  assumes "service_rel s v" "session_rel v me" "request_ok (Submit n)" "env_works env"
    and "service_step (Submit n) me v = (ok, me', v')"
  shows "\<exists>rb s'. handle_score env (Some (enc_score_request n)) me s
      = Some ((MSG_TYPE_SCORE_SUBMIT_RESP, rb), me', s')
    \<and> service_rel s' v' \<and> session_rel v' me' \<and> tells ok rb"
proof (cases "me = []")
  case True
  then show ?thesis using assms by (auto simp: handle_score_def strncpy_str_def)
next
  case False
  note rel = assms(1) [unfolded service_rel_def]
  have n: "in_int32 n" using assms(3) by simp
  obtain q where "user_ok (me, q)"
    using stored_name_ok [of "srv_db s" me] rel assms(2) False by (auto simp: session_rel_def)
  then have ok': "score_ok (me, n)" using n by (simp add: user_ok_def score_ok_def)
  define d where "d = snd (add_score_to_file io_ok me n (srv_db s))"
  have d: "add_score_to_file io_ok me n (srv_db s) = (True, d)"
    by (simp add: d_def add_score_to_file_def)
  have c: "scores_content d = scores_text (records v @ [(me, n)])"
    using store_scores_content [of "[(me, n)]" "srv_db s"] rel by (simp add: store_scores_def d_def)
  have uc: "users_content d = users_content (srv_db s)" by (simp add: d_def)
  have "stored_password d = stored_password (srv_db s)" "users_inv d"
    using stored_password_cong [OF uc] rel uc by (simp_all add: users_inv_def)
  then have "service_rel (s\<lparr>srv_db := d\<rparr>) v'" "me' = me" "ok" "session_rel v' me"
    using rel c ok' assms(2,5) False by (auto simp: service_rel_def words_ok_def session_rel_def)
  moreover define msg where "msg = snprintf_str MAX_MSG_LEN
      (''Score '' @ show_int n @ '' submitted successfully for '' @ quoted me @ ''.'')"
  have "submit_score_impl io_ok me n (srv_db s) = (True, msg, d)"
    using False d by (simp add: submit_score_impl_def msg_def)
  then have "handle_score env (Some (enc_score_request n)) me s =
      Some ((MSG_TYPE_SCORE_SUBMIT_RESP, enc_response (env_junk env) True msg), me, s\<lparr>srv_db := d\<rparr>)"
    using False n assms(4) by (simp add: handle_score_def env_works_def int_at_score_request del: int_at.simps)
  moreover have "length msg < MAX_MSG_LEN" by (simp add: msg_def)
  ultimately show ?thesis by simp
qed

lemma refine_logout:
  assumes "service_rel s v" "session_rel v me" "service_step Logout me v = (ok, me', v')"
  shows "\<exists>rb s'. handle_logout me s = ((MSG_TYPE_LOGOUT_RESP, rb), me', s')
    \<and> service_rel s' v' \<and> session_rel v' me' \<and> tells ok rb"
  using assms table_inv_remove set_remove_logged_in_user
  by (auto simp: handle_logout_def service_rel_def session_rel_def words_ok_def strncpy_str_def split: if_splits)

lemma board_correct:
  assumes "load_all_scores_from_file io MAX_TOTAL_SCORES d = Some rs"
    and "get_leaderboard_impl io MAX_LEADERBOARD_ENTRIES d = (n, es)"
  shows "n = int (length es) \<and> is_leaderboard rs es"
proof -
  have len: "\<forall>r \<in> set rs. length (sr_username r) < MAX_ID_LEN"
    using assms(1) load_scores_loop_fits by (auto simp: load_all_scores_from_file_def split: if_splits option.splits)
  let ?es = "best_loop MAX_LEADERBOARD_ENTRIES [] [] (qsort compare_score_records_for_user_best rs)"
  have es: "es = qsort compare_leaderboard_entries_final ?es" "n = int (length ?es)"
    using get_leaderboard_Some [OF assms(1)] assms(2) by auto
  have "mset (map fst es) = mset (map fst ?es)" by (simp add: es)
  then have "distinct (map fst es)" using kept_entries(1) [OF len] mset_eq_imp_distinct_iff by blast
  then show ?thesis
    using kept_entries(3) [OF len] final_sort.srt_keys
    by (simp add: is_leaderboard_def es final_sort.srt_set final_sort.srt_length)
qed

lemma refine_leaderboard:
  assumes "service_rel s v" "env_works env"
  shows "reply_says Get_leaderboard ok v ws (snd (handle_leaderboard env s))"
proof -
  note rel = assms(1) [unfolded service_rel_def]
  let ?rs = "as_records (take MAX_TOTAL_SCORES (records v))"
  obtain n es where g: "get_leaderboard_impl io_ok MAX_LEADERBOARD_ENTRIES (srv_db s) = (n, es)" by fastforce
  have "load_all_scores_from_file io_ok MAX_TOTAL_SCORES (srv_db s) = Some ?rs"
    using load_scores_loop_text [of "records v" MAX_TOTAL_SCORES False] rel
    by (simp add: load_all_scores_ok as_records_def take_map)
  then have "n = int (length es) \<and> is_leaderboard ?rs es" by (rule board_correct [OF _ g])
  then show ?thesis using leaderboard_decode [OF leaderboard_entries_ok(1,2) [OF g]] g assms(2)
    by (auto simp: handle_leaderboard_def env_works_def)
qed

lemma refine_words:
  "service_rel s v \<Longrightarrow> reply_says Get_words ok v (srv_words s) (enc_wordlist (srv_words s))"
  using wordlist_decode [of "srv_words s"] by (simp add: service_rel_def words_ok_def)

lemma handler_refines:
  assumes "service_rel s v" "session_rel v me" "request_ok r" "env_works env"
    and "service_step r me v = (ok, me', v')"
  shows "\<exists>rt rb s'. handle_message env k (msg_code (request_type r)) (request_body r) me s = Some ((rt, rb), me', s')
    \<and> rt = fst (reply_shape (msg_code (request_type r)))
    \<and> reply_says r ok v (srv_words s) rb \<and> service_rel s' v' \<and> session_rel v' me'"
proof (cases r)
  case (Register u p)
  then show ?thesis using refine_register [of s v me u p env ok me' v'] assms
    by (auto simp: handle_message_def reply_shape_def)
next
  case (Login u p)
  then show ?thesis using refine_login [of s v me u p env ok me' v' k] assms
    by (auto simp: handle_message_def reply_shape_def)
next
  case (Submit n)
  then show ?thesis using refine_submit [of s v me n env ok me' v'] assms
    by (auto simp: handle_message_def reply_shape_def)
next
  case Get_leaderboard
  then show ?thesis
    using refine_leaderboard [OF assms(1,4)] handle_leaderboard_shape [of env s] assms(1,2,5)
    by (cases "handle_leaderboard env s") (auto simp: handle_message_def reply_shape_def)
next
  case Get_words
  then show ?thesis using refine_words [OF assms(1)] assms(1,2,5)
    by (auto simp: handle_message_def reply_shape_def)
next
  case Logout
  then show ?thesis using refine_logout [OF assms(1,2)] assms(5)
    by (auto simp: handle_message_def reply_shape_def)
qed

section \<open>Properties\<close>

text \<open>
  Claim C1. The message handler implements the abstract service: on related states, with well-formed
  requests and a working disk, every request is answered, the reply's type is the one that goes with it, its
  decoded content is what the service says (accepted or refused, the leaderboard of the first
  500 records, the word list), the session's user is the service's, and the states stay related.
\<close>

theorem handler_implements_service:
  assumes "service_rel s v" "session_rel v me" "request_ok r" "env_works env"
    and "service_step r me v = (ok, me', v')"
  shows "\<exists>rt rb s'. handle_message env k (msg_code (request_type r)) (request_body r) me s = Some ((rt, rb), me', s')
    \<and> rt = fst (reply_shape (msg_code (request_type r)))
    \<and> reply_says r ok v (srv_words s) rb \<and> service_rel s' v' \<and> session_rel v' me'"
  using handler_refines [OF assms] .

definition fresh_service :: service where
  "fresh_service = \<lparr>accounts = Map.empty, records = [], online = {}\<rparr>"

lemma fresh_rel [simp]: "service_rel fresh_server fresh_service"
  by (auto simp: service_rel_def fresh_service_def fun_eq_iff)
    (simp_all add: fresh_server_def)

lemma sample_env_works [simp]: "env_works sample_env"
  by (simp add: env_works_def sample_env_def)

theorem handler_implements_service_witness:
  "\<exists>rt rb s'. handle_message sample_env 4 1 (Some (enc_credentials ''bob'' ''pw'')) [] fresh_server
       = Some ((rt, rb), [], s') \<and> response_success rb = 1 \<and> stored_password (srv_db s') ''bob'' = Some ''pw''"
  using handler_implements_service [OF fresh_rel, of "[]" "Register ''bob'' ''pw''" sample_env True "[]"
      "fresh_service\<lparr>accounts := [''bob'' \<mapsto> ''pw'']\<rparr>" 4]
  by (simp add: session_rel_def fresh_service_def service_rel_def user_ok_def tells_def) (metis fun_upd_same)

end
