(* ===== verification/Server_System.thy ===== *)
theory Server_System
  imports Server_Service
begin

text \<open>
  Many connections over one server. First each message is one atomic step; then the critical sections of
  login and registration are steps of their own, as the mutexes of the code make them, so that the
  threads interleave between them.
\<close>

section \<open>Messages as atomic steps\<close>

text \<open>\<open>sys_user k\<close> is \<open>current_user\<close> of the thread that serves the socket \<open>k\<close>.\<close>

record system =
  sys_server :: server
  sys_user :: "int \<Rightarrow> string"

inductive sys_step :: "system \<Rightarrow> system \<Rightarrow> bool" where
  sys_message: "handle_message env k htype body (sys_user S k) (sys_server S) = Some (reply, u, s) \<Longrightarrow>
    sys_step S (S\<lparr>sys_server := s, sys_user := (sys_user S)(k := u)\<rparr>)"
| sys_hangup: "sys_step S (S\<lparr>sys_server := end_session (sys_user S k) (sys_server S),
    sys_user := (sys_user S)(k := [])\<rparr>)"

inductive_cases sys_stepE: "sys_step S T"

definition sys_inv :: "system \<Rightarrow> bool" where
  "sys_inv S \<longleftrightarrow> table_inv (srv_logged_in (sys_server S))
     \<and> (\<forall>k. sys_user S k \<noteq> [] \<longrightarrow> sys_user S k \<in> set (active_names (srv_logged_in (sys_server S))))
     \<and> (\<forall>k l. sys_user S k \<noteq> [] \<and> sys_user S k = sys_user S l \<longrightarrow> k = l)"

text \<open>What a login does to the table and the session, whatever bytes the message holds.\<close>

lemma handle_login_cases:
  assumes "handle_login env k body me s = Some (reply, u, s')" "table_inv (srv_logged_in s)"
  shows "(u = me \<or> u = []) \<and> srv_logged_in s' = srv_logged_in s
    \<or> u \<noteq> [] \<and> length u < MAX_ID_LEN \<and> u \<notin> set (active_names (srv_logged_in s)) \<and> has_room (srv_logged_in s)
      \<and> srv_logged_in s' = snd (add_logged_in_user u k (srv_logged_in s))
    \<or> u = [] \<and> (\<exists>w. length w < MAX_ID_LEN \<and> w \<notin> set (active_names (srv_logged_in s))
      \<and> srv_logged_in s' = snd (add_logged_in_user w k (srv_logged_in s)))"
proof -
  let ?tbl = "srv_logged_in s"
  obtain slot where slot: "is_user_already_logged_in ?tbl (ptr_at body 0) = Some slot"
    using assms(1) by (cases "is_user_already_logged_in ?tbl (ptr_at body 0)") (auto simp: handle_login_def)
  show ?thesis
  proof (cases "slot = -1")
    case False
    then show ?thesis using assms(1) slot by (auto simp: handle_login_def)
  next
    case True
    obtain ok msg who where l: "login_user_impl (env_find env) (ptr_at body 0) (ptr_at body MAX_ID_LEN) (srv_db s)
        = Some (ok, msg, who)"
      using assms(1) slot True by (auto simp: handle_login_def split: bind_splits)
    show ?thesis
    proof (cases ok)
      case False
      then show ?thesis using assms(1) slot True l by (simp add: handle_login_def)
    next
      case ok: True
      obtain w where w: "ptr_at body 0 = Str w" "who = w" "length w < MAX_ID_LEN"
        using l ok by (auto elim: login_user_impl_success)
      have new: "w \<notin> set (active_names ?tbl)" using slot True w(1) not_logged_in_iff by auto
      obtain added tbl where a: "add_logged_in_user w k ?tbl = (added, tbl)" by fastforce
      have len: "length ?tbl = MAX_LOGGED_IN_USERS" using assms(2) by (simp add: table_inv_def)
      have room: "added \<longleftrightarrow> has_room ?tbl" "\<not> added \<longrightarrow> tbl = ?tbl"
        using add_logged_in_user_result [OF w(3) len, of k] a by auto
      show ?thesis
      proof (cases added)
        case False
        then show ?thesis using assms(1) slot True l ok w a room by (simp add: handle_login_def)
      next
        case added: True
        then have "u = w" "srv_logged_in s' = tbl"
          using assms(1) slot True l ok w a by (auto simp: handle_login_def)
        then show ?thesis using new w(3) a added room
          by (cases "w = []") (auto intro!: exI [of _ w])
      qed
    qed
  qed
qed

lemma handle_message_table:
  assumes "handle_message env k htype body me s = Some (reply, u, s')" "table_inv (srv_logged_in s)"
  shows "(u = me \<or> u = []) \<and> srv_logged_in s' = srv_logged_in s
    \<or> u \<noteq> [] \<and> length u < MAX_ID_LEN \<and> u \<notin> set (active_names (srv_logged_in s)) \<and> has_room (srv_logged_in s)
      \<and> srv_logged_in s' = snd (add_logged_in_user u k (srv_logged_in s))
    \<or> u = [] \<and> (\<exists>w. length w < MAX_ID_LEN \<and> w \<notin> set (active_names (srv_logged_in s))
      \<and> srv_logged_in s' = snd (add_logged_in_user w k (srv_logged_in s)))
    \<or> u = [] \<and> me \<noteq> [] \<and> srv_logged_in s' = remove_logged_in_user me (srv_logged_in s)"
proof (cases "msg_of_code htype")
  case None
  then show ?thesis using assms by (auto simp: handle_message_def)
next
  case (Some m)
  obtain rt rb where reply: "reply = (rt, rb)" by (cases reply)
  consider (login) "m = MSG_TYPE_LOGIN_REQ" | (logout) "m = MSG_TYPE_LOGOUT_REQ"
    | (other) "m \<noteq> MSG_TYPE_LOGIN_REQ" "m \<noteq> MSG_TYPE_LOGOUT_REQ" by blast
  then show ?thesis
  proof cases
    case login
    then show ?thesis using handle_login_cases [OF _ assms(2), of env k body me reply u s'] assms(1) Some
      by (auto simp: handle_message_def)
  next
    case logout
    then show ?thesis using assms(1) Some
      by (auto simp: handle_message_def handle_logout_def split: if_splits)
  next
    case other
    then show ?thesis using assms(1) Some reply
      by (cases m) (auto simp: handle_message_def dest!: handler_shapes)
  qed
qed

interpretation atomic: preserved sys_step sys_inv
proof
  fix S T
  assume inv: "sys_inv S" and step: "sys_step S T"
  let ?tbl = "srv_logged_in (sys_server S)"
  have tbl: "table_inv ?tbl" and len: "length ?tbl = MAX_LOGGED_IN_USERS"
    using inv by (auto simp: sys_inv_def table_inv_def)
  have held: "sys_user S k \<noteq> [] \<Longrightarrow> sys_user S k \<in> set (active_names ?tbl)"
    and once: "sys_user S k \<noteq> [] \<Longrightarrow> sys_user S k = sys_user S l \<Longrightarrow> k = l" for k l
    using inv unfolding sys_inv_def by blast+
  from step show "sys_inv T"
  proof (cases rule: sys_stepE [consumes 1, case_names sys_message sys_hangup])
    case (sys_message env k htype body reply u s)
    note tab = handle_message_table [OF sys_message(2) tbl]
    show ?thesis
    proof (cases "u = [] \<and> sys_user S k \<noteq> [] \<and> srv_logged_in s = remove_logged_in_user (sys_user S k) ?tbl")
      case True
      then show ?thesis
        using sys_message(1) set_remove_logged_in_user [OF tbl] table_inv_remove [OF tbl] held once
        by (auto simp: sys_inv_def)
    next
      case False
      then consider (same) "u = sys_user S k \<or> u = []" "srv_logged_in s = ?tbl"
        | (in_) "u \<noteq> []" "length u < MAX_ID_LEN" "u \<notin> set (active_names ?tbl)" "has_room ?tbl"
            "srv_logged_in s = snd (add_logged_in_user u k ?tbl)"
        | (leak) w where "u = []" "length w < MAX_ID_LEN" "w \<notin> set (active_names ?tbl)"
            "srv_logged_in s = snd (add_logged_in_user w k ?tbl)"
        using tab by blast
      then show ?thesis
      proof cases
        case same
        then show ?thesis using sys_message(1) tbl held once by (auto simp: sys_inv_def)
      next
        case in_
        then show ?thesis
          using sys_message(1) table_inv_add [OF tbl in_(2,3)] held once
            add_logged_in_user_result(2) [OF in_(2) len in_(4)]
          by (auto simp: sys_inv_def)
      next
        case leak
        have "set (active_names ?tbl) \<subseteq> set (active_names (srv_logged_in s))"
          using add_logged_in_user_result(2,3) [OF leak(2) len, of k] leak(4) by (cases "has_room ?tbl") auto
        then show ?thesis
          using sys_message(1) table_inv_add [OF tbl leak(2,3), of k] leak held once
          by (auto simp: sys_inv_def)
      qed
    qed
  next
    case (sys_hangup k)
    then show ?thesis
      using set_remove_logged_in_user [OF tbl] table_inv_remove [OF tbl] tbl held once
      by (auto simp: sys_inv_def end_session_def)
  qed
qed

definition start_system :: "server \<Rightarrow> system" where
  "start_system s = \<lparr>sys_server = s\<lparr>srv_logged_in := init_logged_in_users (srv_logged_in s)\<rparr>, sys_user = (\<lambda>_. [])\<rparr>"

lemma start_system_inv:
  "length (srv_logged_in s) = MAX_LOGGED_IN_USERS \<Longrightarrow> sys_inv (start_system s)"
  by (simp add: sys_inv_def start_system_def table_inv_def) (simp add: init_logged_in_users_def)

text \<open>
  Claim C4. When each message is handled as one atomic step, no account is ever logged in twice:
  from a started server, after any messages on any sockets, whatever they hold and however the disk
  fails, two sockets never have the same user, and every session's user is in the login table, which
  holds no name twice.
\<close>

theorem no_double_login_when_atomic:
  assumes "length (srv_logged_in s) = MAX_LOGGED_IN_USERS" "sys_step\<^sup>*\<^sup>* (start_system s) S"
  shows "(\<forall>k l. sys_user S k \<noteq> [] \<and> k \<noteq> l \<longrightarrow> sys_user S k \<noteq> sys_user S l)
    \<and> (\<forall>k. sys_user S k \<noteq> [] \<longrightarrow> sys_user S k \<in> set (active_names (srv_logged_in (sys_server S))))
    \<and> distinct (active_names (srv_logged_in (sys_server S)))"
  using atomic.inv_steps [OF assms(2) start_system_inv [OF assms(1)]]
  unfolding sys_inv_def table_inv_def by blast

definition bob_server :: server where
  "bob_server = fresh_server\<lparr>srv_db := store_user ''bob'' ''pw'' empty_db\<rparr>"

lemma bob_stored [simp]:
  "find_user_in_file io_ok ''bob'' (store_user ''bob'' ''pw'' empty_db) =
     Find_user \<lparr>ud_username = ''bob'', ud_password = ''pw''\<rparr>"
  using users_dir.lookup_enter [OF users_inv_empty, of "''bob''" "''pw''" "''bob''"]
  by (simp add: user_ok_def stored_password_find)

lemma bob_credentials [simp]:
  "ptr_at (Some (enc_credentials ''bob'' ''pw'')) 0 = Str ''bob''"
  "ptr_at (Some (enc_credentials ''bob'' ''pw'')) MAX_ID_LEN = Str ''pw''"
  using ptr_at_credentials [of "''bob''" "''pw''"] by simp_all

abbreviation free_slot :: logged_in_user where
  "free_slot \<equiv> \<lparr>lu_username = [], lu_client_sock = 0, lu_is_active = False\<rparr>"

abbreviation bob_slot :: "int \<Rightarrow> logged_in_user" where
  "bob_slot k \<equiv> \<lparr>lu_username = ''bob'', lu_client_sock = k, lu_is_active = True\<rparr>"

lemma replicate_pred: "0 < n \<Longrightarrow> replicate n x = x # replicate (n - 1) x"
  by (cases n) auto

lemma bob_server_table: "srv_logged_in bob_server = free_slot # free_slot # replicate 98 free_slot"
  using replicate_pred [of 100 free_slot] replicate_pred [of 99 free_slot]
  by (simp add: bob_server_def fresh_server_def empty_login_table_def)

lemma bob_server_db [simp]: "srv_db bob_server = store_user ''bob'' ''pw'' empty_db"
  by (simp add: bob_server_def)

lemma active_names_free [simp]: "active_names (replicate n free_slot) = []"
  by (simp add: active_names_def)

lemma bob_logs_in:
  "\<exists>reply s. handle_message sample_env k 3 (Some (enc_credentials ''bob'' ''pw'')) [] bob_server
     = Some (reply, ''bob'', s)"
proof -
  have "is_user_already_logged_in (srv_logged_in bob_server) (Str ''bob'') = Some (-1)"
    by (simp add: not_logged_in_iff bob_server_table)
  then show ?thesis
    by (simp add: handle_message_def handle_login_def login_user_impl_Str sample_env_def bob_server_table
        del: ptr_at.simps)
qed

theorem no_double_login_when_atomic_witness:
  "\<exists>S. sys_step\<^sup>*\<^sup>* (start_system bob_server) S
     \<and> sys_user S 4 = ''bob'' \<and> ''bob'' \<in> set (active_names (srv_logged_in (sys_server S)))"
proof -
  have init: "start_system bob_server = \<lparr>sys_server = bob_server, sys_user = (\<lambda>_. [])\<rparr>"
    by (simp add: start_system_def init_logged_in_users_def bob_server_table)
  obtain reply s where h: "handle_message sample_env 4 3 (Some (enc_credentials ''bob'' ''pw'')) [] bob_server
     = Some (reply, ''bob'', s)" using bob_logs_in by blast
  define S where "S = \<lparr>sys_server = s, sys_user = (\<lambda>_. [])(4 := ''bob'')\<rparr>"
  have "sys_step (start_system bob_server) S"
    using sys_message [of sample_env 4 3 _ "start_system bob_server" reply "''bob''" s] h by (simp add: init S_def)
  then have run: "sys_step\<^sup>*\<^sup>* (start_system bob_server) S" ..
  from no_double_login_when_atomic [OF _ run] have
    "sys_user S 4 \<noteq> [] \<longrightarrow> sys_user S 4 \<in> set (active_names (srv_logged_in (sys_server S)))"
    by (simp add: bob_server_table)
  then show ?thesis using run by (intro exI [of _ S]) (simp add: S_def)
qed

section \<open>The critical sections one by one\<close>

text \<open>
  Registration and login consist of calls that lock and unlock a mutex each; between two of them other
  threads run. \<open>register_check\<close> is \<open>register_user_impl\<close> up to the answer of \<open>find_user_in_file\<close> (the
  left side is a refusal's message), \<open>register_store\<close> what follows it; \<open>login_record\<close> is what
  \<open>handle_client\<close> does with the result of \<open>login_user_impl\<close>.
\<close>

definition register_check :: "io \<Rightarrow> cptr \<Rightarrow> cptr \<Rightarrow> db \<Rightarrow> (string + (string \<times> string)) option" where
  "register_check io_find username hashed_password d =
     (let empty = Some (Inl (snprintf_str MAX_MSG_LEN ''Username and password cannot be empty.'')) in
      if username = Null \<or> hashed_password = Null then empty
      else do {
        u \<leftarrow> deref username;
        if u = [] then empty
        else do {
          p \<leftarrow> deref hashed_password;
          if p = [] then empty
          else if MAX_ID_LEN \<le> length u \<or> MAX_PW_LEN \<le> length p
          then Some (Inl (snprintf_str MAX_MSG_LEN ''Username or password too long.''))
          else (case find_user_in_file io_find u d of
              Find_user _ \<Rightarrow>
                Some (Inl (snprintf_str MAX_MSG_LEN (''User '' @ quoted u @ '' already exists.'')))
            | Find_error \<Rightarrow> Some (Inl (snprintf_str MAX_MSG_LEN ''Error checking user existence (DB).''))
            | Find_none \<Rightarrow> Some (Inr (u, p)))
        }
      })"

definition register_store :: "io \<Rightarrow> string \<Rightarrow> string \<Rightarrow> db \<Rightarrow> bool \<times> string \<times> db" where
  "register_store io_add u p d =
     (let new_user = \<lparr>ud_username = strncpy_str MAX_ID_LEN u, ud_password = strncpy_str MAX_PW_LEN p\<rparr>;
          (ok, d') = add_user_to_file io_add new_user d
      in if ok
         then (True, snprintf_str MAX_MSG_LEN (''User '' @ quoted u @ '' registered successfully.''), d')
         else (False, snprintf_str MAX_MSG_LEN (''Failed to save new user '' @ quoted u @ '' (DB).''), d'))"

definition login_record ::
    "msg_env \<Rightarrow> int \<Rightarrow> bool \<times> string \<times> string \<Rightarrow> server \<Rightarrow> reply \<times> string \<times> server" where
  "login_record env client_sock = (\<lambda>(ok, msg, who) s.
     if ok
     then (let (added, tbl) = add_logged_in_user who client_sock (srv_logged_in s) in
       if \<not> added
       then ((MSG_TYPE_LOGIN_RESP, enc_response [] False (strncpy_str MAX_MSG_LEN table_full_msg)),
             [], s\<lparr>srv_logged_in := tbl\<rparr>)
       else ((MSG_TYPE_LOGIN_RESP, enc_response (env_junk env) True msg), who, s\<lparr>srv_logged_in := tbl\<rparr>))
     else ((MSG_TYPE_LOGIN_RESP, enc_response (env_junk env) False msg), [], s))"

definition register_reply :: "msg_env \<Rightarrow> bool \<Rightarrow> string \<Rightarrow> reply" where
  "register_reply env ok msg = (MSG_TYPE_REGISTER_RESP, enc_response (env_junk env) ok msg)"

definition login_refusal :: reply where
  "login_refusal = (MSG_TYPE_LOGIN_RESP, enc_response [] False (strncpy_str MAX_MSG_LEN already_logged_in_msg))"

text \<open>Run in a row, the pieces are the handlers.\<close>

lemma register_pieces:
  "handle_register env body u s =
     (case register_check (env_find env) (ptr_at body 0) (ptr_at body MAX_ID_LEN) (srv_db s) of
        None \<Rightarrow> None
      | Some (Inl msg) \<Rightarrow> Some (register_reply env False msg, u, s)
      | Some (Inr (n, p)) \<Rightarrow>
          (case register_store (env_add env) n p (srv_db s) of
             (ok, msg, d) \<Rightarrow> Some (register_reply env ok msg, u, s\<lparr>srv_db := d\<rparr>)))"
proof -
  have same: "s\<lparr>srv_db := srv_db s\<rparr> = s" by simp
  show ?thesis
    unfolding handle_register_def register_user_impl_def register_check_def register_store_def register_reply_def Let_def
    by (cases "deref (ptr_at body 0)"; cases "deref (ptr_at body MAX_ID_LEN)")
      (auto simp: same split: find_result.splits prod.splits simp del: ptr_at.simps)
qed

lemma login_pieces:
  "handle_login env k body u s =
     (case is_user_already_logged_in (srv_logged_in s) (ptr_at body 0) of
        None \<Rightarrow> None
      | Some slot \<Rightarrow>
          if slot \<noteq> -1 then Some (login_refusal, u, s)
          else (case login_user_impl (env_find env) (ptr_at body 0) (ptr_at body MAX_ID_LEN) (srv_db s) of
             None \<Rightarrow> None
           | Some r \<Rightarrow> Some (login_record env k r s)))"
  unfolding handle_login_def login_record_def login_refusal_def
  by (auto split: option.splits prod.splits)

end
