(* ===== verification/Server_Interleaving.thy ===== *)
theory Server_Interleaving
  imports Server_System
begin

text \<open>
  The threads of \<open>handle_client\<close> interleaved at their critical sections: the check of the login table, the
  search of the users file, the append to it and the entry into the login table are separate steps, as
  they hold separate locks. What still holds under every interleaving, and what does not.
\<close>

section \<open>The step relation\<close>

text \<open>
  Where a thread stands in its current message: between messages, behind the check of the login table,
  behind \<open>login_user_impl\<close> with its result, or behind the search for the name it registers.
\<close>

datatype phase =
    Idle
  | Login_checked "bytes option"
  | Login_answered bool string string
  | Register_checked string string

record threads =
  th_server :: server
  th_user :: "int \<Rightarrow> string"
  th_phase :: "int \<Rightarrow> phase"
  th_replies :: "(int \<times> reply) list"

definition end_message :: "int \<Rightarrow> reply \<Rightarrow> string \<Rightarrow> server \<Rightarrow> threads \<Rightarrow> threads" where
  "end_message k reply u s T = T\<lparr>th_server := s, th_user := (th_user T)(k := u),
     th_phase := (th_phase T)(k := Idle), th_replies := th_replies T @ [(k, reply)]\<rparr>"

definition enter_phase :: "int \<Rightarrow> phase \<Rightarrow> threads \<Rightarrow> threads" where
  "enter_phase k ph T = T\<lparr>th_phase := (th_phase T)(k := ph)\<rparr>"

inductive thread_step :: "threads \<Rightarrow> threads \<Rightarrow> bool" where
  th_message: "th_phase T k = Idle \<Longrightarrow>
    htype \<noteq> msg_code MSG_TYPE_LOGIN_REQ \<Longrightarrow> htype \<noteq> msg_code MSG_TYPE_REGISTER_REQ \<Longrightarrow>
    handle_message env k htype body (th_user T k) (th_server T) = Some (reply, u, s) \<Longrightarrow>
    thread_step T (end_message k reply u s T)"
| th_login_taken: "th_phase T k = Idle \<Longrightarrow>
    is_user_already_logged_in (srv_logged_in (th_server T)) (ptr_at body 0) = Some slot \<Longrightarrow> slot \<noteq> -1 \<Longrightarrow>
    thread_step T (end_message k login_refusal (th_user T k) (th_server T) T)"
| th_login_check: "th_phase T k = Idle \<Longrightarrow>
    is_user_already_logged_in (srv_logged_in (th_server T)) (ptr_at body 0) = Some (-1) \<Longrightarrow>
    thread_step T (enter_phase k (Login_checked body) T)"
| th_login_answer: "th_phase T k = Login_checked body \<Longrightarrow>
    login_user_impl io (ptr_at body 0) (ptr_at body MAX_ID_LEN) (srv_db (th_server T)) = Some (ok, msg, who) \<Longrightarrow>
    thread_step T (enter_phase k (Login_answered ok msg who) T)"
| th_login_record: "th_phase T k = Login_answered ok msg who \<Longrightarrow>
    login_record env k (ok, msg, who) (th_server T) = (reply, u, s) \<Longrightarrow>
    thread_step T (end_message k reply u s T)"
| th_register_refused: "th_phase T k = Idle \<Longrightarrow>
    register_check io (ptr_at body 0) (ptr_at body MAX_ID_LEN) (srv_db (th_server T)) = Some (Inl msg) \<Longrightarrow>
    thread_step T (end_message k (register_reply env False msg) (th_user T k) (th_server T) T)"
| th_register_check: "th_phase T k = Idle \<Longrightarrow>
    register_check io (ptr_at body 0) (ptr_at body MAX_ID_LEN) (srv_db (th_server T)) = Some (Inr (n, p)) \<Longrightarrow>
    thread_step T (enter_phase k (Register_checked n p) T)"
| th_register_store: "th_phase T k = Register_checked n p \<Longrightarrow>
    register_store io n p (srv_db (th_server T)) = (ok, msg, d) \<Longrightarrow>
    thread_step T (end_message k (register_reply env ok msg) (th_user T k) ((th_server T)\<lparr>srv_db := d\<rparr>) T)"
| th_hangup: "th_phase T k = Idle \<Longrightarrow>
    thread_step T (T\<lparr>th_server := end_session (th_user T k) (th_server T), th_user := (th_user T)(k := [])\<rparr>)"

inductive_cases thread_stepE: "thread_step T T'"

definition start_threads :: "server \<Rightarrow> threads" where
  "start_threads s = \<lparr>th_server = s\<lparr>srv_logged_in := init_logged_in_users (srv_logged_in s)\<rparr>,
     th_user = (\<lambda>_. []), th_phase = (\<lambda>_. Idle), th_replies = []\<rparr>"

section \<open>What every interleaving keeps\<close>

text \<open>The sessions' users, as a multiset.\<close>

definition session_users :: "(int \<Rightarrow> string) \<Rightarrow> string multiset" where
  "session_users f = image_mset f (mset_set {k. f k \<noteq> []})"

definition one :: "string \<Rightarrow> string multiset" where
  "one u = (if u = [] then {#} else {#u#})"

lemma session_users_upd:
  assumes "finite {k. f k \<noteq> []}"
  shows "session_users (f(k := u)) + one (f k) = session_users f + one u"
    and "finite {j. (f(k := u)) j \<noteq> []}"
proof -
  define A where "A = {j. f j \<noteq> []} - {k}"
  have fin: "finite A" and k: "k \<notin> A" using assms by (simp_all add: A_def)
  have new: "{j. (f(k := u)) j \<noteq> []} = (if u = [] then A else insert k A)" by (auto simp: A_def)
  then show "finite {j. (f(k := u)) j \<noteq> []}" using fin by simp
  have old: "{j. f j \<noteq> []} = (if f k = [] then A else insert k A)" by (auto simp: A_def)
  have "image_mset (f(k := u)) (mset_set A) = image_mset f (mset_set A)"
    using fin k by (intro image_mset_cong) auto
  then have "session_users (f(k := u)) = image_mset f (mset_set A) + one u"
    using fin k unfolding session_users_def new by (cases "u = []") (simp_all add: one_def)
  moreover have "session_users f = image_mset f (mset_set A) + one (f k)"
    using fin k unfolding session_users_def old by (simp add: one_def)
  ultimately show "session_users (f(k := u)) + one (f k) = session_users f + one u"
    by (simp add: ac_simps)
qed

definition threads_inv :: "threads \<Rightarrow> bool" where
  "threads_inv T \<longleftrightarrow> length (srv_logged_in (th_server T)) = MAX_LOGGED_IN_USERS
     \<and> finite {k. th_user T k \<noteq> []}
     \<and> session_users (th_user T) \<subseteq># mset (active_names (srv_logged_in (th_server T)))
     \<and> (\<forall>k ok msg who. th_phase T k = Login_answered ok msg who \<longrightarrow> length who < MAX_ID_LEN)"

lemma session_users_drop:
  assumes "finite {k. f k \<noteq> []}" "session_users f \<subseteq># M"
  shows "session_users (f(k := [])) \<subseteq># M - one (f k)" "session_users (f(k := [])) \<subseteq># M"
proof -
  have eq: "session_users f = session_users (f(k := [])) + one (f k)"
    using session_users_upd(1) [OF assms(1), of k "[]"] by (simp add: one_def)
  show "session_users (f(k := [])) \<subseteq># M - one (f k)"
    using assms(2) unfolding eq subseteq_mset_def by (auto intro: add_le_imp_le_diff)
  then show "session_users (f(k := [])) \<subseteq># M" using diff_subset_eq_self subset_mset.order_trans by blast
qed

lemma session_users_set:
  assumes "finite {k. f k \<noteq> []}" "session_users f \<subseteq># M"
  shows "session_users (f(k := u)) \<subseteq># M + one u"
proof -
  have "session_users (f(k := u)) \<subseteq># session_users f + one u"
    using session_users_upd(1) [OF assms(1), of k u] by (metis mset_subset_eq_add_left)
  also have "\<dots> \<subseteq># M + one u" using assms(2) by simp
  finally show ?thesis .
qed

text \<open>What a message other than a login does to the table and the session.\<close>

lemma other_message_table:
  assumes "handle_message env k htype body me s = Some (reply, u, s')" "htype \<noteq> msg_code MSG_TYPE_LOGIN_REQ"
  shows "u = me \<and> srv_logged_in s' = srv_logged_in s
    \<or> u = [] \<and> me \<noteq> [] \<and> srv_logged_in s' = remove_logged_in_user me (srv_logged_in s)"
proof (cases "msg_of_code htype")
  case None
  then show ?thesis using assms by (auto simp: handle_message_def)
next
  case (Some m)
  then have "m \<noteq> MSG_TYPE_LOGIN_REQ" using assms(2) msg_of_code_Some by blast
  then show ?thesis using assms(1) Some
    by (cases reply; cases m)
      (auto simp: handle_message_def handle_logout_def split: if_splits dest!: handle_register_shape handle_score_shape)
qed

lemma login_record_table:
  assumes "login_record env k (ok, msg, who) s = (reply, u, s')" "length who < MAX_ID_LEN"
    and "length (srv_logged_in s) = MAX_LOGGED_IN_USERS"
  shows "length (srv_logged_in s') = MAX_LOGGED_IN_USERS \<and>
    (u = [] \<and> mset (active_names (srv_logged_in s)) \<subseteq># mset (active_names (srv_logged_in s'))
     \<or> mset (active_names (srv_logged_in s')) = add_mset u (mset (active_names (srv_logged_in s))))"
proof -
  obtain added tbl where a: "add_logged_in_user who k (srv_logged_in s) = (added, tbl)" by fastforce
  have "length tbl = MAX_LOGGED_IN_USERS" "\<not> added \<longrightarrow> tbl = srv_logged_in s"
      "added \<longrightarrow> mset (active_names tbl) = add_mset who (mset (active_names (srv_logged_in s)))"
    using add_logged_in_user_names [OF assms(2), of "srv_logged_in s" k] assms(3) a
      length_add_logged_in_user [of who k "srv_logged_in s"]
    by (auto simp: not_less [symmetric])
  then show ?thesis using assms a by (auto simp: login_record_def split: if_splits)
qed

lemma login_who_length: "login_user_impl io up pp d = Some (ok, msg, who) \<Longrightarrow> length who < MAX_ID_LEN"
  by (auto simp: login_user_impl_def length_strncpy_str split: if_splits find_result.splits bind_splits)

lemma logout_users:
  assumes "finite {j. f j \<noteq> []}" "session_users f \<subseteq># mset (active_names tbl)" "f k \<noteq> []"
  shows "session_users (f(k := [])) \<subseteq># mset (active_names (remove_logged_in_user (f k) tbl))"
  using session_users_drop(1) [OF assms(1,2), of k] assms(3)
  by (simp add: remove_logged_in_user_names one_def)

lemma session_users_same [simp]: "f(k := f k) = f"
  by simp

lemma thread_step_inv:
  assumes inv: "threads_inv T" and step: "thread_step T T'"
  shows "threads_inv T'"
proof -
  let ?tbl = "srv_logged_in (th_server T)"
  have len: "length ?tbl = MAX_LOGGED_IN_USERS" and fin: "finite {k. th_user T k \<noteq> []}"
    and sub: "session_users (th_user T) \<subseteq># mset (active_names ?tbl)"
    and who: "\<And>k ok msg who. th_phase T k = Login_answered ok msg who \<Longrightarrow> length who < MAX_ID_LEN"
    using inv by (auto simp: threads_inv_def)
  note upd = session_users_upd(2) [OF fin]
  note keep = threads_inv_def end_message_def enter_phase_def len fin sub
  show ?thesis
    using step
  proof (cases rule: thread_step.cases)
    case (th_message k htype env body reply u s)
    have out: "u = th_user T k \<and> srv_logged_in s = ?tbl
      \<or> u = [] \<and> th_user T k \<noteq> [] \<and> srv_logged_in s = remove_logged_in_user (th_user T k) ?tbl"
      using other_message_table th_message by blast
    then show ?thesis
    proof
      assume "u = th_user T k \<and> srv_logged_in s = ?tbl"
      then show ?thesis using th_message who by (auto simp: keep)
    next
      assume "u = [] \<and> th_user T k \<noteq> [] \<and> srv_logged_in s = remove_logged_in_user (th_user T k) ?tbl"
      then show ?thesis
        using th_message who logout_users [OF fin sub] upd [of k "[]"] len by (auto simp: threads_inv_def end_message_def)
    qed
  next
    case (th_login_taken k body slot)
    then show ?thesis using who by (auto simp: keep)
  next
    case (th_login_check k body)
    then show ?thesis using who by (auto simp: keep)
  next
    case (th_login_answer k body io ok msg w)
    then have "length w < MAX_ID_LEN"
      by (auto intro: login_who_length)
    then show ?thesis using th_login_answer who by (auto simp: keep)
  next
    case (th_login_record k ok msg w env reply u s)
    have w: "length w < MAX_ID_LEN" using who th_login_record by blast
    have out: "length (srv_logged_in s) = MAX_LOGGED_IN_USERS" and
      alt: "u = [] \<and> mset (active_names ?tbl) \<subseteq># mset (active_names (srv_logged_in s))
       \<or> mset (active_names (srv_logged_in s)) = add_mset u (mset (active_names ?tbl))"
      using login_record_table [of env k ok msg w "th_server T" reply u s] w len th_login_record by auto
    have "session_users ((th_user T)(k := u)) \<subseteq># mset (active_names (srv_logged_in s))"
      using alt
    proof
      assume "u = [] \<and> mset (active_names ?tbl) \<subseteq># mset (active_names (srv_logged_in s))"
      then show ?thesis using session_users_drop(2) [OF fin sub, of k] subset_mset.order_trans by blast
    next
      assume a: "mset (active_names (srv_logged_in s)) = add_mset u (mset (active_names ?tbl))"
      have "mset (active_names ?tbl) + one u \<subseteq># mset (active_names (srv_logged_in s))"
        unfolding a one_def by simp
      then show ?thesis using session_users_set [OF fin sub, of k u] subset_mset.order_trans by blast
    qed
    then show ?thesis using th_login_record out upd [of k u] who by (auto simp: threads_inv_def end_message_def)
  next
    case (th_register_refused k io body msg env)
    then show ?thesis using who by (auto simp: keep)
  next
    case (th_register_check k io body n p)
    then show ?thesis using who by (auto simp: keep)
  next
    case (th_register_store k n p io ok msg d env)
    then show ?thesis using who by (auto simp: keep)
  next
    case (th_hangup k)
    then show ?thesis
      using who logout_users [OF fin sub, of k] upd [of k "[]"] len fin sub
      by (cases "th_user T k = []") (auto simp: threads_inv_def end_session_def fun_upd_idem)
  qed
qed

interpretation interleaved: preserved thread_step threads_inv
  by unfold_locales (rule thread_step_inv)

lemma start_threads_inv:
  "length (srv_logged_in s) = MAX_LOGGED_IN_USERS \<Longrightarrow> threads_inv (start_threads s)"
  by (simp add: threads_inv_def start_threads_def session_users_def) (simp add: init_logged_in_users_def)

lemma handler_users_content:
  assumes "handle_message env k htype body me s = Some (reply, u, s')" "htype \<noteq> msg_code MSG_TYPE_REGISTER_REQ"
  shows "users_content (srv_db s') = users_content (srv_db s)"
proof (cases "msg_of_code htype")
  case None
  then show ?thesis using assms by (auto simp: handle_message_def)
next
  case (Some m)
  have score: "users_content (srv_db s') = users_content (srv_db s)"
    if h: "handle_score env body me s = Some (reply, u, s')"
  proof (cases "me = []")
    case True
    then show ?thesis using h by (auto simp: handle_score_def)
  next
    case False
    then obtain n where n: "int_at body 0 = Some n" using h by (auto simp: handle_score_def split: bind_splits)
    obtain ok d where a: "add_score_to_file (env_scores env) me n (srv_db s) = (ok, d)" by fastforce
    have "users_content d = users_content (srv_db s)" using users_add_score a by (metis snd_conv)
    then show ?thesis using h False n a
      by (auto simp: handle_score_def submit_score_impl_def split: if_splits)
  qed
  have "m \<noteq> MSG_TYPE_REGISTER_REQ" using assms(2) Some msg_of_code_Some by blast
  moreover obtain rt rb where r: "reply = (rt, rb)" by (cases reply)
  ultimately consider "m = MSG_TYPE_SCORE_SUBMIT_REQ" | "m = MSG_TYPE_LOGIN_REQ" | "m = MSG_TYPE_LOGOUT_REQ"
    | "s' = s" using assms(1) Some by (cases m) (auto simp: handle_message_def)
  then show ?thesis
  proof cases
    case 1
    then show ?thesis using score assms(1) Some by (simp add: handle_message_def)
  next
    case 2
    then have "srv_db s' = srv_db s"
      using handle_login_shape assms(1) Some r by (auto simp: handle_message_def)
    then show ?thesis by simp
  next
    case 3
    then have "srv_db s' = srv_db s"
      using handle_logout_shape assms(1) Some r by (auto simp: handle_message_def)
    then show ?thesis by simp
  qed simp
qed

lemma register_store_content:
  "register_store io n p d = (ok, msg, d') \<Longrightarrow> \<exists>t. users_content d' = users_content d @ t"
  using add_user_content [of io "\<lparr>ud_username = strncpy_str MAX_ID_LEN n, ud_password = strncpy_str MAX_PW_LEN p\<rparr>" d]
  by (auto simp: register_store_def Let_def split: prod.splits if_splits)

definition grown_from :: "db \<Rightarrow> threads \<Rightarrow> bool" where
  "grown_from d T \<longleftrightarrow> (\<exists>t. users_content (srv_db (th_server T)) = users_content d @ t)"

interpretation grown: preserved thread_step "grown_from d" for d
proof
  fix T T'
  assume grown: "grown_from d T" and step: "thread_step T T'"
  have more: "\<exists>t. users_content (srv_db (th_server T')) = users_content (srv_db (th_server T)) @ t"
    using step
  proof (cases rule: thread_step.cases)
    case (th_message k htype env body reply u s)
    then show ?thesis using handler_users_content by (fastforce simp: end_message_def)
  next
    case (th_login_record k ok msg w env reply u s)
    then have "srv_db s = srv_db (th_server T)" by (auto simp: login_record_def split: if_splits prod.splits)
    then show ?thesis using th_login_record by (simp add: end_message_def)
  next
    case (th_register_store k n p io ok msg d env)
    then show ?thesis using register_store_content by (simp add: end_message_def)
  next
    case (th_hangup k)
    then show ?thesis by (simp add: end_session_def)
  qed (simp_all add: end_message_def enter_phase_def)
  then show "grown_from d T'" using grown by (auto simp: grown_from_def)
qed

lemma stored_password_grown:
  assumes "users_inv d" "stored_password d u = Some p" "users_content d' = users_content d @ t"
  shows "stored_password d' u = Some p"
proof -
  obtain us where us: "\<forall>up \<in> set us. user_ok up" "users_content d = users_text us"
    using assms(1) by (auto simp: users_inv_def)
  have "map_of us u = Some p"
    using assms(2) find_user_text [OF us(1), of d "[]" u] us(2)
    by (auto simp: stored_password_def split: option.splits)
  then show ?thesis
    using find_user_text [OF us(1), of d' t u] us(2) assms(3) by (simp add: stored_password_def)
qed

section \<open>Properties\<close>

text \<open>
  Claim C11. Under every interleaving of the threads, with any bytes in the messages and any failures of
  the disk, each logged-in session has an entry of the login table of its own, so that at most 100
  sessions are logged in at any time.
\<close>

theorem sessions_bounded:
  assumes "length (srv_logged_in s) = MAX_LOGGED_IN_USERS" "thread_step\<^sup>*\<^sup>* (start_threads s) T"
  shows "finite {k. th_user T k \<noteq> []} \<and> card {k. th_user T k \<noteq> []} \<le> MAX_LOGGED_IN_USERS
    \<and> session_users (th_user T) \<subseteq># mset (active_names (srv_logged_in (th_server T)))"
proof -
  have inv: "threads_inv T" using interleaved.inv_steps [OF assms(2) start_threads_inv [OF assms(1)]] .
  then have "size (session_users (th_user T)) \<le> length (active_names (srv_logged_in (th_server T)))"
    unfolding threads_inv_def by (metis size_mset size_mset_mono)
  then show ?thesis using inv length_active_names [of "srv_logged_in (th_server T)"]
    by (simp add: threads_inv_def session_users_def)
qed

text \<open>
  Claim C10. If the users file starts with complete, well-formed records, whatever follows them, and one of these
  is for a name, the lookup of that name answers with the first such record's password in every later state, from
  any state of the threads on: no message, no interleaving of the threads and no failed or torn write makes it
  answer otherwise. So an account lasts from the moment its complete line stands behind complete lines, also one
  registered while the server runs. Nothing is said of a name whose only line is incomplete or comes after an
  incomplete one: an incomplete line is glued to the next one that is appended.
\<close>

theorem accounts_survive:
  assumes "\<forall>up \<in> set us. user_ok up" "users_content (srv_db (th_server T)) = users_text us @ rest"
    and "map_of us u = Some p" "thread_step\<^sup>*\<^sup>* T T'"
  shows "stored_password (srv_db (th_server T')) u = Some p"
proof -
  have "grown_from (srv_db (th_server T)) T" by (simp add: grown_from_def)
  from grown.inv_steps [OF assms(4) this] obtain t where
    "users_content (srv_db (th_server T')) = users_text us @ rest @ t"
    using assms(2) by (auto simp: grown_from_def)
  then show ?thesis using find_user_text [OF assms(1), of _ "rest @ t" u] assms(3) by (simp add: stored_password_def)
qed

lemma step_chain:
  "thread_step a b \<Longrightarrow> thread_step b c \<Longrightarrow> thread_step c d \<Longrightarrow> thread_step d e \<Longrightarrow> thread_step\<^sup>*\<^sup>* a e"
  by (meson converse_rtranclp_into_rtranclp r_into_rtranclp)

lemma idle_start [simp]: "th_phase (start_threads s) k = Idle" "th_user (start_threads s) k = []"
  "srv_db (th_server (start_threads s)) = srv_db s" "th_replies (start_threads s) = []"
  "active_names (srv_logged_in (th_server (start_threads s))) = []"
  by (simp_all add: start_threads_def)

lemma phase_simps [simp]:
  "th_phase (enter_phase k ph T) = (th_phase T)(k := ph)" "th_server (enter_phase k ph T) = th_server T"
  "th_user (enter_phase k ph T) = th_user T" "th_replies (enter_phase k ph T) = th_replies T"
  "th_phase (end_message k r u s T) = (th_phase T)(k := Idle)" "th_server (end_message k r u s T) = s"
  "th_user (end_message k r u s T) = (th_user T)(k := u)" "th_replies (end_message k r u s T) = th_replies T @ [(k, r)]"
  by (simp_all add: enter_phase_def end_message_def)

lemma register_check_free:
  assumes "user_ok (u, p)" "u \<noteq> []" "p \<noteq> []" "stored_password d u = None"
  shows "register_check io_ok (ptr_at (Some (enc_credentials u p)) 0)
    (ptr_at (Some (enc_credentials u p)) MAX_ID_LEN) d = Some (Inr (u, p))"
proof -
  have "nul_free u" "nul_free p" "length u < MAX_ID_LEN" "length p < MAX_PW_LEN"
    using assms(1) by (auto simp: user_ok_def)
  then show ?thesis
    using ptr_at_credentials [of u p] assms by (simp add: register_check_def stored_password_none del: ptr_at.simps)
qed

lemma register_store_ok:
  assumes "user_ok (u, p)"
  shows "\<exists>msg. register_store io_ok u p d = (True, msg, store_user u p d) \<and> length msg < MAX_MSG_LEN"
proof -
  have len: "length u < MAX_ID_LEN" "length p < MAX_PW_LEN" using assms by (auto simp: user_ok_def)
  have "fst (add_user_to_file io_ok \<lparr>ud_username = u, ud_password = p\<rparr> d)" by (simp add: add_user_to_file_def)
  then have "add_user_to_file io_ok \<lparr>ud_username = u, ud_password = p\<rparr> d = (True, store_user u p d)"
    by (simp add: store_user_def prod_eq_iff)
  then show ?thesis using len by (simp add: register_store_def)
qed

text \<open>
  Claim C16. The search for a name and the append of its line hold the mutex separately, so two clients
  that register the same fresh name at the same time can both be told that they succeeded; only the
  first password works afterwards.
\<close>

theorem registration_race:
  assumes "users_inv (srv_db s)" "stored_password (srv_db s) u = None" "user_ok (u, p)" "user_ok (u, q)"
    and "u \<noteq> []" "p \<noteq> []" "q \<noteq> []" "k \<noteq> l"
  shows "\<exists>T r1 r2. thread_step\<^sup>*\<^sup>* (start_threads s) T
    \<and> th_replies T = [(k, (MSG_TYPE_REGISTER_RESP, r1)), (l, (MSG_TYPE_REGISTER_RESP, r2))]
    \<and> response_success r1 = 1 \<and> response_success r2 = 1
    \<and> stored_password (srv_db (th_server T)) u = Some p"
proof -
  let ?T0 = "start_threads s"
  let ?T1 = "enter_phase k (Register_checked u p) ?T0"
  let ?T2 = "enter_phase l (Register_checked u q) ?T1"
  let ?d = "srv_db s"
  obtain m1 where m1: "register_store io_ok u p ?d = (True, m1, store_user u p ?d)" "length m1 < MAX_MSG_LEN"
    using register_store_ok [OF assms(3)] by blast
  obtain m2 where m2: "register_store io_ok u q (store_user u p ?d) = (True, m2, store_user u q (store_user u p ?d))"
      "length m2 < MAX_MSG_LEN"
    using register_store_ok [OF assms(4)] by blast
  let ?T3 = "end_message k (register_reply sample_env True m1) [] ((th_server ?T0)\<lparr>srv_db := store_user u p ?d\<rparr>) ?T2"
  let ?T4 = "end_message l (register_reply sample_env True m2) []
     ((th_server ?T3)\<lparr>srv_db := store_user u q (store_user u p ?d)\<rparr>) ?T3"
  have "thread_step ?T0 ?T1"
    using th_register_check [OF _ register_check_free [OF assms(3,5,6)], of ?T0 k] assms(2) by simp
  moreover have "thread_step ?T1 ?T2"
    using th_register_check [OF _ register_check_free [OF assms(4,5,7)], of ?T1 l] assms(2,8) by simp
  moreover have "thread_step ?T2 ?T3"
    using th_register_store [of ?T2 k u p io_ok True m1 "store_user u p ?d" sample_env] m1 assms(8) by simp
  moreover have "thread_step ?T3 ?T4"
    using th_register_store [of ?T3 l u q io_ok True m2 "store_user u q (store_user u p ?d)" sample_env] m2 assms(8)
    by simp
  ultimately have run: "thread_step\<^sup>*\<^sup>* ?T0 ?T4" by (rule step_chain)
  have inv: "users_inv (store_user u p ?d)" using users_dir.inv_enter [OF assms(1,3)] .
  have "stored_password (store_user u q (store_user u p ?d)) u = Some p"
    using users_dir.lookup_enter [OF inv assms(4), of u] users_dir.lookup_enter [OF assms(1,3), of u] assms(2) by simp
  then show ?thesis
    using run m1 m2 by (intro exI [of _ ?T4]) (simp add: register_reply_def)
qed

theorem registration_race_witness:
  "\<exists>T. thread_step\<^sup>*\<^sup>* (start_threads fresh_server) T \<and> length (th_replies T) = 2
     \<and> stored_password (srv_db (th_server T)) ''bob'' = Some ''p1''"
proof -
  have db: "srv_db fresh_server = empty_db" by (simp add: fresh_server_def)
  show ?thesis
    using registration_race [of fresh_server "''bob''" "''p1''" "''p2''" 4 5]
    by (simp add: db user_ok_def) (metis length_Cons list.size(3) One_nat_def Suc_1)
qed

lemma login_phases:
  assumes "th_phase T k = Idle" "nul_free u" "nul_free p" "length u < MAX_ID_LEN" "length p < MAX_PW_LEN"
    and "u \<notin> set (active_names (srv_logged_in (th_server T)))"
    and "stored_password (srv_db (th_server T)) u = Some p"
  shows "\<exists>msg. length msg < MAX_MSG_LEN
    \<and> thread_step T (enter_phase k (Login_checked (Some (enc_credentials u p))) T)
    \<and> (\<forall>T'. th_phase T' k = Login_checked (Some (enc_credentials u p)) \<and> srv_db (th_server T') = srv_db (th_server T)
          \<longrightarrow> thread_step T' (enter_phase k (Login_answered True msg u) T'))"
proof -
  let ?msg = "snprintf_str MAX_MSG_LEN (''Login successful for '' @ quoted u @ ''.'')"
  have ptr: "ptr_at (Some (enc_credentials u p)) 0 = Str u" "ptr_at (Some (enc_credentials u p)) MAX_ID_LEN = Str p"
    using ptr_at_credentials [OF assms(2,3)] assms(4,5) by auto
  have "is_user_already_logged_in (srv_logged_in (th_server T)) (ptr_at (Some (enc_credentials u p)) 0) = Some (-1)"
    unfolding ptr using not_logged_in_iff assms(6) by blast
  from th_login_check [OF assms(1) this]
  have "thread_step T (enter_phase k (Login_checked (Some (enc_credentials u p))) T)" .
  moreover have "login_user_impl io_ok (ptr_at (Some (enc_credentials u p)) 0)
      (ptr_at (Some (enc_credentials u p)) MAX_ID_LEN) (srv_db (th_server T)) = Some (True, ?msg, u)"
    unfolding ptr using assms(4,7) by (simp add: login_user_impl_Str stored_password_find)
  ultimately show ?thesis
    by (intro exI [of _ ?msg]) (auto intro: th_login_answer)
qed

text \<open>
  Claim C7. The check of the login table and the entry into it hold the mutex separately: two clients that
  log in to the same account at the same time can both be accepted, both sessions are then that user's,
  and the table holds the name twice.
\<close>

theorem double_login_race:
  assumes "user_ok (u, p)" "u \<noteq> []" "stored_password (srv_db s) u = Some p" "k \<noteq> l"
    and "length (srv_logged_in s) = MAX_LOGGED_IN_USERS"
  shows "\<exists>T r1 r2. thread_step\<^sup>*\<^sup>* (start_threads s) T \<and> th_user T k = u \<and> th_user T l = u
    \<and> th_replies T = [(k, (MSG_TYPE_LOGIN_RESP, r1)), (l, (MSG_TYPE_LOGIN_RESP, r2))]
    \<and> response_success r1 = 1 \<and> response_success r2 = 1
    \<and> mset (active_names (srv_logged_in (th_server T))) = {#u, u#}"
proof -
  let ?T0 = "start_threads s"
  let ?body = "Some (enc_credentials u p)"
  have ok: "nul_free u" "nul_free p" "length u < MAX_ID_LEN" "length p < MAX_PW_LEN"
    using assms(1) by (auto simp: user_ok_def)
  let ?T1 = "enter_phase k (Login_checked ?body) ?T0"
  let ?T2 = "enter_phase l (Login_checked ?body) ?T1"
  obtain m1 where m1: "length m1 < MAX_MSG_LEN" "thread_step ?T0 ?T1"
      "thread_step ?T2 (enter_phase k (Login_answered True m1 u) ?T2)"
    using login_phases [of ?T0 k, OF _ ok] assms(3,4) by auto
  let ?T3 = "enter_phase k (Login_answered True m1 u) ?T2"
  obtain m2 where m2: "length m2 < MAX_MSG_LEN" "thread_step ?T1 ?T2"
      "thread_step ?T3 (enter_phase l (Login_answered True m2 u) ?T3)"
    using login_phases [of ?T1 l, OF _ ok] assms(3,4) by auto
  let ?T4 = "enter_phase l (Login_answered True m2 u) ?T3"
  let ?tbl = "srv_logged_in (th_server ?T0)"
  have tlen: "length ?tbl = MAX_LOGGED_IN_USERS"
    using assms(5) by (simp add: start_threads_def init_logged_in_users_def)
  obtain b1 t1 where a1: "add_logged_in_user u k ?tbl = (b1, t1)" by fastforce
  have t1: "b1" "mset (active_names t1) = {#u#}" "length t1 = MAX_LOGGED_IN_USERS"
    using add_logged_in_user_names(1) [OF ok(3), of ?tbl k] a1 tlen length_add_logged_in_user [of u k ?tbl] by auto
  then have "length (active_names t1) = 1" by (metis size_mset size_single)
  moreover obtain b2 t2 where a2: "add_logged_in_user u l t1 = (b2, t2)" by fastforce
  ultimately have t2: "b2" "mset (active_names t2) = {#u, u#}"
    using add_logged_in_user_names(1) [OF ok(3), of t1 l] t1 by auto
  let ?r1 = "enc_response (env_junk sample_env) True m1"
  let ?s1 = "(th_server ?T0)\<lparr>srv_logged_in := t1\<rparr>"
  let ?T5 = "end_message k (MSG_TYPE_LOGIN_RESP, ?r1) u ?s1 ?T4"
  have "thread_step ?T4 ?T5"
    by (rule th_login_record [of _ _ True m1 u sample_env]) (use assms(4) a1 t1 in \<open>simp_all add: login_record_def\<close>)
  let ?r2 = "enc_response (env_junk sample_env) True m2"
  let ?T6 = "end_message l (MSG_TYPE_LOGIN_RESP, ?r2) u (?s1\<lparr>srv_logged_in := t2\<rparr>) ?T5"
  have "thread_step ?T5 ?T6"
    by (rule th_login_record [of _ _ True m2 u sample_env]) (use assms(4) a2 t2 in \<open>simp_all add: login_record_def\<close>)
  then have "thread_step\<^sup>*\<^sup>* ?T4 ?T6" using \<open>thread_step ?T4 ?T5\<close> by (simp add: converse_rtranclp_into_rtranclp)
  then have "thread_step\<^sup>*\<^sup>* ?T0 ?T6" using step_chain [OF m1(2) m2(2) m1(3) m2(3)] by simp
  then show ?thesis using m1(1) m2(1) t2(2) assms(4) by (intro exI [of _ ?T6]) simp
qed

theorem double_login_race_witness:
  "\<exists>T. thread_step\<^sup>*\<^sup>* (start_threads bob_server) T \<and> th_user T 4 = ''bob'' \<and> th_user T 5 = ''bob''"
  using double_login_race [of "''bob''" "''pw''" bob_server 4 5]
  by (auto simp: user_ok_def stored_password_find bob_server_table)

lemma end_after_phase [simp]: "end_message k r u s (enter_phase k ph T) = end_message k r u s T"
  by (simp add: end_message_def enter_phase_def)

lemma enter_after_phase [simp]: "enter_phase k ph (enter_phase k ph' T) = enter_phase k ph T"
  by (simp add: enter_phase_def)

lemma login_is_a_run:
  assumes "th_phase T k = Idle" "handle_login env k body (th_user T k) (th_server T) = Some (reply, u, s)"
  shows "thread_step\<^sup>*\<^sup>* T (end_message k reply u s T)"
proof -
  obtain slot where slot: "is_user_already_logged_in (srv_logged_in (th_server T)) (ptr_at body 0) = Some slot"
    using assms(2) by (auto simp: login_pieces split: option.splits)
  show ?thesis
  proof (cases "slot = -1")
    case False
    then show ?thesis using th_login_taken [OF assms(1) slot] assms(2) slot by (auto simp: login_pieces)
  next
    case True
    obtain ok msg who where l: "login_user_impl (env_find env) (ptr_at body 0) (ptr_at body MAX_ID_LEN) (srv_db (th_server T))
        = Some (ok, msg, who)" and rec: "login_record env k (ok, msg, who) (th_server T) = (reply, u, s)"
      using assms(2) slot True by (auto simp: login_pieces split: option.splits)
    let ?T1 = "enter_phase k (Login_checked body) T" and ?T2 = "enter_phase k (Login_answered ok msg who) T"
    have "thread_step T ?T1" using th_login_check [OF assms(1)] slot True by simp
    moreover have "thread_step ?T1 ?T2" using th_login_answer [of ?T1 k body "env_find env" ok msg who] l by simp
    moreover have "thread_step ?T2 (end_message k reply u s T)"
      using th_login_record [of ?T2 k ok msg who env reply u s] rec by simp
    ultimately show ?thesis by (meson converse_rtranclp_into_rtranclp r_into_rtranclp)
  qed
qed

lemma register_is_a_run:
  assumes "th_phase T k = Idle" "handle_register env body (th_user T k) (th_server T) = Some (reply, u, s)"
  shows "thread_step\<^sup>*\<^sup>* T (end_message k reply u s T)"
proof -
  obtain c where c: "register_check (env_find env) (ptr_at body 0) (ptr_at body MAX_ID_LEN) (srv_db (th_server T)) = Some c"
    using assms(2) by (auto simp: register_pieces split: option.splits)
  show ?thesis
  proof (cases c)
    case (Inl msg)
    then show ?thesis using th_register_refused [of T k "env_find env" body msg env] assms c
      by (auto simp: register_pieces)
  next
    case (Inr np)
    obtain n p where np: "np = (n, p)" by (cases np)
    obtain ok msg d where st: "register_store (env_add env) n p (srv_db (th_server T)) = (ok, msg, d)"
      by (cases "register_store (env_add env) n p (srv_db (th_server T))")
    let ?T1 = "enter_phase k (Register_checked n p) T"
    have "thread_step T ?T1" using th_register_check [of T k "env_find env" body n p] assms(1) c Inr np by simp
    moreover have "thread_step ?T1 (end_message k reply u s T)"
      using th_register_store [of ?T1 k n p "env_add env" ok msg d env] st c Inr np assms(2)
      by (simp add: register_pieces)
    ultimately show ?thesis by (meson converse_rtranclp_into_rtranclp r_into_rtranclp)
  qed
qed

text \<open>
  What \<open>handle_message\<close> does in one go is one of the runs: the critical sections one after the other.
\<close>

lemma message_is_a_run:
  assumes "th_phase T k = Idle"
    and "handle_message env k htype body (th_user T k) (th_server T) = Some (reply, u, s)"
  shows "thread_step\<^sup>*\<^sup>* T (end_message k reply u s T)"
proof -
  consider "htype = msg_code MSG_TYPE_LOGIN_REQ" | "htype = msg_code MSG_TYPE_REGISTER_REQ"
    | "htype \<noteq> msg_code MSG_TYPE_LOGIN_REQ" "htype \<noteq> msg_code MSG_TYPE_REGISTER_REQ" by blast
  then show ?thesis
  proof cases
    case 1
    then show ?thesis using login_is_a_run [OF assms(1)] assms(2) by (simp add: handle_message_def)
  next
    case 2
    then show ?thesis using register_is_a_run [OF assms(1)] assms(2) by (simp add: handle_message_def)
  next
    case 3
    then show ?thesis using th_message [OF assms(1) _ _ assms(2)] by blast
  qed
qed

text \<open>Bob logs in on the socket 4.\<close>

lemma bob_session_run:
  obtains T where "thread_step\<^sup>*\<^sup>* (start_threads bob_server) T" "th_user T = (\<lambda>_. [])(4 := ''bob'')"
proof -
  have init: "th_server (start_threads bob_server) = bob_server" "th_user (start_threads bob_server) = (\<lambda>_. [])"
    by (simp_all add: start_threads_def init_logged_in_users_def bob_server_table)
  obtain reply s where h: "handle_message sample_env 4 3 (Some (enc_credentials ''bob'' ''pw'')) [] bob_server
     = Some (reply, ''bob'', s)" using bob_logs_in by blast
  have "thread_step\<^sup>*\<^sup>* (start_threads bob_server) (end_message 4 reply ''bob'' s (start_threads bob_server))"
    using message_is_a_run [of "start_threads bob_server" 4] h init(1) by (metis idle_start(1,2))
  then show thesis using that init(2) by simp
qed

theorem sessions_bounded_witness:
  "\<exists>T. thread_step\<^sup>*\<^sup>* (start_threads bob_server) T \<and> th_user T 4 = ''bob''
     \<and> card {k. th_user T k \<noteq> []} = 1 \<and> ''bob'' \<in> set (active_names (srv_logged_in (th_server T)))"
proof -
  obtain T where T: "thread_step\<^sup>*\<^sup>* (start_threads bob_server) T" "th_user T = (\<lambda>_. [])(4 := ''bob'')"
    by (rule bob_session_run)
  have k: "{k. th_user T k \<noteq> []} = {4}" by (auto simp: T(2))
  then have "session_users (th_user T) = {#''bob''#}" by (simp add: session_users_def T(2))
  then have "{#''bob''#} \<subseteq># mset (active_names (srv_logged_in (th_server T)))"
    using sessions_bounded [OF _ T(1)] by (simp add: bob_server_table)
  then have "''bob'' \<in># mset (active_names (srv_logged_in (th_server T)))" by (rule mset_subset_eqD) simp
  then have "''bob'' \<in> set (active_names (srv_logged_in (th_server T)))" by simp
  then show ?thesis using T k by (intro exI [of _ T]) simp
qed

text \<open>Bob registers while the server runs; the file holds a torn line behind his when another registration fails.\<close>

theorem accounts_survive_witness:
  "\<exists>T T'. thread_step\<^sup>*\<^sup>* (start_threads fresh_server) T \<and> thread_step\<^sup>*\<^sup>* T T' \<and> length (th_replies T') = 2
     \<and> stored_password (srv_db fresh_server) ''bob'' = None
     \<and> users_content (srv_db (th_server T')) \<noteq> users_content (srv_db (th_server T))
     \<and> stored_password (srv_db (th_server T')) ''bob'' = Some ''pw''"
proof -
  let ?io = "io_ok\<lparr>io_write_stop := Some 2\<rparr>" and ?d = "store_user ''bob'' ''pw'' empty_db"
  let ?T0 = "start_threads fresh_server"
  let ?T1 = "enter_phase 4 (Register_checked ''bob'' ''pw'') ?T0"
  have db0: "srv_db fresh_server = empty_db" by (simp add: fresh_server_def)
  have ok: "user_ok (''bob'', ''pw'')" "user_ok (''amy'', ''xx'')" by (simp_all add: user_ok_def)
  have "stored_password empty_db n = None" for n
    by (simp add: stored_password_def find_user_in_file_ok) (simp add: users_content_def empty_db_def)
  then have none: "stored_password empty_db ''bob'' = None" "stored_password ?d ''amy'' = None"
    using users_dir.lookup_enter [OF users_inv_empty ok(1), of "''amy''"] by simp_all
  have content: "users_content ?d = users_text [(''bob'', ''pw'')]"
    by (simp add: store_user_def add_user_to_file_def users_content_def empty_db_def)
  obtain m1 where m1: "register_store io_ok ''bob'' ''pw'' empty_db = (True, m1, ?d)" using register_store_ok [OF ok(1)] by blast
  let ?T2 = "end_message 4 (register_reply sample_env True m1) [] ((th_server ?T0)\<lparr>srv_db := ?d\<rparr>) ?T1"
  let ?T3 = "enter_phase 5 (Register_checked ''amy'' ''xx'') ?T2"
  obtain m2 d2 where m2: "register_store ?io ''amy'' ''xx'' ?d = (False, m2, d2)" "users_content d2 = users_content ?d @ ''am''"
    by (simp add: register_store_def add_user_to_file_def append_line_def open_append_def users_content_def user_line_def
        strncpy_str_def io_ok_def split: option.splits)
  let ?T4 = "end_message 5 (register_reply sample_env False m2) [] ((th_server ?T2)\<lparr>srv_db := d2\<rparr>) ?T3"
  have free: "''bob'' \<noteq> []" "''pw'' \<noteq> []" "''amy'' \<noteq> []" "''xx'' \<noteq> []" by simp_all
  have "thread_step ?T0 ?T1"
    using th_register_check [OF _ register_check_free [OF ok(1) free(1,2)], of ?T0 4] db0 none(1) by simp
  moreover have "thread_step ?T1 ?T2"
    using th_register_store [of ?T1 4 "''bob''" "''pw''" io_ok True m1 ?d sample_env] m1 db0 by simp
  ultimately have run: "thread_step\<^sup>*\<^sup>* ?T0 ?T2" by (meson converse_rtranclp_into_rtranclp r_into_rtranclp)
  have "thread_step ?T2 ?T3"
    using th_register_check [OF _ register_check_free [OF ok(2) free(3,4)], of ?T2 5] none(2) by simp
  moreover have "thread_step ?T3 ?T4"
    using th_register_store [of ?T3 5 "''amy''" "''xx''" ?io False m2 d2 sample_env] m2 by simp
  ultimately have more: "thread_step\<^sup>*\<^sup>* ?T2 ?T4" by (meson converse_rtranclp_into_rtranclp r_into_rtranclp)
  have "stored_password (srv_db (th_server ?T4)) ''bob'' = Some ''pw''"
    by (rule accounts_survive [OF _ _ _ more, of "[(''bob'', ''pw'')]" "[]"]) (use ok(1) content in simp_all)
  moreover have "users_content (srv_db (th_server ?T4)) \<noteq> users_content (srv_db (th_server ?T2))" using m2(2) by simp
  ultimately show ?thesis using run more none(1) db0
    by (intro exI [of _ ?T2] exI [of _ ?T4]) simp
qed

end
