(* ===== verification/Server_Connection.thy ===== *)
theory Server_Connection
  imports Server_System
begin

text \<open>
  The whole of \<open>handle_client\<close> over a byte stream: a client's requests in, the replies' frames out;
  and what a client that does not keep to the protocol, or goes away, makes of it.
\<close>

section \<open>Receiving one message\<close>

definition frame :: "message_type \<Rightarrow> bytes \<Rightarrow> bytes" where
  "frame t b = enc_header \<lparr>hdr_type = msg_code t, hdr_length = length b\<rparr> @ b"

definition body_bytes :: "bytes option \<Rightarrow> bytes" where
  "body_bytes b = (case b of None \<Rightarrow> [] | Some c \<Rightarrow> c)"

definition request_frame :: "request \<Rightarrow> bytes" where
  "request_frame r = frame (request_type r) (body_bytes (request_body r))"

lemma recv_message_frame:
  assumes "stream evs = enc_header \<lparr>hdr_type = t, hdr_length = length b\<rparr> @ b @ rest"
    and "in_int32 t" "length b \<le> MAX_BODY" "malloc"
  shows "\<exists>evs'. recv_message malloc evs = Inr (t, if b = [] then None else Some b, evs')
    \<and> stream evs' = rest \<and> stream_fails evs' = stream_fails evs"
proof -
  let ?h = "enc_header \<lparr>hdr_type = t, hdr_length = length b\<rparr>"
  obtain e1 where e1: "recv_all (length ?h) [] evs = (Received ?h, e1)" "stream e1 = b @ rest"
      "stream_fails e1 = stream_fails evs"
    using recv_all_ok assms(1) by blast
  have dec: "dec_header ?h = \<lparr>hdr_type = t, hdr_length = length b\<rparr>"
    using dec_enc_header [of "\<lparr>hdr_type = t, hdr_length = length b\<rparr>" "[]"] assms(2,3) by simp
  obtain e2 where e2: "recv_all (length b) [] e1 = (Received b, e2)" "stream e2 = rest"
      "stream_fails e2 = stream_fails e1"
    using recv_all_ok e1(2) by blast
  show ?thesis
  proof (cases "b = []")
    case True
    then show ?thesis using e1 dec by (simp add: recv_message_def)
  next
    case False
    then show ?thesis using e1 e2 dec assms(3,4) by (simp add: recv_message_def)
  qed
qed

lemma recv_message_end:
  assumes "length (stream evs) < HEADER_SIZE" "stream_fails evs"
  shows "recv_message malloc evs = Inl True"
proof -
  have "fst (recv_all HEADER_SIZE [] evs) = Recv_failed"
    using recv_all_stream [of "[]" HEADER_SIZE evs] assms by simp
  then show ?thesis by (cases "recv_all HEADER_SIZE [] evs") (simp add: recv_message_def)
qed

lemma send_all_whole:
  assumes "buf \<noteq> []" "length buf \<le> n"
  shows "send_all buf (Sent n # evs) = (Send_ok, buf, evs)"
  using assms by (cases buf) auto

lemma send_response_whole:
  assumes "body \<noteq> []" "length body \<le> n" "HEADER_SIZE \<le> n"
  shows "send_response t body (Sent n # Sent n # evs) = (Send_ok, frame t body, evs)"
  using assms send_all_whole [of "enc_header \<lparr>hdr_type = msg_code t, hdr_length = length body\<rparr>" n]
    send_all_whole [of body n]
  by (simp add: send_response_def frame_def)

section \<open>A client that keeps to the protocol\<close>

fun service_run :: "request list \<Rightarrow> string \<Rightarrow> service \<Rightarrow> (request \<times> bool \<times> service) list \<times> string \<times> service" where
  "service_run [] me v = ([], me, v)"
| "service_run (r # rs) me v =
     (case service_step r me v of (ok, me', v') \<Rightarrow>
        (case service_run rs me' v' of (tr, me'', v'') \<Rightarrow> ((r, ok, v) # tr, me'', v'')))"

definition service_leave :: "string \<Rightarrow> service \<Rightarrow> service" where
  "service_leave me v = (if me = [] then v else v\<lparr>online := online v - {me}\<rparr>)"

text \<open>The output is one frame per request, in order, and each says what the service answers.\<close>

fun replies_to :: "(request \<times> bool \<times> service) list \<Rightarrow> string list \<Rightarrow> bytes \<Rightarrow> bool" where
  "replies_to [] ws out \<longleftrightarrow> out = []"
| "replies_to ((r, ok, v) # tr) ws out \<longleftrightarrow>
     (\<exists>rb rest. out = frame (fst (reply_shape (msg_code (request_type r)))) rb @ rest
        \<and> length rb = snd (reply_shape (msg_code (request_type r)))
        \<and> reply_says r ok v ws rb \<and> replies_to tr ws rest)"

lemma request_body_length: "length (body_bytes (request_body r)) \<le> MAX_BODY"
  by (cases r) (simp_all add: body_bytes_def enc_score_request_def)

lemma request_body_shape:
  "(if body_bytes (request_body r) = [] then None else Some (body_bytes (request_body r))) = request_body r"
proof (cases r)
  case (Submit n)
  have "enc_score_request n \<noteq> []"
    by (metis enc_score_request_def length_enc(1) list.size(3) zero_neq_numeral)
  then show ?thesis using Submit by (simp add: body_bytes_def)
qed (force simp: body_bytes_def dest: arg_cong [of _ _ length])+

lemma end_session_rel:
  "service_rel s v \<Longrightarrow> service_rel (end_session me s) (service_leave me v)"
  using table_inv_remove set_remove_logged_in_user
  by (auto simp: service_rel_def end_session_def service_leave_def words_ok_def)

lemma reply_shape_size: "0 < snd (reply_shape t)" "snd (reply_shape t) \<le> WORDLIST_SIZE"
  by (simp_all add: reply_shape_def split: option.split message_type.split)

definition calm :: "conn_env \<Rightarrow> bool" where
  "calm env \<longleftrightarrow> (\<forall>i. conn_malloc env i \<and> conn_others env i = (\<lambda>s. s) \<and> env_works (conn_msg env i))"

lemma session_run:
  assumes "calm env" "\<forall>r \<in> set reqs. request_ok r" "WORDLIST_SIZE \<le> N" "stream_fails revs"
    and "service_rel s v" "session_rel v me" "stream revs = concat (map request_frame reqs)"
    and "service_run reqs me v = (tr, me', v')"
  shows "\<exists>out s'. handle_client env i k me s revs (replicate (2 * length reqs) (Sent N)) = (Conn_closed, s', out)
    \<and> replies_to tr (srv_words s) out \<and> service_rel s' (service_leave me' v')"
  using assms(2-)
proof (induction reqs arbitrary: i me s v revs tr)
  case Nil
  have "recv_message (conn_malloc env i) revs = Inl True" using Nil.prems by (intro recv_message_end) simp_all
  then show ?case using Nil.prems end_session_rel assms(1)
    by (subst handle_client.simps) (auto simp: calm_def)
next
  case (Cons r reqs)
  let ?t = "msg_code (request_type r)" and ?b = "body_bytes (request_body r)"
  have env: "conn_malloc env i" "conn_others env i s = s" "env_works (conn_msg env i)"
    using assms(1) by (auto simp: calm_def)
  obtain ok me1 v1 where st: "service_step r me v = (ok, me1, v1)" by (cases "service_step r me v")
  obtain tr1 where run: "service_run reqs me1 v1 = (tr1, me', v')" and tr: "tr = (r, ok, v) # tr1"
    using Cons.prems(7) st by (auto split: prod.splits)
  have "stream revs = enc_header \<lparr>hdr_type = ?t, hdr_length = length ?b\<rparr> @ ?b @ concat (map request_frame reqs)"
    using Cons.prems(6) by (simp add: request_frame_def [of r] frame_def)
  from recv_message_frame [OF this msg_code_int32 request_body_length]
  obtain revs1 where recv: "recv_message (conn_malloc env i) revs = Inr (?t, request_body r, revs1)"
      "stream revs1 = concat (map request_frame reqs)" "stream_fails revs1"
    using env(1) Cons.prems(3) unfolding request_body_shape by auto
  obtain rt rb s1 where h: "handle_message (conn_msg env i) k ?t (request_body r) me s = Some ((rt, rb), me1, s1)"
      and rt: "rt = fst (reply_shape ?t)" and says: "reply_says r ok v (srv_words s) rb"
      and rel: "service_rel s1 v1" "session_rel v1 me1"
    using handler_refines [OF Cons.prems(4,5) _ env(3) st, of k] Cons.prems(1) by auto
  have ws: "words_ok s" using Cons.prems(4) by (simp add: service_rel_def)
  have shape: "length rb = snd (reply_shape ?t)" "srv_words s1 = srv_words s"
    using message_reply_shape [OF h ws] by (auto simp: prod_eq_iff)
  have rb: "rb \<noteq> []" "length rb \<le> N"
    using reply_shape_size [of ?t] shape(1) Cons.prems(2) by auto
  let ?evs = "replicate (2 * length reqs) (Sent N)"
  have sends: "replicate (2 * length (r # reqs)) (Sent N) = Sent N # Sent N # ?evs" by simp
  have send: "send_response rt rb (Sent N # Sent N # ?evs) = (Send_ok, frame rt rb, ?evs)"
    using send_response_whole [OF rb] Cons.prems(2) by simp
  obtain out s' where rest: "handle_client env (Suc i) k me1 s1 revs1 ?evs = (Conn_closed, s', out)"
      "replies_to tr1 (srv_words s) out" "service_rel s' (service_leave me' v')"
    using Cons.IH [OF _ Cons.prems(2) recv(3) rel recv(2) run, of "Suc i"] Cons.prems(1) shape(2) by auto
  have "handle_client env i k me s revs (replicate (2 * length (r # reqs)) (Sent N)) = (Conn_closed, s', frame rt rb @ out)"
    unfolding sends by (subst handle_client.simps) (simp add: recv env(2) h send rest(1))
  then show ?case using rest says shape rt tr by auto
qed

section \<open>Clients that do not\<close>


lemma register_user_impl_defined:
  "\<exists>r. register_user_impl io1 io2 (Str u) (Str p) d = Some r"
  by (auto simp: register_user_impl_def Let_def split: find_result.splits prod.splits)


section \<open>Properties\<close>

text \<open>
  Claim C2. End to end over the wire: for any list of well-formed requests on one connection, cut into
  chunks in any way, with a peer that reads its replies and then closes, the connection's thread
  ends, sends exactly one reply frame per request, in order, each saying what the abstract service says at that point,
  and leaves the shared state related to the service's, with the session's user gone from the names online.
\<close>

theorem connection_serves_requests:
  assumes "calm env" "\<forall>r \<in> set reqs. request_ok r" "WORDLIST_SIZE \<le> N" "stream_fails revs"
    and "service_rel s v" "session_rel v me" "stream revs = concat (map request_frame reqs)"
    and "service_run reqs me v = (tr, me', v')"
  shows "\<exists>out s'. handle_client env i k me s revs (replicate (2 * length reqs) (Sent N)) = (Conn_closed, s', out)
    \<and> replies_to tr (srv_words s) out \<and> service_rel s' (service_leave me' v')"
  using session_run [OF assms] .

definition calm_env :: conn_env where
  "calm_env = \<lparr>conn_malloc = (\<lambda>_. True), conn_others = (\<lambda>_ s. s), conn_msg = (\<lambda>_. sample_env)\<rparr>"

lemma calm_env [simp]: "calm calm_env"
  by (simp add: calm_def calm_env_def)

theorem connection_serves_requests_witness:
  "\<exists>out s'. handle_client calm_env 0 4 [] fresh_server
       [Chunk (concat (map request_frame [Register ''bob'' ''pw'', Login ''bob'' ''pw'', Submit 70])), Chunk []]
       (replicate 6 (Sent 9000)) = (Conn_closed, s', out)
     \<and> stored_password (srv_db s') ''bob'' = Some ''pw'' \<and> scores_content (srv_db s') = scores_text [(''bob'', 70)]
     \<and> active_names (srv_logged_in s') = []"
proof -
  define reqs where "reqs = [Register ''bob'' ''pw'', Login ''bob'' ''pw'', Submit 70]"
  define revs where "revs = [Chunk (concat (map request_frame reqs)), Chunk []]"
  define v where "v = \<lparr>accounts = [''bob'' \<mapsto> ''pw''], records = [(''bob'', 70)], online = {''bob''}\<rparr>"
  have "concat (map request_frame reqs) \<noteq> []"
    by (simp add: reqs_def request_frame_def frame_def)
  then have str: "stream revs = concat (map request_frame reqs)" "stream_fails revs" by (simp_all add: revs_def)
  have "\<exists>tr. service_run reqs [] fresh_service = (tr, ''bob'', v)"
    by (simp add: fresh_service_def reqs_def v_def)
  then obtain tr where run: "service_run reqs [] fresh_service = (tr, ''bob'', v)" ..
  have ok: "\<forall>r \<in> set reqs. request_ok r" by (simp add: reqs_def user_ok_def in_int32_def)
  have sess: "session_rel fresh_service []" by (simp add: session_rel_def)
  have "WORDLIST_SIZE \<le> 9000" by simp
  from connection_serves_requests [OF calm_env ok this str(2) fresh_rel sess str(1) run, of 0 4]
  obtain out s' where r: "handle_client calm_env 0 4 [] fresh_server revs (replicate (2 * length reqs) (Sent 9000))
      = (Conn_closed, s', out)" and rel': "service_rel s' (service_leave ''bob'' v)"
    by blast
  have rel: "service_rel s' \<lparr>accounts = [''bob'' \<mapsto> ''pw''], records = [(''bob'', 70)], online = {}\<rparr>"
    using rel' by (simp add: service_leave_def v_def)
  have "2 * length reqs = 6" by (simp add: reqs_def)
  note r = r [unfolded this, unfolded revs_def reqs_def]
  have "stored_password (srv_db s') = [''bob'' \<mapsto> ''pw'']"
    using rel unfolding service_rel_def by simp
  then have "stored_password (srv_db s') ''bob'' = Some ''pw''" by simp
  then show ?thesis using r rel
    by (intro exI [of _ out] exI [of _ s']) (simp add: service_rel_def)
qed



text \<open>The bodies with which the handling of a login reads outside the received bytes.\<close>

lemma login_undefined_iff:
  "handle_login env k body me s = None \<longleftrightarrow>
     body = None \<and> active_names (srv_logged_in s) \<noteq> []
     \<or> (\<exists>b. body = Some b \<and> (NUL \<in> set b \<longrightarrow> NUL \<notin> set (drop MAX_ID_LEN b)
          \<and> cstr b \<notin> set (active_names (srv_logged_in s)) \<and> (\<exists>x. find_user_in_file (env_find env) (cstr b) (srv_db s) = Find_user x)))"
proof (cases body)
  case None
  then show ?thesis by (simp add: login_pieces is_user_already_logged_in_unreadable login_user_impl_def)
next
  case (Some b)
  show ?thesis
  proof (cases "NUL \<in> set b")
    case False
    then have "ptr_at body off = Wild" for off using Some by (auto dest: in_set_dropD)
    then show ?thesis using Some False
      by (simp add: login_pieces is_user_already_logged_in_unreadable login_user_impl_def del: ptr_at.simps)
  next
    case True
    then have p: "ptr_at body 0 = Str (cstr b)" using Some by simp
    obtain slot where "is_user_already_logged_in (srv_logged_in s) (Str (cstr b)) = Some slot"
      using is_user_already_logged_in_defined by blast
    moreover from this have "slot = -1 \<longleftrightarrow> cstr b \<notin> set (active_names (srv_logged_in s))"
      by (rule is_user_already_logged_in_Str)
    moreover have "ptr_at body MAX_ID_LEN =
        (if NUL \<in> set (drop MAX_ID_LEN b) then Str (cstr (drop MAX_ID_LEN b)) else Wild)" using Some by simp
    ultimately show ?thesis using Some True p
      by (cases "NUL \<in> set (drop MAX_ID_LEN b)"; cases "find_user_in_file (env_find env) (cstr b) (srv_db s)")
        (simp_all add: login_pieces login_user_impl_def del: ptr_at.simps split_paired_Ex)
  qed
qed

lemma register_undefined_iff:
  "handle_register env body me s = None \<longleftrightarrow>
     (\<exists>b. body = Some b \<and> (NUL \<in> set b \<longrightarrow> cstr b \<noteq> [] \<and> NUL \<notin> set (drop MAX_ID_LEN b)))"
proof (cases body)
  case None
  then show ?thesis by (simp add: handle_register_def register_user_impl_def)
next
  case (Some b)
  show ?thesis
  proof (cases "NUL \<in> set b")
    case False
    then have "ptr_at body off = Wild" for off using Some by (auto dest: in_set_dropD)
    then show ?thesis using Some False by (simp add: handle_register_def register_user_impl_def del: ptr_at.simps)
  next
    case True
    then have p: "ptr_at body 0 = Str (cstr b)" using Some by simp
    show ?thesis
    proof (cases "NUL \<in> set (drop MAX_ID_LEN b)")
      case in_: True
      then obtain r where "register_user_impl (env_find env) (env_add env) (Str (cstr b))
          (Str (cstr (drop MAX_ID_LEN b))) (srv_db s) = Some r"
        using register_user_impl_defined by blast
      then show ?thesis using Some True in_ by (cases r) (simp add: handle_register_def)
    next
      case out: False
      then have "ptr_at body MAX_ID_LEN = Wild" using Some by simp
      then show ?thesis using Some True out p
        by (auto simp: handle_register_def register_user_impl_def Let_def simp del: ptr_at.simps)
    qed
  qed
qed

lemma score_undefined_iff:
  "handle_score env body me s = None \<longleftrightarrow> me \<noteq> [] \<and> length (body_bytes body) < 4"
  by (cases body) (auto simp: handle_score_def body_bytes_def Let_def split: prod.splits)

text \<open>
  Claim C13. The length of a body is never compared with the struct it is cast to, and this is exactly what
  that costs. The server reads outside the received bytes when a logged-in session submits a score in
  fewer than four bytes; when a body with a registration has no zero byte, or a name in it that is not empty and no zero
  byte from the password field on; when a body with a login has no zero byte, or has no zero byte from
  the password field on and a name that is stored and not logged in; and when a login comes without a body
  while some name is logged in. It does so for no other message, short or long.
\<close>

theorem unchecked_length_is_undefined:
  "handle_message env k htype body me s = None \<longleftrightarrow>
     htype = msg_code MSG_TYPE_SCORE_SUBMIT_REQ \<and> me \<noteq> [] \<and> length (body_bytes body) < 4
   \<or> htype = msg_code MSG_TYPE_REGISTER_REQ \<and>
       (\<exists>b. body = Some b \<and> (NUL \<in> set b \<longrightarrow> cstr b \<noteq> [] \<and> NUL \<notin> set (drop MAX_ID_LEN b)))
   \<or> htype = msg_code MSG_TYPE_LOGIN_REQ \<and>
       (body = None \<and> active_names (srv_logged_in s) \<noteq> []
        \<or> (\<exists>b. body = Some b \<and> (NUL \<in> set b \<longrightarrow> NUL \<notin> set (drop MAX_ID_LEN b)
             \<and> cstr b \<notin> set (active_names (srv_logged_in s))
             \<and> (\<exists>x. find_user_in_file (env_find env) (cstr b) (srv_db s) = Find_user x))))"
proof (cases "msg_of_code htype")
  case None
  then have "htype \<noteq> msg_code m" for m by (metis msg_of_code option.distinct(1))
  then show ?thesis using None by (simp add: handle_message_def del: msg_code.simps)
next
  case (Some m)
  then have code: "htype = msg_code m' \<longleftrightarrow> m = m'" for m'
    using msg_of_code_Some [OF Some] by (metis msg_of_code option.inject)
  show ?thesis
    unfolding code using Some
    by (cases m) (simp_all add: handle_message_def register_undefined_iff login_undefined_iff score_undefined_iff)
qed

theorem unchecked_length_is_undefined_witness:
  "handle_message sample_env 4 5 (Some [CHR ''1'', CHR ''2'']) ''bob'' fresh_server = None
   \<and> handle_message sample_env 4 5 (Some [CHR ''1'', CHR ''2'']) [] fresh_server \<noteq> None
   \<and> handle_message sample_env 4 1 (Some ''bob'') [] fresh_server = None
   \<and> handle_message sample_env 4 3 (Some (''bob'' @ [NUL])) [] bob_server = None
   \<and> handle_message sample_env 4 3 (Some (''amy'' @ [NUL])) [] fresh_server \<noteq> None"
proof -
  have none: "find_user_in_file io_ok ''amy'' (srv_db fresh_server) = Find_none"
    by (simp add: find_user_in_file_ok fresh_server_def) (simp add: users_content_def empty_db_def)
  have env: "env_find sample_env = io_ok" by (simp add: sample_env_def)
  show ?thesis unfolding unchecked_length_is_undefined env
    using none by (simp add: body_bytes_def bob_server_table cstr_def)
qed

section \<open>Leaked entries\<close>

text \<open>A name in the login table that is no session's.\<close>

definition leaked :: "string \<Rightarrow> system \<Rightarrow> bool" where
  "leaked me S \<longleftrightarrow> sys_inv S \<and> me \<noteq> [] \<and> me \<in> set (active_names (srv_logged_in (sys_server S))) \<and> (\<forall>j. sys_user S j \<noteq> me)"

lemma added_keeps_names:
  assumes "length w < MAX_ID_LEN" "length tbl = MAX_LOGGED_IN_USERS" "x \<in> set (active_names tbl)"
  shows "x \<in> set (active_names (snd (add_logged_in_user w k tbl)))"
  using add_logged_in_user_result(2,3) [OF assms(1,2), of k] assms(3) by (cases "has_room tbl") auto

lemma message_keeps_entry:
  assumes "handle_message env k htype body u0 s = Some (reply, u, s')" "table_inv (srv_logged_in s)"
    and "me \<in> set (active_names (srv_logged_in s))" "u0 \<noteq> me" "me \<noteq> []"
  shows "me \<in> set (active_names (srv_logged_in s'))" "u \<noteq> me"
proof -
  let ?tbl = "srv_logged_in s"
  have len: "length ?tbl = MAX_LOGGED_IN_USERS" using assms(2) by (simp add: table_inv_def)
  show "me \<in> set (active_names (srv_logged_in s'))" "u \<noteq> me"
    using handle_message_table [OF assms(1,2)] assms(3-5) set_remove_logged_in_user [OF assms(2)]
    by (auto simp: added_keeps_names len)
qed

interpretation leaks: preserved sys_step "leaked me" for me
proof
  fix S T
  assume leak: "leaked me S" and step: "sys_step S T"
  then have inv: "sys_inv T" by (auto simp: leaked_def intro: atomic.inv_step)
  have tbl: "table_inv (srv_logged_in (sys_server S))" using leak by (simp add: leaked_def sys_inv_def)
  from step show "leaked me T"
  proof (cases rule: sys_stepE [consumes 1, case_names sys_message sys_hangup])
    case (sys_message env k htype body reply u s)
    then show ?thesis using message_keeps_entry [OF sys_message(2) tbl] leak inv by (auto simp: leaked_def)
  next
    case (sys_hangup k)
    then show ?thesis using set_remove_logged_in_user [OF tbl] leak inv by (auto simp: leaked_def end_session_def)
  qed
qed

lemma login_of_active_refused:
  assumes "me \<in> set (active_names (srv_logged_in s))" "ptr_at body 0 = Str me"
  shows "handle_message env k (msg_code MSG_TYPE_LOGIN_REQ) body v s = Some (login_refusal, v, s)"
proof -
  obtain slot where "is_user_already_logged_in (srv_logged_in s) (Str me) = Some slot"
    using is_user_already_logged_in_defined by blast
  moreover from this have "slot \<noteq> -1" using assms(1) not_logged_in_iff by metis
  ultimately show ?thesis using assms(2) by (simp add: handle_message_def login_pieces)
qed

text \<open>A login under a name that is not logged in leaves the session with that name or with none.\<close>

lemma login_keeps_entries:
  assumes "handle_login env k body me s = Some (reply, u, s')" "table_inv (srv_logged_in s)"
  shows "set (active_names (srv_logged_in s)) \<subseteq> set (active_names (srv_logged_in s'))"
proof -
  let ?tbl = "srv_logged_in s"
  have len: "length ?tbl = MAX_LOGGED_IN_USERS" using assms(2) by (simp add: table_inv_def)
  show ?thesis using handle_login_cases [OF assms]
    by (auto simp: added_keeps_names len)
qed

lemma login_session:
  assumes "handle_login env k body me s = Some (reply, u, s')" "ptr_at body 0 = Str w"
    and "w \<notin> set (active_names (srv_logged_in s))"
  shows "u = w \<or> u = []"
proof -
  have "is_user_already_logged_in (srv_logged_in s) (Str w) = Some (-1)" using assms(3) not_logged_in_iff by blast
  then show ?thesis using assms(1,2)
    by (auto simp: handle_login_def split: bind_splits if_splits prod.splits elim!: login_user_impl_success)
qed

text \<open>
  Claim C15. With messages as atomic steps: when a connection that is logged in as \<open>me\<close> sends a login under a
  name that is not logged in, accepted or not, its session changes without the release of \<open>me\<close>. In every state
  after that, whatever messages come on whatever connections and whichever of them end, \<open>me\<close> is in the login table,
  no session is \<open>me\<close>'s, and every login under that name is refused and changes nothing.
\<close>

theorem second_login_leaks_slot:
  assumes "length (srv_logged_in s) = MAX_LOGGED_IN_USERS" "sys_step\<^sup>*\<^sup>* (start_system s) S"
    and "sys_user S k = me" "me \<noteq> []" "ptr_at body 0 = Str w" "w \<notin> set (active_names (srv_logged_in (sys_server S)))"
    and "handle_message env k (msg_code MSG_TYPE_LOGIN_REQ) body me (sys_server S) = Some (reply, u, s')"
    and "sys_step\<^sup>*\<^sup>* (S\<lparr>sys_server := s', sys_user := (sys_user S)(k := u)\<rparr>) R"
  shows "me \<in> set (active_names (srv_logged_in (sys_server R))) \<and> (\<forall>j. sys_user R j \<noteq> me)
    \<and> (\<forall>env' l body' v. ptr_at body' 0 = Str me \<longrightarrow>
         handle_message env' l (msg_code MSG_TYPE_LOGIN_REQ) body' v (sys_server R) = Some (login_refusal, v, sys_server R))"
proof -
  let ?S' = "S\<lparr>sys_server := s', sys_user := (sys_user S)(k := u)\<rparr>"
  have inv: "sys_inv S" using atomic.inv_steps [OF assms(2) start_system_inv [OF assms(1)]] .
  then have tbl: "table_inv (srv_logged_in (sys_server S))" by (simp add: sys_inv_def)
  have act: "me \<in> set (active_names (srv_logged_in (sys_server S)))" using inv assms(3,4) by (auto simp: sys_inv_def)
  have own: "j = k" if "sys_user S j = me" for j using inv that assms(3,4) unfolding sys_inv_def by metis
  have login: "handle_login env k body me (sys_server S) = Some (reply, u, s')" using assms(7) by (simp add: handle_message_def)
  have u: "u \<noteq> me" using login_session [OF login assms(5,6)] act assms(4,6) by auto
  have "sys_step S ?S'" using sys_message [of env k _ body S reply u s'] assms(3,7) by simp
  then have inv': "sys_inv ?S'" using inv atomic.inv_step by blast
  have "me \<in> set (active_names (srv_logged_in s'))"
    using login_keeps_entries [OF login tbl] act by blast
  then have "leaked me ?S'" using inv' u own assms(4) by (auto simp: leaked_def)
  then have "leaked me R" by (rule leaks.inv_steps [OF assms(8)])
  then show ?thesis using login_of_active_refused by (auto simp: leaked_def simp del: msg_code.simps)
qed

text \<open>Bob logs in on the socket 4, tries to log in as Amy, who has no account, and hangs up.\<close>

theorem second_login_leaks_slot_witness:
  "\<exists>S T R. sys_step\<^sup>*\<^sup>* (start_system bob_server) S \<and> sys_user S 4 = ''bob'' \<and> sys_step S T \<and> sys_step T R
     \<and> (\<forall>j. sys_user R j = []) \<and> ''bob'' \<in> set (active_names (srv_logged_in (sys_server R)))
     \<and> handle_message sample_env 5 3 (Some (enc_credentials ''bob'' ''pw'')) [] (sys_server R) = Some (login_refusal, [], sys_server R)"
proof -
  let ?amy = "Some (enc_credentials ''amy'' ''xx'')" and ?tbl = "srv_logged_in bob_server"
  have init: "start_system bob_server = \<lparr>sys_server = bob_server, sys_user = (\<lambda>_. [])\<rparr>"
    by (simp add: start_system_def init_logged_in_users_def bob_server_table)
  have tbl: "table_inv ?tbl" "active_names ?tbl = []" "length ?tbl = MAX_LOGGED_IN_USERS"
    by (simp_all add: table_inv_def bob_server_table)
  obtain r s where h: "handle_message sample_env 4 3 (Some (enc_credentials ''bob'' ''pw'')) [] bob_server
     = Some (r, ''bob'', s)" using bob_logs_in by blast
  have "has_room ?tbl" "srv_logged_in s = snd (add_logged_in_user ''bob'' 4 ?tbl)"
    using handle_message_table [OF h tbl(1)] by auto
  then have act: "set (active_names (srv_logged_in s)) = {''bob''}"
    using add_logged_in_user_result(2) [of "''bob''" ?tbl 4] tbl by simp
  define S where "S = \<lparr>sys_server = s, sys_user = (\<lambda>_. [])(4 := ''bob'')\<rparr>"
  have "sys_step (start_system bob_server) S"
    using sys_message [of sample_env 4 3 _ "start_system bob_server" r "''bob''" s] h by (simp add: init S_def)
  then have run: "sys_step\<^sup>*\<^sup>* (start_system bob_server) S" ..
  have ptr: "ptr_at ?amy 0 = Str ''amy''" "ptr_at ?amy MAX_ID_LEN = Str ''xx''" using ptr_at_credentials [of "''amy''" "''xx''"] by simp_all
  obtain r' u s' where h': "handle_message sample_env 4 3 ?amy ''bob'' s = Some (r', u, s')"
  proof -
    obtain q where "login_user_impl (env_find sample_env) (Str ''amy'') (Str ''xx'') (srv_db s) = Some q"
      by (simp add: login_user_impl_Str)
    moreover have "is_user_already_logged_in (srv_logged_in s) (Str ''amy'') = Some (-1)" using act not_logged_in_iff by simp
    ultimately have "handle_message sample_env 4 3 ?amy ''bob'' s = Some (login_record sample_env 4 q s)"
      by (simp add: handle_message_def login_pieces ptr del: ptr_at.simps)
    then show thesis using that by (cases "login_record sample_env 4 q s") simp
  qed
  let ?T = "S\<lparr>sys_server := s', sys_user := (sys_user S)(4 := u)\<rparr>"
  let ?R = "?T\<lparr>sys_server := end_session u s', sys_user := (sys_user ?T)(4 := [])\<rparr>"
  have ST: "sys_step S ?T" using sys_message [of sample_env 4 3 ?amy S r' u s'] h' by (simp add: S_def)
  have TR: "sys_step ?T ?R" using sys_hangup [of ?T 4] by simp
  then have run': "sys_step\<^sup>*\<^sup>* ?T ?R" ..
  have len: "length (srv_logged_in bob_server) = MAX_LOGGED_IN_USERS" by (rule tbl(3))
  have me: "handle_message sample_env 4 (msg_code MSG_TYPE_LOGIN_REQ) ?amy ''bob'' (sys_server S) = Some (r', u, s')"
    "''amy'' \<notin> set (active_names (srv_logged_in (sys_server S)))" "sys_user S 4 = ''bob''" "''bob'' \<noteq> ([] :: string)"
    using h' act by (simp_all add: S_def)
  note leak = second_login_leaks_slot [OF len run me(3,4) ptr(1) me(2,1) run']
  have "''bob'' \<in> set (active_names (srv_logged_in (sys_server ?R)))" using leak by (rule conjunct1)
  moreover have "handle_message sample_env 5 (msg_code MSG_TYPE_LOGIN_REQ) (Some (enc_credentials ''bob'' ''pw'')) []
      (sys_server ?R) = Some (login_refusal, [], sys_server ?R)"
    using leak bob_credentials(1) by blast
  moreover have "\<forall>j. sys_user ?R j = []" by (simp add: S_def)
  ultimately show ?thesis using run ST TR me(3) unfolding msg_code.simps by blast
qed

lemma recv_message_oversize:
  assumes "stream evs = enc_header \<lparr>hdr_type = t, hdr_length = n\<rparr> @ rest" "MAX_BODY < n" "n < 2 ^ 16"
  shows "recv_message malloc evs = Inl True"
proof -
  let ?h = "enc_header \<lparr>hdr_type = t, hdr_length = n\<rparr>"
  obtain e1 where e1: "recv_all (length ?h) [] evs = (Received ?h, e1)" using recv_all_ok assms(1) by blast
  have "hdr_length (dec_header ?h) = n"
    using dec_enc_header [of "\<lparr>hdr_type = t, hdr_length = n\<rparr>" "[]"] assms(3) by simp
  then show ?thesis using e1 assms(2) by (simp add: recv_message_def)
qed

text \<open>
  No body above 10240 bytes is ever handled: a header that announces more ends the
  connection at once, unanswered, and the session's name leaves the login table; and whatever the
  bytes, a body that is handed on has between 1 and 10240 bytes.
\<close>

theorem body_size_is_limited:
  assumes "stream revs = enc_header \<lparr>hdr_type = t, hdr_length = n\<rparr> @ rest" "MAX_BODY < n" "n < 2 ^ 16"
    and "table_inv (srv_logged_in (conn_others env i s))" "me \<noteq> []"
  shows "(\<exists>s'. handle_client env i k me s revs sevs = (Conn_closed, s', []) \<and> srv_db s' = srv_db (conn_others env i s)
      \<and> set (active_names (srv_logged_in s')) = set (active_names (srv_logged_in (conn_others env i s))) - {me})
    \<and> (\<forall>m evs t b evs'. recv_message m evs = Inr (t, Some b, evs') \<longrightarrow> 0 < length b \<and> length b \<le> MAX_BODY)"
proof -
  have "handle_client env i k me s revs sevs = (Conn_closed, end_session me (conn_others env i s), [])"
    by (subst handle_client.simps) (simp add: recv_message_oversize [OF assms(1-3)])
  then have "\<exists>s'. handle_client env i k me s revs sevs = (Conn_closed, s', []) \<and> srv_db s' = srv_db (conn_others env i s)
      \<and> set (active_names (srv_logged_in s')) = set (active_names (srv_logged_in (conn_others env i s))) - {me}"
    using assms(4,5) set_remove_logged_in_user by (simp add: end_session_def)
  moreover have "0 < length b \<and> length b \<le> MAX_BODY" if "recv_message m evs = Inr (t, Some b, evs')" for m evs t b evs'
    using that unfolding recv_message_def
    by (auto simp: Let_def dest!: recv_all_length split: prod.splits recv_result.splits if_splits)
  ultimately show ?thesis by blast
qed

theorem body_size_is_limited_witness:
  "\<exists>s'. handle_client calm_env 0 4 ''bob'' fresh_server [Chunk (enc_header \<lparr>hdr_type = 1, hdr_length = 10241\<rparr>)] []
     = (Conn_closed, s', [])"
  using body_size_is_limited [of "[Chunk (enc_header \<lparr>hdr_type = 1, hdr_length = 10241\<rparr>)]" 1 10241 "[]"
      calm_env 0 fresh_server "''bob''" 4 "[]"]
  by (auto simp: calm_env_def fresh_server_def)

end
