(* ===== verification/Server_Main.thy ===== *)
theory Server_Main
  imports Server_Connection
begin

text \<open>
  \<^verbatim>\<open>server/src/server_main.c\<close>: the signal handler, the start of the server (sockets, data files, word
  list, login table, cryptography) and the loop that accepts connections and starts a thread for each.
\<close>

section \<open>The state of the main thread\<close>

text \<open>
  The flag and the listening socket of \<open>handle_server_sigint\<close>; the variable \<open>tid\<close> (none before the first
  successful \<open>pthread_create\<close>); the threads started, each with the socket it was given; the threads that are
  joinable, not yet detached; and the client sockets that the main thread has closed itself.
\<close>

record acceptor =
  ac_shutdown :: bool
  ac_listening :: bool
  ac_tid :: "nat option"
  ac_threads :: "(nat \<times> nat) list"
  ac_joinable :: "nat set"
  ac_closed :: "nat list"

definition handle_server_sigint :: "acceptor \<Rightarrow> acceptor" where
  "handle_server_sigint a = a\<lparr>ac_shutdown := True, ac_listening := False\<rparr>"

text \<open>
  \<open>pthread_detach(tid)\<close>: undefined for a variable never set and for a thread that is not joinable.
\<close>

definition pthread_detach :: "acceptor \<Rightarrow> acceptor option" where
  "pthread_detach a = (case ac_tid a of
     None \<Rightarrow> None
   | Some t \<Rightarrow> if t \<in> ac_joinable a then Some (a\<lparr>ac_joinable := ac_joinable a - {t}\<rparr>) else None)"

section \<open>The accept loop\<close>

text \<open>
  One round: whether a signal comes before the flag is tested behind \<open>accept\<close>, what \<open>accept\<close> returns (a socket or
  -1), the answers of \<open>malloc\<close> and of \<open>pthread_create\<close> (the new thread, or a failure), and whether a signal comes
  after the test.
\<close>

record round_env =
  re_signal :: bool
  re_accept :: "nat option"
  re_malloc :: bool
  re_create :: "nat option"
  re_late_signal :: bool

text \<open>Where the loop is after the rounds given: it left for the shut-down, waits in \<open>accept\<close>, or is undefined.\<close>

datatype accept_result = Shut_down acceptor | Waiting acceptor | Undefined_detach

definition close_client :: "nat \<Rightarrow> acceptor \<Rightarrow> acceptor" where
  "close_client c a = a\<lparr>ac_closed := c # ac_closed a\<rparr>"

definition late :: "round_env \<Rightarrow> acceptor \<Rightarrow> acceptor" where
  "late e a = (if re_late_signal e then handle_server_sigint a else a)"

fun accept_loop :: "round_env list \<Rightarrow> acceptor \<Rightarrow> accept_result" where
  "accept_loop [] a = (if ac_shutdown a then Shut_down a else Waiting a)"
| "accept_loop (e # es) a =
     (if ac_shutdown a then Shut_down a
      else let a1 = (if re_signal e then handle_server_sigint a else a) in
        if ac_shutdown a1
        then Shut_down (case re_accept e of Some c \<Rightarrow> close_client c a1 | None \<Rightarrow> a1)
        else case re_accept e of
          None \<Rightarrow> accept_loop es (late e a1)
        | Some c \<Rightarrow>
            if \<not> re_malloc e then accept_loop es (late e (close_client c a1))
            else let a2 = (case re_create e of
                     None \<Rightarrow> close_client c a1
                   | Some t \<Rightarrow> a1\<lparr>ac_tid := Some t, ac_threads := (t, c) # ac_threads a1,
                             ac_joinable := insert t (ac_joinable a1)\<rparr>)
              in case pthread_detach a2 of
                   None \<Rightarrow> Undefined_detach
                 | Some a3 \<Rightarrow> accept_loop es (late e a3))"

declare accept_loop.simps(2) [simp del]

section \<open>The program\<close>

text \<open>What the calls of the start answer, and whether a signal comes before the loop.\<close>

record boot_env =
  be_socket :: bool
  be_bind :: bool
  be_listen :: bool
  be_mkdir :: mkdir_answer
  be_users :: io
  be_scores :: io
  be_passes :: "pass_io list"
  be_signal :: bool

definition start_acceptor :: acceptor where
  "start_acceptor = \<lparr>ac_shutdown = False, ac_listening = True, ac_tid = None, ac_threads = [], ac_joinable = {}, ac_closed = []\<rparr>"

text \<open>
  The start: it exits with a failure, does not return from loading the words, or comes to the accept loop
  with the server's state, the words file and the flag of the cryptography.
\<close>

datatype boot = Boot_failed | Boot_hangs | Booted server "string option" bool

definition boot_server :: "boot_env \<Rightarrow> string option \<Rightarrow> db \<Rightarrow> boot" where
  "boot_server e words_txt d =
     (if \<not> be_socket e \<or> \<not> be_bind e \<or> \<not> be_listen e then Boot_failed
      else case init_db_files (be_mkdir e) (be_users e) (be_scores e) d of
        None \<Rightarrow> Boot_failed
      | Some d1 \<Rightarrow>
          (case load_wordlist_from_file (be_passes e) [] words_txt of
             None \<Rightarrow> Boot_hangs
           | Some (n, ws, file) \<Rightarrow>
               if n \<le> 0 then Boot_failed
               else Booted \<lparr>srv_db = d1, srv_logged_in = init_logged_in_users empty_login_table, srv_words = ws\<rparr>
                      file (init_auth_system False)))"

text \<open>The end: the listening socket is closed, the cryptography is cleaned up, and \<open>main\<close> returns 0.\<close>

definition shut_down :: "acceptor \<Rightarrow> bool \<Rightarrow> int \<times> acceptor \<times> bool" where
  "shut_down a crypto = (0, (if ac_listening a then a\<lparr>ac_listening := False\<rparr> else a), crypto_cleanup crypto)"

text \<open>\<open>main\<close> as a whole: its exit code, or where it is when it has not ended.\<close>

datatype program = Exits int acceptor bool | Accepting server acceptor | Starting | Undefined_program

definition server_main :: "boot_env \<Rightarrow> string option \<Rightarrow> db \<Rightarrow> round_env list \<Rightarrow> program" where
  "server_main e words_txt d es =
     (case boot_server e words_txt d of
        Boot_failed \<Rightarrow> Exits 1 (start_acceptor\<lparr>ac_listening := False\<rparr>) False
      | Boot_hangs \<Rightarrow> Starting
      | Booted s file crypto \<Rightarrow>
          (case accept_loop es (if be_signal e then handle_server_sigint start_acceptor else start_acceptor) of
             Undefined_detach \<Rightarrow> Undefined_program
           | Waiting a \<Rightarrow> Accepting s a
           | Shut_down a \<Rightarrow> (case shut_down a crypto of (code, a', c) \<Rightarrow> Exits code a' c)))"

section \<open>Properties of the accept loop\<close>

text \<open>A connection that reaches \<open>pthread_create\<close>, and the round in which that fails.\<close>

definition create_fails :: "round_env \<Rightarrow> bool" where
  "create_fails e \<longleftrightarrow> re_accept e \<noteq> None \<and> re_malloc e \<and> re_create e = None"

definition no_signal :: "round_env \<Rightarrow> bool" where
  "no_signal e \<longleftrightarrow> \<not> re_signal e \<and> \<not> re_late_signal e"

definition accepted :: "round_env list \<Rightarrow> nat multiset" where
  "accepted es = mset (List.map_filter re_accept es)"

text \<open>The main thread between two rounds: every thread it has started is detached.\<close>

definition acceptor_ok :: "acceptor \<Rightarrow> bool" where
  "acceptor_ok a \<longleftrightarrow> ac_joinable a = {} \<and> \<not> ac_shutdown a"

definition handed_over :: "acceptor \<Rightarrow> nat multiset" where
  "handed_over a = mset (map snd (ac_threads a)) + mset (ac_closed a)"

lemma accept_loop_quiet:
  assumes "acceptor_ok a" "no_signal e"
  shows "accept_loop (e # es) a = (if create_fails e then Undefined_detach
    else case re_accept e of None \<Rightarrow> accept_loop es a
      | Some c \<Rightarrow> (if \<not> re_malloc e then accept_loop es (close_client c a)
          else accept_loop es (a\<lparr>ac_tid := re_create e, ac_threads := (the (re_create e), c) # ac_threads a\<rparr>)))"
  using assms by (cases a)
    (auto simp: accept_loop.simps(2) acceptor_ok_def no_signal_def create_fails_def pthread_detach_def close_client_def
      late_def Let_def split: option.splits)

lemma accept_loop_accounts:
  assumes "acceptor_ok a" "\<forall>e \<in> set es. no_signal e \<and> \<not> create_fails e"
  shows "\<exists>a'. accept_loop es a = Waiting a' \<and> acceptor_ok a' \<and> handed_over a' = handed_over a + accepted es
    \<and> ac_listening a' = ac_listening a \<and> (\<forall>later. accept_loop (es @ later) a = accept_loop later a')"
  using assms
proof (induction es arbitrary: a)
  case Nil
  then show ?case by (auto simp: acceptor_ok_def accepted_def List.map_filter_def)
next
  case (Cons e es)
  have quiet: "no_signal e" "\<not> create_fails e" using Cons.prems(2) by simp_all
  have IH: "\<exists>a'. accept_loop es b = Waiting a' \<and> acceptor_ok a' \<and> handed_over a' = handed_over b + accepted es
      \<and> ac_listening a' = ac_listening b \<and> (\<forall>later. accept_loop (es @ later) b = accept_loop later a')" if "acceptor_ok b" for b
    using Cons.IH [OF that] Cons.prems(2) by simp
  show ?case
  proof (cases "re_accept e")
    case None
    then show ?thesis using IH [OF Cons.prems(1)] quiet
      by (simp add: accept_loop_quiet [OF Cons.prems(1)] accepted_def map_filter_simps)
  next
    case (Some c)
    let ?b = "if re_malloc e then a\<lparr>ac_tid := re_create e, ac_threads := (the (re_create e), c) # ac_threads a\<rparr> else close_client c a"
    have b: "acceptor_ok ?b" "handed_over ?b = add_mset c (handed_over a)" "ac_listening ?b = ac_listening a"
      using Cons.prems(1) by (auto simp: acceptor_ok_def handed_over_def close_client_def)
    have "accept_loop (e # fs) a = accept_loop fs ?b" for fs
      using Some quiet by (simp add: accept_loop_quiet [OF Cons.prems(1)])
    then show ?thesis using IH [OF b(1)] b(2,3) Some by (auto simp: accepted_def map_filter_simps)
  qed
qed

lemma accept_loop_undefined:
  assumes "acceptor_ok a" "\<forall>e \<in> set es. no_signal e" "\<exists>e \<in> set es. create_fails e"
  shows "accept_loop es a = Undefined_detach"
  using assms
proof (induction es arbitrary: a)
  case (Cons e es)
  show ?case
  proof (cases "create_fails e")
    case True
    then show ?thesis using accept_loop_quiet [OF Cons.prems(1)] Cons.prems(2) by simp
  next
    case False
    have b: "acceptor_ok (close_client c a)" "acceptor_ok (a\<lparr>ac_tid := t, ac_threads := ts\<rparr>)" for c t ts
      using Cons.prems(1) by (auto simp: acceptor_ok_def close_client_def)
    show ?thesis using False Cons b accept_loop_quiet [OF Cons.prems(1), of e es] by (auto split: option.split)
  qed
qed simp

lemma start_acceptor_ok [simp]: "acceptor_ok start_acceptor" "handed_over start_acceptor = {#}" "ac_listening start_acceptor"
  by (simp_all add: acceptor_ok_def handed_over_def start_acceptor_def)

text \<open>
  Claim C22. As long as no signal comes, the accept loop keeps serving exactly if no \<open>pthread_create\<close> fails: then
  each accepted connection was given to one thread, which is detached, or closed, none twice and none
  forgotten. A single failing \<open>pthread_create\<close> makes the program undefined, because \<open>main\<close> goes on to
  detach the thread that it could not start, by the old value of \<open>tid\<close>.
\<close>

theorem accept_loop_hands_over_each_connection:
  assumes "\<forall>e \<in> set es. no_signal e"
  shows "if \<exists>e \<in> set es. create_fails e then accept_loop es start_acceptor = Undefined_detach
    else \<exists>a. accept_loop es start_acceptor = Waiting a \<and> mset (map snd (ac_threads a)) + mset (ac_closed a) = accepted es
      \<and> ac_joinable a = {} \<and> ac_listening a"
  using accept_loop_undefined [OF start_acceptor_ok(1) assms] accept_loop_accounts [OF start_acceptor_ok(1), of es] assms
  by (auto simp: acceptor_ok_def handed_over_def start_acceptor_def)

definition one_client :: round_env where
  "one_client = \<lparr>re_signal = False, re_accept = Some 5, re_malloc = True, re_create = Some 7, re_late_signal = False\<rparr>"

theorem accept_loop_hands_over_each_connection_witness:
  "accept_loop [one_client, one_client\<lparr>re_create := None\<rparr>] start_acceptor = Undefined_detach"
  using accept_loop_hands_over_each_connection [of "[one_client, one_client\<lparr>re_create := None\<rparr>]"]
  by (simp add: no_signal_def create_fails_def one_client_def)

text \<open>The round of a signal, before the test of the flag that follows \<open>accept\<close> or after it.\<close>

definition started_in :: "round_env \<Rightarrow> (nat \<times> nat) list" where
  "started_in e = (if re_signal e \<or> \<not> re_malloc e then []
     else case re_accept e of None \<Rightarrow> [] | Some c \<Rightarrow> [(the (re_create e), c)])"

lemma signal_round:
  assumes "acceptor_ok a" "re_signal e \<or> re_late_signal e \<and> \<not> create_fails e"
  shows "\<exists>b. accept_loop (e # later) a = Shut_down b \<and> handed_over b = handed_over a + accepted [e]
    \<and> ac_threads b = started_in e @ ac_threads a \<and> ac_joinable b = {} \<and> \<not> ac_listening b"
proof -
  have over: "accept_loop later b = Shut_down b" if "ac_shutdown b" for b
    using that by (cases later) (simp_all add: accept_loop.simps(2))
  show ?thesis
  proof (cases "re_signal e")
    case True
    then show ?thesis using assms(1)
      by (cases "re_accept e") (auto simp: accept_loop.simps(2) acceptor_ok_def handle_server_sigint_def close_client_def
          handed_over_def accepted_def map_filter_simps started_in_def)
  next
    case False
    then show ?thesis using assms over
      by (cases "re_accept e"; cases "re_malloc e"; cases "re_create e")
        (auto simp: accept_loop.simps(2) acceptor_ok_def late_def handle_server_sigint_def close_client_def
          create_fails_def handed_over_def accepted_def map_filter_simps started_in_def pthread_detach_def Let_def)
  qed
qed

text \<open>
  Claim C37. \<open>SIGINT\<close> and \<open>SIGTERM\<close> end the loop, whatever would come later: when a signal comes in a round of a loop
  that ran so far, the loop is left. A signal before the test of the flag behind \<open>accept\<close> closes the connection
  that \<open>accept\<close> still gave, if any, and starts no thread; a signal later in the round leaves that
  connection to its thread, started and detached as usual (in a round in which \<open>pthread_create\<close> does not fail).
  Each connection accepted until then was given to one thread or closed, and \<open>main\<close> returns 0 with the
  listening socket closed and the cryptography cleaned up.
\<close>

theorem signal_ends_accept_loop:
  assumes "\<forall>e \<in> set es. no_signal e \<and> \<not> create_fails e" "re_signal e \<or> re_late_signal e \<and> \<not> create_fails e"
  shows "\<exists>a b. accept_loop es start_acceptor = Waiting a \<and> accept_loop (es @ e # later) start_acceptor = Shut_down b
    \<and> ac_threads b = (if re_signal e \<or> \<not> re_malloc e then []
          else case re_accept e of None \<Rightarrow> [] | Some c \<Rightarrow> [(the (re_create e), c)]) @ ac_threads a
    \<and> mset (map snd (ac_threads b)) + mset (ac_closed b) = accepted (es @ [e]) \<and> ac_joinable b = {}
    \<and> fst (shut_down b c) = 0 \<and> \<not> ac_listening (fst (snd (shut_down b c))) \<and> \<not> snd (snd (shut_down b c))"
proof -
  obtain a where a: "accept_loop es start_acceptor = Waiting a" "acceptor_ok a" "handed_over a = accepted es"
    "\<And>later. accept_loop (es @ later) start_acceptor = accept_loop later a"
    using accept_loop_accounts [OF start_acceptor_ok(1) assms(1)] by auto
  obtain b where b: "accept_loop (e # later) a = Shut_down b" "handed_over b = accepted es + accepted [e]"
    "ac_threads b = started_in e @ ac_threads a" "ac_joinable b = {}" "\<not> ac_listening b"
    using signal_round [OF a(2) assms(2)] a(3) by auto
  have "accepted (es @ [e]) = accepted es + accepted [e]" by (simp add: accepted_def List.map_filter_def)
  then show ?thesis using a b
    by (intro exI [of _ a] exI [of _ b])
      (simp add: handed_over_def shut_down_def crypto_cleanup_def started_in_def)
qed

theorem signal_ends_accept_loop_witness:
  "(\<exists>b. accept_loop [one_client, one_client\<lparr>re_signal := True, re_accept := Some 6\<rparr>] start_acceptor = Shut_down b
     \<and> ac_threads b = [(7, 5)])
   \<and> (\<exists>b. accept_loop [one_client, one_client\<lparr>re_late_signal := True, re_accept := Some 6, re_create := Some 8\<rparr>] start_acceptor
          = Shut_down b \<and> ac_threads b = [(8, 6), (7, 5)])"
proof -
  have "accept_loop [one_client] start_acceptor = Waiting (start_acceptor\<lparr>ac_tid := Some 7, ac_threads := [(7, 5)]\<rparr>)"
    by (simp add: accept_loop_quiet no_signal_def create_fails_def one_client_def)
      (simp add: start_acceptor_def)
  then show ?thesis
    using signal_ends_accept_loop [of "[one_client]" "one_client\<lparr>re_signal := True, re_accept := Some 6\<rparr>" "[]" False]
      signal_ends_accept_loop [of "[one_client]" "one_client\<lparr>re_late_signal := True, re_accept := Some 6, re_create := Some 8\<rparr>" "[]" False]
    by (auto simp: no_signal_def create_fails_def one_client_def)
qed

section \<open>The start\<close>

lemma loaded_words_ok:
  "load_wordlist_from_file ps g content0 = Some (n, ws, file') \<Longrightarrow> 0 < n \<Longrightarrow>
   list_all word_ok ws \<and> length ws \<le> MAX_WORDLIST_WORDS \<and> n = int (length ws)"
proof (induction ps arbitrary: g content0)
  case Nil
  then show ?case by (simp add: load_wordlist_from_file.simps)
next
  case (Cons p ps)
  obtain ok1 file1 where w: "(if is_file_empty (p_stat_fails p) content0 = 1
      then write_default_words_to_file (p_write_empty p) content0 else (True, content0)) = (ok1, file1)" by fastforce
  obtain src file2 where o: "open_words p file1 = (src, file2)" by fastforce
  have ok1: ok1 using Cons.prems w by (cases ok1) (auto simp: load_wordlist_from_file.simps)
  then obtain io content where src: "src = Some (io, content)"
    using Cons.prems w o by (cases src) (auto simp: load_wordlist_from_file.simps)
  let ?ws = "load_words_loop MAX_WORDLIST_WORDS (io_read_stop io \<noteq> None) (readable io content)"
  show ?case
  proof (cases "?ws = []")
    case False
    then have "ws = ?ws \<and> n = int (length ?ws)"
      using Cons.prems(1) w o src ok1 by (auto simp: load_wordlist_from_file.simps Let_def)
    then have ws: "ws = ?ws" "n = int (length ws)" by blast+
    then show ?thesis
      using load_words_loop_length [of MAX_WORDLIST_WORDS "io_read_stop io \<noteq> None" "readable io content"]
        load_words_loop_words by (auto simp: list_all_iff)
  next
    case True
    obtain ok3 file3 where w3: "write_default_words_to_file (p_write_none p) file2 = (ok3, file3)" by fastforce
    have "ok3" using True Cons.prems w o src ok1 w3 by (cases ok3) (auto simp: load_wordlist_from_file.simps)
    then have "load_wordlist_from_file ps [] file3 = Some (n, ws, file')"
      using True Cons.prems(1) w o src ok1 w3 by (simp add: load_wordlist_from_file.simps)
    then show ?thesis using Cons.IH Cons.prems(2) by blast
  qed
qed

lemma init_db_files_keeps:
  assumes "init_db_files mk io1 io2 d = Some d'"
  shows "users_content d' = users_content d" "scores_content d' = scores_content d" "data_dir d' = Directory"
    "stored_password d' = stored_password d"
proof -
  show c: "users_content d' = users_content d" "scores_content d' = scores_content d"
    using assms by (auto simp: init_db_files_def users_content_def scores_content_def open_append_def
        split: prod.splits if_splits option.splits)
  show "data_dir d' = Directory"
    using assms by (auto simp: init_db_files_def create_directory_if_not_exists_def
        split: prod.splits if_splits path_kind.splits mkdir_answer.splits)
  show "stored_password d' = stored_password d"
    by (simp add: fun_eq_iff stored_password_def find_user_in_file_ok c)
qed

text \<open>
  Claim C23. A start of the server on the data files of an earlier run restores its service: when the files stand
  for the accounts and scores of the abstract service, every start that comes to the accept loop does so in a
  state that implements that service with nobody logged in, with a nonempty word list, the data directory in
  place and the cryptography initialised.
\<close>

theorem restart_restores_service:
  assumes "service_rel s v" "boot_server e words_txt (srv_db s) = Booted s' file crypto"
  shows "service_rel s' (v\<lparr>online := {}\<rparr>) \<and> srv_words s' \<noteq> [] \<and> data_dir (srv_db s') = Directory \<and> crypto
    \<and> length (srv_logged_in s') = MAX_LOGGED_IN_USERS"
proof -
  obtain d1 n ws where d1: "init_db_files (be_mkdir e) (be_users e) (be_scores e) (srv_db s) = Some d1"
    and ws: "load_wordlist_from_file (be_passes e) [] words_txt = Some (n, ws, file)" "0 < n"
    and s': "s' = \<lparr>srv_db = d1, srv_logged_in = init_logged_in_users empty_login_table, srv_words = ws\<rparr>"
    and c: "crypto = init_auth_system False"
    using assms(2) by (auto simp: boot_server_def split: if_splits option.splits)
  note keep = init_db_files_keeps [OF d1]
  note words = loaded_words_ok [OF ws]
  have tbl: "init_logged_in_users empty_login_table = empty_login_table"
    by (simp add: init_logged_in_users_def empty_login_table_def)
  have "service_rel s' (v\<lparr>online := {}\<rparr>)"
    using assms(1) keep words unfolding s'
    by (auto simp: service_rel_def tbl users_inv_def words_ok_def list_all_iff word_ok_def)
  moreover have "length empty_login_table = MAX_LOGGED_IN_USERS" by (simp add: empty_login_table_def)
  ultimately show ?thesis using keep(3) words ws(2) c
    by (auto simp: s' tbl init_auth_system_def crypto_init_def simp del: table_inv_empty)
qed

definition good_boot :: boot_env where
  "good_boot = \<lparr>be_socket = True, be_bind = True, be_listen = True, be_mkdir = Mkdir_ok, be_users = io_ok, be_scores = io_ok,
     be_passes = [pass_ok], be_signal = False\<rparr>"

theorem restart_restores_service_witness:
  "\<exists>s. boot_server good_boot (Some (words_text [''cat''])) (srv_db fresh_server) = Booted s (Some (words_text [''cat''])) True
     \<and> service_rel s (fresh_service\<lparr>online := {}\<rparr>)"
proof -
  have l: "load_wordlist_from_file [pass_ok] [] (Some (words_text [''cat''])) = Some (1, [''cat''], Some (words_text [''cat'']))"
    using load_pass_ok [of "[]" "[]" "Some (words_text [''cat''])"] load_words_loop_text [of "[''cat'']" MAX_WORDLIST_WORDS False "[]"]
    by (simp add: word_ok_def)
  obtain d where d: "init_db_files Mkdir_ok io_ok io_ok (srv_db fresh_server) = Some d"
    by (auto simp: init_db_files_def create_directory_if_not_exists_def fresh_server_def empty_db_def split: path_kind.split)
  let ?s = "\<lparr>srv_db = d, srv_logged_in = init_logged_in_users empty_login_table, srv_words = [''cat'']\<rparr>"
  have b: "boot_server good_boot (Some (words_text [''cat''])) (srv_db fresh_server) = Booted ?s (Some (words_text [''cat''])) True"
    using l d by (simp add: boot_server_def good_boot_def init_auth_system_def crypto_init_def)
  then show ?thesis using restart_restores_service [OF fresh_rel b] by blast
qed

end
