(* ===== verification/Client_Network.thy ===== *)
theory Client_Network
  imports Server_Connection "HOL-Library.Sublist"
begin

text \<open>
  \<^verbatim>\<open>client/src/client_network.c\<close>: the connection, the two transfer loops (which look at the flag
  \<open>sigint_received\<close> before every call), the request/response exchange with its return codes, and
  the typed requests.
\<close>

section \<open>The connection\<close>

text \<open>
  \<open>net_sig\<close> is what the successive reads of \<open>sigint_received\<close> give (false when it is used up),
  \<open>net_recv\<close> and \<open>net_send\<close> what the successive calls of \<open>recv\<close> and \<open>send\<close> answer, \<open>net_out\<close> the bytes sent
  so far.
\<close>

record net =
  net_connected :: bool
  net_sig :: "bool list"
  net_recv :: "recv_event list"
  net_send :: "send_event list"
  net_out :: bytes

definition connect_to_server :: "bool \<Rightarrow> bool \<Rightarrow> net \<Rightarrow> int \<times> net" where
  "connect_to_server socket_ok connect_ok n =
     (if net_connected n then (0, n)
      else if \<not> socket_ok then (-1, n)
      else if \<not> connect_ok then (-1, n\<lparr>net_connected := False\<rparr>)
      else (0, n\<lparr>net_connected := True\<rparr>))"

definition disconnect_from_server :: "net \<Rightarrow> net" where
  "disconnect_from_server n = (if net_connected n then n\<lparr>net_connected := False\<rparr> else n)"

definition sigint_received :: "net \<Rightarrow> bool \<times> net" where
  "sigint_received n = (case net_sig n of [] \<Rightarrow> (False, n) | b # bs \<Rightarrow> (b, n\<lparr>net_sig := bs\<rparr>))"

section \<open>The transfer loops\<close>

datatype transfer = Transfer_ok | Transfer_code int | Transfer_blocked | Transfer_killed

fun client_send_all :: "bytes \<Rightarrow> bool list \<Rightarrow> send_event list \<Rightarrow> transfer \<times> bytes \<times> bool list \<times> send_event list" where
  "client_send_all buf sig evs =
     (if buf = [] then (Transfer_ok, [], sig, evs)
      else if sig \<noteq> [] \<and> hd sig then (Transfer_code (-10), [], tl sig, evs)
      else case evs of
        [] \<Rightarrow> (Transfer_blocked, [], tl sig, [])
      | Send_intr # evs' \<Rightarrow> client_send_all buf (tl sig) evs'
      | Send_err # evs' \<Rightarrow> (Transfer_code (-1), [], tl sig, evs')
      | Send_pipe # evs' \<Rightarrow> (Transfer_killed, [], tl sig, evs')
      | Sent k # evs' \<Rightarrow>
          if k = 0 then (Transfer_code (-1), [], tl sig, evs')
          else (case client_send_all (drop k buf) (tl sig) evs' of (r, out, sig', evs'') \<Rightarrow> (r, take k buf @ out, sig', evs'')))"

fun client_recv_all :: "nat \<Rightarrow> bytes \<Rightarrow> bool list \<Rightarrow> recv_event list \<Rightarrow> transfer \<times> bytes \<times> bool list \<times> recv_event list" where
  "client_recv_all len got sig evs =
     (if len \<le> length got then (Transfer_ok, got, sig, evs)
      else if sig \<noteq> [] \<and> hd sig then (Transfer_code (-10), got, tl sig, evs)
      else case evs of
        [] \<Rightarrow> (Transfer_blocked, got, tl sig, [])
      | Recv_intr # evs' \<Rightarrow> client_recv_all len got (tl sig) evs'
      | Recv_err # evs' \<Rightarrow> (Transfer_code (-1), got, tl sig, evs')
      | Chunk c # evs' \<Rightarrow>
          if c = [] then (Transfer_code (-1), got, tl sig, evs')
          else if length c \<le> len - length got then client_recv_all len (got @ c) (tl sig) evs'
          else (Transfer_ok, got @ take (len - length got) c, tl sig, Chunk (drop (len - length got) c) # evs'))"

declare client_send_all.simps [simp del] client_recv_all.simps [simp del]

definition net_send_all :: "bytes \<Rightarrow> net \<Rightarrow> transfer \<times> net" where
  "net_send_all buf n =
     (case client_send_all buf (net_sig n) (net_send n) of
        (r, out, sig, evs) \<Rightarrow> (r, n\<lparr>net_sig := sig, net_send := evs, net_out := net_out n @ out\<rparr>))"

definition net_recv_all :: "nat \<Rightarrow> net \<Rightarrow> transfer \<times> bytes \<times> net" where
  "net_recv_all len n =
     (case client_recv_all len [] (net_sig n) (net_recv n) of
        (r, got, sig, evs) \<Rightarrow> (r, got, n\<lparr>net_sig := sig, net_recv := evs\<rparr>))"

section \<open>The exchange\<close>

text \<open>
  What a call comes to: its return code with the response buffer and the connection afterwards; or it
  does not return: it waits for the peer, \<open>SIGPIPE\<close> ends the client, or it reads past a buffer.
\<close>

datatype call = Returns int bytes net | Waits | Killed | Undefined

text \<open>The loop that discards a body of the wrong type, 1024 bytes at a time.\<close>

function discard_body :: "nat \<Rightarrow> net \<Rightarrow> transfer \<times> net" where
  "discard_body remaining n =
     (if remaining = 0 then (Transfer_ok, n)
      else (let to_read = min remaining 1024 in
        case net_recv_all to_read n of
          (Transfer_ok, _, n') \<Rightarrow> discard_body (remaining - to_read) n'
        | (Transfer_code _, _, n') \<Rightarrow> (Transfer_ok, disconnect_from_server n')
        | (r, _, n') \<Rightarrow> (r, n')))"
  by pat_completeness auto
termination
  by (relation "measure (\<lambda>(remaining, n). remaining)") auto

declare discard_body.simps [simp del]

text \<open>
  The message of an error response goes into the caller's struct, whatever its type, as if it were a
  \<open>success\<close>/\<open>message\<close> pair; \<open>ejunk\<close> is what the local \<open>ErrorResponse\<close> held before.
\<close>

definition store_error :: "bytes \<Rightarrow> bytes \<Rightarrow> bytes \<Rightarrow> bytes option" where
  "store_error ejunk got resp =
     (if length resp < MAX_MSG_LEN then Some resp
      else (let err = overwrite 0 got (fit MAX_MSG_LEN ejunk) in
        if NUL \<notin> set err then None
        else Some (overwrite 0 (enc_int 0) (overwrite (4 + 127) [NUL]
               (overwrite 4 (snprintf_str MAX_MSG_LEN (cstr err) @ [NUL]) resp)))))"

definition receive_response :: "bytes \<Rightarrow> message_type \<Rightarrow> bytes \<Rightarrow> net \<Rightarrow> call" where
  "receive_response ejunk expected resp n =
     (case net_recv_all HEADER_SIZE n of
        (Transfer_blocked, _, _) \<Rightarrow> Waits
      | (Transfer_killed, _, _) \<Rightarrow> Killed
      | (Transfer_code _, _, n1) \<Rightarrow> Returns (-3) resp (disconnect_from_server n1)
      | (Transfer_ok, hb, n1) \<Rightarrow>
         (let h = dec_header hb; (sig, n2) = sigint_received n1 in
          if sig then Returns (-10) resp n2
          else if hdr_type h = msg_code MSG_TYPE_ERROR
          then if 0 < hdr_length h \<and> hdr_length h \<le> MAX_MSG_LEN
               then (case net_recv_all (hdr_length h) n2 of
                   (Transfer_blocked, _, _) \<Rightarrow> Waits
                 | (Transfer_killed, _, _) \<Rightarrow> Killed
                 | (Transfer_code _, _, n3) \<Rightarrow> Returns (-4) resp n3
                 | (Transfer_ok, got, n3) \<Rightarrow>
                     (case store_error ejunk got resp of None \<Rightarrow> Undefined | Some resp' \<Rightarrow> Returns (-4) resp' n3))
               else Returns (-4) resp n2
          else if hdr_type h \<noteq> msg_code expected
          then (case discard_body (hdr_length h) n2 of
                 (Transfer_blocked, _) \<Rightarrow> Waits
               | (Transfer_killed, _) \<Rightarrow> Killed
               | (_, n3) \<Rightarrow> Returns (-5) resp n3)
          else if length resp < hdr_length h then Returns (-6) resp n2
          else if 0 < hdr_length h
          then (case net_recv_all (hdr_length h) n2 of
                 (Transfer_blocked, _, _) \<Rightarrow> Waits
               | (Transfer_killed, _, _) \<Rightarrow> Killed
               | (Transfer_code _, got, n3) \<Rightarrow> Returns (-3) (overwrite 0 got resp) (disconnect_from_server n3)
               | (Transfer_ok, got, n3) \<Rightarrow> Returns 0 (overwrite 0 got resp) n3)
          else Returns 0 resp n2))"

definition send_request_and_receive_response ::
    "bytes \<Rightarrow> message_type \<Rightarrow> bytes \<Rightarrow> message_type \<Rightarrow> bytes \<Rightarrow> net \<Rightarrow> call" where
  "send_request_and_receive_response ejunk req_type body expected resp n =
     (if \<not> net_connected n then Returns (-1) resp n
      else let (sig, n1) = sigint_received n in
        if sig then Returns (-10) resp n1
        else (case net_send_all (enc_header \<lparr>hdr_type = msg_code req_type, hdr_length = length body\<rparr>) n1 of
            (Transfer_blocked, _) \<Rightarrow> Waits
          | (Transfer_killed, _) \<Rightarrow> Killed
          | (Transfer_code _, n2) \<Rightarrow> Returns (-2) resp (disconnect_from_server n2)
          | (Transfer_ok, n2) \<Rightarrow>
              (let (sig, n3) = sigint_received n2 in
               if sig then Returns (-10) resp n3
               else (case (if body = [] then (Transfer_ok, n3) else net_send_all body n3) of
                   (Transfer_blocked, _) \<Rightarrow> Waits
                 | (Transfer_killed, _) \<Rightarrow> Killed
                 | (Transfer_code _, n4) \<Rightarrow> Returns (-2) resp (disconnect_from_server n4)
                 | (Transfer_ok, n4) \<Rightarrow>
                     (let (sig, n5) = sigint_received n4 in
                      if sig then Returns (-10) resp n5 else receive_response ejunk expected resp n5)))))"

section \<open>The typed requests\<close>

text \<open>Each takes the response struct as it was before the call, of the size of its type.\<close>

definition send_register_request :: "bytes \<Rightarrow> string \<Rightarrow> string \<Rightarrow> bytes \<Rightarrow> net \<Rightarrow> call" where
  "send_register_request ejunk username password resp n =
     send_request_and_receive_response ejunk MSG_TYPE_REGISTER_REQ (enc_credentials username password)
       MSG_TYPE_REGISTER_RESP (fit RESPONSE_SIZE resp) n"

definition send_login_request :: "bytes \<Rightarrow> string \<Rightarrow> string \<Rightarrow> bytes \<Rightarrow> net \<Rightarrow> call" where
  "send_login_request ejunk username password resp n =
     send_request_and_receive_response ejunk MSG_TYPE_LOGIN_REQ (enc_credentials username password)
       MSG_TYPE_LOGIN_RESP (fit RESPONSE_SIZE resp) n"

definition send_score_submit_request :: "bytes \<Rightarrow> int \<Rightarrow> bytes \<Rightarrow> net \<Rightarrow> call" where
  "send_score_submit_request ejunk score resp n =
     send_request_and_receive_response ejunk MSG_TYPE_SCORE_SUBMIT_REQ (enc_score_request score)
       MSG_TYPE_SCORE_SUBMIT_RESP (fit RESPONSE_SIZE resp) n"

definition send_leaderboard_request :: "bytes \<Rightarrow> bytes \<Rightarrow> net \<Rightarrow> call" where
  "send_leaderboard_request ejunk resp n =
     send_request_and_receive_response ejunk MSG_TYPE_LEADERBOARD_REQ []
       MSG_TYPE_LEADERBOARD_RESP (fit LEADERBOARD_SIZE resp) n"

definition send_logout_request :: "bytes \<Rightarrow> bytes \<Rightarrow> net \<Rightarrow> call" where
  "send_logout_request ejunk resp n =
     send_request_and_receive_response ejunk MSG_TYPE_LOGOUT_REQ []
       MSG_TYPE_LOGOUT_RESP (fit RESPONSE_SIZE resp) n"

definition send_wordlist_request :: "bytes \<Rightarrow> bytes \<Rightarrow> net \<Rightarrow> call" where
  "send_wordlist_request ejunk resp n =
     send_request_and_receive_response ejunk MSG_TYPE_WORDLIST_REQ []
       MSG_TYPE_WORDLIST_RESP (fit WORDLIST_SIZE resp) n"

section \<open>Undisturbed transfers\<close>

text \<open>No read of the flag finds a signal.\<close>

definition quiet :: "bool list \<Rightarrow> bool" where
  "quiet sig \<longleftrightarrow> True \<notin> set sig"

lemma quiet_step [simp]: "quiet sig \<Longrightarrow> quiet (tl sig)" "quiet sig \<Longrightarrow> \<not> (sig \<noteq> [] \<and> hd sig)"
  by (cases sig; auto simp: quiet_def)+

lemma quiet_flag: "quiet (net_sig n) \<Longrightarrow> \<exists>n'. sigint_received n = (False, n') \<and> quiet (net_sig n')
    \<and> net_connected n' = net_connected n \<and> net_recv n' = net_recv n \<and> net_send n' = net_send n \<and> net_out n' = net_out n"
  by (cases "net_sig n") (auto simp: sigint_received_def quiet_def)

lemma client_recv_all_quiet:
  "recv_all len got evs = (Received b, evs') \<Longrightarrow> quiet sig \<Longrightarrow>
     \<exists>sig'. client_recv_all len got sig evs = (Transfer_ok, b, sig', evs') \<and> quiet sig'"
proof (induction evs arbitrary: got sig)
  case Nil
  then have "len \<le> length got" by (cases "length got < len") auto
  then show ?case using Nil by (simp add: client_recv_all.simps)
next
  case (Cons e evs)
  show ?case
  proof (cases "len \<le> length got")
    case True
    then show ?thesis using Cons.prems by (simp add: client_recv_all.simps)
  next
    case False
    then show ?thesis using Cons.prems Cons.IH [of got "tl sig"] Cons.IH [of "got @ c" "tl sig" for c]
      by (cases e) (auto simp: client_recv_all.simps [of len got sig] split: if_splits)
  qed
qed

lemma net_recv_all_quiet:
  assumes "stream (net_recv n) = b @ rest" "quiet (net_sig n)"
  shows "\<exists>n'. net_recv_all (length b) n = (Transfer_ok, b, n') \<and> stream (net_recv n') = rest \<and> quiet (net_sig n')
    \<and> net_connected n' = net_connected n \<and> net_send n' = net_send n \<and> net_out n' = net_out n"
proof -
  obtain evs' where r: "recv_all (length b) [] (net_recv n) = (Received b, evs')" "stream evs' = rest"
    using recv_all_ok assms(1) by blast
  from client_recv_all_quiet [OF r(1) assms(2)]
  show ?thesis using r(2) by (auto simp: net_recv_all_def)
qed

lemma net_send_all_quiet:
  assumes "net_send n = Sent k # evs" "buf \<noteq> []" "length buf \<le> k" "quiet (net_sig n)"
  shows "\<exists>n'. net_send_all buf n = (Transfer_ok, n') \<and> net_send n' = evs \<and> net_out n' = net_out n @ buf
    \<and> quiet (net_sig n') \<and> net_connected n' = net_connected n \<and> net_recv n' = net_recv n"
proof -
  have "0 < k" using assms(2,3) by (cases buf) auto
  then have "client_send_all buf (net_sig n) (Sent k # evs) = (Transfer_ok, buf, tl (net_sig n), evs)"
    using assms quiet_step(2) [OF assms(4)] by (simp add: client_send_all.simps)
  then show ?thesis using assms(1,4) by (simp add: net_send_all_def)
qed

text \<open>The answers of \<open>send\<close> to one exchange with a peer that takes everything at once.\<close>

definition taking :: "nat \<Rightarrow> bytes \<Rightarrow> send_event list" where
  "taking k body = (if body = [] then [Sent k] else [Sent k, Sent k])"

lemma exchange_sends:
  assumes "net_connected n" "quiet (net_sig n)" "net_send n = taking k body @ evs"
    and "HEADER_SIZE \<le> k" "length body \<le> k"
  shows "\<exists>n'. send_request_and_receive_response ejunk t body expected resp n = receive_response ejunk expected resp n'
    \<and> net_connected n' \<and> quiet (net_sig n') \<and> net_send n' = evs \<and> net_recv n' = net_recv n
    \<and> net_out n' = net_out n @ enc_header \<lparr>hdr_type = msg_code t, hdr_length = length body\<rparr> @ body"
proof -
  let ?h = "enc_header \<lparr>hdr_type = msg_code t, hdr_length = length body\<rparr>"
  obtain n1 where n1: "sigint_received n = (False, n1)" "quiet (net_sig n1)" "net_connected n1"
      "net_recv n1 = net_recv n" "net_send n1 = net_send n" "net_out n1 = net_out n"
    using quiet_flag [OF assms(2)] assms(1) by auto
  obtain evs1 where evs1: "net_send n1 = Sent k # evs1" "evs1 = (if body = [] then evs else Sent k # evs)"
    using assms(3) n1 by (auto simp: taking_def)
  obtain n2 where n2: "net_send_all ?h n1 = (Transfer_ok, n2)" "net_send n2 = evs1" "net_out n2 = net_out n @ ?h"
      "quiet (net_sig n2)" "net_connected n2" "net_recv n2 = net_recv n"
    using net_send_all_quiet [OF evs1(1) _ _ n1(2), of ?h] assms(4) n1 by auto
  obtain n3 where n3: "sigint_received n2 = (False, n3)" "quiet (net_sig n3)" "net_connected n3"
      "net_recv n3 = net_recv n" "net_send n3 = evs1" "net_out n3 = net_out n @ ?h"
    using quiet_flag [OF n2(4)] n2 by auto
  obtain n4 where n4: "(if body = [] then (Transfer_ok, n3) else net_send_all body n3) = (Transfer_ok, n4)"
      "net_send n4 = evs" "net_out n4 = net_out n @ ?h @ body"
      "quiet (net_sig n4)" "net_connected n4" "net_recv n4 = net_recv n"
    using net_send_all_quiet [of n3 k evs body] assms(5) n3 evs1(2) by (cases "body = []") auto
  obtain n5 where n5: "sigint_received n4 = (False, n5)" "quiet (net_sig n5)" "net_connected n5"
      "net_recv n5 = net_recv n" "net_send n5 = evs" "net_out n5 = net_out n @ ?h @ body"
    using quiet_flag [OF n4(4)] n4 by auto
  show ?thesis using assms(1) n1(1) n2(1) n3(1) n4(1) n5
    by (intro exI [of _ n5]) (simp add: send_request_and_receive_response_def)
qed

lemma header_in:
  assumes "stream (net_recv n) = enc_header \<lparr>hdr_type = t, hdr_length = l\<rparr> @ rest" "quiet (net_sig n)"
    and "in_int32 t" "l < 2 ^ 16"
  shows "\<exists>hb n1 n2. net_recv_all HEADER_SIZE n = (Transfer_ok, hb, n1) \<and> dec_header hb = \<lparr>hdr_type = t, hdr_length = l\<rparr>
    \<and> sigint_received n1 = (False, n2) \<and> stream (net_recv n2) = rest \<and> quiet (net_sig n2)
    \<and> net_connected n2 = net_connected n \<and> net_send n2 = net_send n \<and> net_out n2 = net_out n"
proof -
  let ?h = "enc_header \<lparr>hdr_type = t, hdr_length = l\<rparr>"
  obtain n1 where n1: "net_recv_all (length ?h) n = (Transfer_ok, ?h, n1)" "stream (net_recv n1) = rest"
      "quiet (net_sig n1)" "net_connected n1 = net_connected n" "net_send n1 = net_send n" "net_out n1 = net_out n"
    using net_recv_all_quiet [OF assms(1,2)] by blast
  have "dec_header ?h = \<lparr>hdr_type = t, hdr_length = l\<rparr>"
    using dec_enc_header [of "\<lparr>hdr_type = t, hdr_length = l\<rparr>" "[]"] assms(3,4) by simp
  then show ?thesis using n1 quiet_flag [OF n1(3)] by auto
qed

lemma response_in:
  assumes "stream (net_recv n) = frame expected rb @ rest" "quiet (net_sig n)"
    and "expected \<noteq> MSG_TYPE_ERROR" "length rb \<le> length resp" "length rb < 2 ^ 16"
  shows "\<exists>n'. receive_response ejunk expected resp n = Returns 0 (overwrite 0 rb resp) n'
    \<and> stream (net_recv n') = rest \<and> quiet (net_sig n') \<and> net_connected n' = net_connected n
    \<and> net_send n' = net_send n \<and> net_out n' = net_out n"
proof -
  obtain hb n1 n2 where h: "net_recv_all HEADER_SIZE n = (Transfer_ok, hb, n1)"
      "dec_header hb = \<lparr>hdr_type = msg_code expected, hdr_length = length rb\<rparr>"
      "sigint_received n1 = (False, n2)" "stream (net_recv n2) = rb @ rest" "quiet (net_sig n2)"
      "net_connected n2 = net_connected n" "net_send n2 = net_send n" "net_out n2 = net_out n"
    using header_in [of n "msg_code expected" "length rb" "rb @ rest"] assms by (auto simp: frame_def)
  obtain n3 where r: "net_recv_all (length rb) n2 = (Transfer_ok, rb, n3)" "stream (net_recv n3) = rest"
      "quiet (net_sig n3)" "net_connected n3 = net_connected n" "net_send n3 = net_send n" "net_out n3 = net_out n"
    using net_recv_all_quiet [OF h(4,5)] h by auto
  have ne: "msg_code expected \<noteq> 0"
    using assms(3) msg_code_inj [of expected MSG_TYPE_ERROR] by simp
  show ?thesis
  proof (cases "rb = []")
    case True
    then show ?thesis using h ne assms(4) by (simp add: receive_response_def overwrite_def)
  next
    case False
    then show ?thesis using h r ne assms(4) by (simp add: receive_response_def)
  qed
qed

lemma exchange:
  assumes "net_connected n" "quiet (net_sig n)" "net_send n = taking k body @ evs"
    and "HEADER_SIZE \<le> k" "length body \<le> k" "stream (net_recv n) = frame expected rb @ rest"
    and "expected \<noteq> MSG_TYPE_ERROR" "length rb \<le> length resp" "length rb < 2 ^ 16"
  shows "\<exists>n'. send_request_and_receive_response ejunk t body expected resp n = Returns 0 (overwrite 0 rb resp) n'
    \<and> net_out n' = net_out n @ frame t body \<and> stream (net_recv n') = rest
    \<and> net_connected n' \<and> quiet (net_sig n') \<and> net_send n' = evs"
proof -
  obtain n1 where n1: "send_request_and_receive_response ejunk t body expected resp n = receive_response ejunk expected resp n1"
      "net_connected n1" "quiet (net_sig n1)" "net_send n1 = evs" "net_recv n1 = net_recv n"
      "net_out n1 = net_out n @ frame t body"
    using exchange_sends [OF assms(1-5), of ejunk t expected resp] unfolding frame_def by blast
  show ?thesis using response_in [of n1, OF _ n1(3) assms(7-9)] n1 assms(6) by auto
qed

text \<open>A request of the service, made through the typed function for it.\<close>

fun client_request :: "bytes \<Rightarrow> request \<Rightarrow> bytes \<Rightarrow> net \<Rightarrow> call" where
  "client_request ejunk (Register u p) = send_register_request ejunk u p"
| "client_request ejunk (Login u p) = send_login_request ejunk u p"
| "client_request ejunk (Submit n) = send_score_submit_request ejunk n"
| "client_request ejunk Get_leaderboard = send_leaderboard_request ejunk"
| "client_request ejunk Get_words = send_wordlist_request ejunk"
| "client_request ejunk Logout = send_logout_request ejunk"

lemma client_request_eq:
  "client_request ejunk r resp n =
     (let (t, size) = reply_shape (msg_code (request_type r)) in
      send_request_and_receive_response ejunk (request_type r) (body_bytes (request_body r)) t (fit size resp) n)"
  by (cases r)
    (simp_all add: reply_shape_def body_bytes_def send_register_request_def send_login_request_def
      send_score_submit_request_def send_leaderboard_request_def send_wordlist_request_def send_logout_request_def)

lemma reply_shape_not_error: "fst (reply_shape (msg_code (request_type r))) \<noteq> MSG_TYPE_ERROR"
  by (cases r) (simp_all add: reply_shape_def)

lemma overwrite_all: "length new = length old \<Longrightarrow> overwrite 0 new old = new"
  by (simp add: overwrite_def)

lemma client_understands:
  assumes "net_connected n" "quiet (net_sig n)" "MAX_BODY \<le> k"
    and "net_send n = taking k (body_bytes (request_body r)) @ evs"
    and "stream (net_recv n) = frame rt rb @ rest" "(rt, length rb) = reply_shape (msg_code (request_type r))"
  shows "\<exists>n'. client_request ejunk r resp n = Returns 0 rb n' \<and> net_out n' = net_out n @ request_frame r
    \<and> stream (net_recv n') = rest \<and> net_connected n' \<and> quiet (net_sig n') \<and> net_send n' = evs"
proof -
  have len: "length rb = length (fit (length rb) resp)" by simp
  have small: "length rb < 2 ^ 16"
    using reply_shape_size(2) [of "msg_code (request_type r)"] assms(6) by (auto simp: prod_eq_iff)
  have "rt \<noteq> MSG_TYPE_ERROR" using reply_shape_not_error [of r] assms(6) by (metis fst_conv)
  from exchange [OF assms(1,2,4) _ _ assms(5) this, of "fit (length rb) resp" ejunk "request_type r"]
  show ?thesis
    using request_body_length [of r] assms(3) small overwrite_all [OF len]
    by (simp add: client_request_eq request_frame_def assms(6) [symmetric])
qed

section \<open>Return codes and buffers\<close>

lemma client_recv_all_length:
  "client_recv_all len got sig evs = (r, b, sig', evs') \<Longrightarrow> length got \<le> len \<Longrightarrow> length b \<le> len"
proof (induction evs arbitrary: got sig)
  case Nil
  then show ?case by (auto simp: client_recv_all.simps split: if_splits)
next
  case (Cons e evs)
  show ?case
  proof (cases "len \<le> length got \<or> (sig \<noteq> [] \<and> hd sig)")
    case True
    then show ?thesis using Cons.prems by (auto simp: client_recv_all.simps split: if_splits)
  next
    case False
    then show ?thesis using Cons.prems Cons.IH [of got "tl sig"] Cons.IH [of "got @ c" "tl sig" for c]
      by (cases e) (auto simp: client_recv_all.simps [of len got sig] split: if_splits)
  qed
qed

lemma net_recv_all_frame:
  "net_recv_all len n = (r, got, n') \<Longrightarrow> length got \<le> len \<and> net_connected n' = net_connected n"
  by (auto simp: net_recv_all_def dest: client_recv_all_length split: prod.splits)

lemma net_send_all_connected: "net_send_all buf n = (r, n') \<Longrightarrow> net_connected n' = net_connected n"
  by (auto simp: net_send_all_def split: prod.splits)

lemma sigint_connected: "sigint_received n = (b, n') \<Longrightarrow> net_connected n' = net_connected n"
  by (auto simp: sigint_received_def split: list.splits)

lemma disconnected [simp]: "\<not> net_connected (disconnect_from_server n)"
  by (simp add: disconnect_from_server_def)

lemma store_error_length:
  "store_error ejunk got resp = Some resp' \<Longrightarrow> length got \<le> MAX_MSG_LEN \<Longrightarrow> RESPONSE_SIZE \<le> length resp \<Longrightarrow>
   length resp' = length resp"
  by (auto simp: store_error_def Let_def snprintf_str_def split: if_splits)

text \<open>
  What a call that has read a whole reply took from the stream: a header of the given type and the body it announces.
\<close>

definition takes_reply :: "int \<Rightarrow> bytes \<Rightarrow> net \<Rightarrow> net \<Rightarrow> bool" where
  "takes_reply t b n n' \<longleftrightarrow> (\<exists>h. length h = HEADER_SIZE \<and> hdr_type (dec_header h) = t \<and> length b = hdr_length (dec_header h)
     \<and> stream (net_recv n) = h @ b @ stream (net_recv n'))"

lemma client_recv_all_takes:
  "client_recv_all len got sig evs = (Transfer_ok, b, sig', evs') \<Longrightarrow> length got \<le> len \<Longrightarrow>
   length b = len \<and> (\<exists>t. b = got @ t \<and> stream evs = t @ stream evs')"
proof (induction evs arbitrary: got sig)
  case Nil
  then show ?case by (auto simp: client_recv_all.simps split: if_splits)
next
  case (Cons e evs)
  show ?case
  proof (cases "len \<le> length got \<or> (sig \<noteq> [] \<and> hd sig)")
    case True
    then show ?thesis using Cons.prems by (auto simp: client_recv_all.simps split: if_splits)
  next
    case False
    show ?thesis
    proof (cases e)
      case (Chunk c)
      show ?thesis
      proof (cases "length c \<le> len - length got")
        case True
        then have r: "client_recv_all len (got @ c) (tl sig) evs = (Transfer_ok, b, sig', evs')" "length (got @ c) \<le> len" "c \<noteq> []"
          using Cons.prems False Chunk by (auto simp: client_recv_all.simps [of len got sig] split: if_splits)
        then obtain t where "length b = len" "b = (got @ c) @ t" "stream evs = t @ stream evs'" using Cons.IH by blast
        then show ?thesis using r(3) Chunk by simp
      next
        case long: False
        then show ?thesis using Cons.prems False Chunk
          by (auto simp: client_recv_all.simps [of len got sig] split: if_splits)
      qed
    qed (use Cons.prems Cons.IH [of got "tl sig"] False in \<open>auto simp: client_recv_all.simps [of len got sig]\<close>)
  qed
qed

lemma net_recv_all_takes:
  "net_recv_all len n = (Transfer_ok, b, n') \<Longrightarrow> length b = len \<and> stream (net_recv n) = b @ stream (net_recv n')"
  using client_recv_all_takes [of len "[]" "net_sig n" "net_recv n" b "net_sig n'" "net_recv n'"]
  by (auto simp: net_recv_all_def split: prod.splits)

lemma sigint_received_recv: "sigint_received n = (b, n') \<Longrightarrow> net_recv n' = net_recv n"
  by (auto simp: sigint_received_def split: list.splits)

lemma net_send_all_recv: "net_send_all buf n = (r, n') \<Longrightarrow> net_recv n' = net_recv n"
  by (auto simp: net_send_all_def split: prod.splits)

lemma discard_body_takes:
  "discard_body k n = (r, n') \<Longrightarrow> net_connected n' \<Longrightarrow> r = Transfer_ok \<Longrightarrow>
   \<exists>b. length b = k \<and> stream (net_recv n) = b @ stream (net_recv n')"
proof (induction k n rule: discard_body.induct)
  case (1 k n)
  obtain q b n1 where q: "net_recv_all (min k 1024) n = (q, b, n1)" by (cases "net_recv_all (min k 1024) n")
  show ?case
  proof (cases "k = 0")
    case True
    then show ?thesis using "1.prems" by (simp add: discard_body.simps)
  next
    case False
    then have "q = Transfer_ok" using "1.prems" q by (cases q) (auto simp: discard_body.simps [of k n] Let_def)
    then have "discard_body (k - min k 1024) n1 = (r, n')" using "1.prems" q False by (simp add: discard_body.simps [of k n] Let_def)
    then obtain b' where b': "length b' = k - min k 1024" "stream (net_recv n1) = b' @ stream (net_recv n')"
      using "1.IH" [OF False refl q [unfolded \<open>q = Transfer_ok\<close>, symmetric] refl refl] "1.prems" by blast
    have "length b = min k 1024" "stream (net_recv n) = b @ stream (net_recv n1)"
      using net_recv_all_takes q \<open>q = Transfer_ok\<close> by auto
    then show ?thesis using b' by (intro exI [of _ "b @ b'"]) simp
  qed
qed

lemma discard_body_never_code: "discard_body k n = (r, n') \<Longrightarrow> r \<noteq> Transfer_code q"
proof (induction k n rule: discard_body.induct)
  case (1 k n)
  obtain q b n1 where q: "net_recv_all (min k 1024) n = (q, b, n1)" by (cases "net_recv_all (min k 1024) n")
  show ?case using 1 q by (cases q) (auto simp: discard_body.simps [of k n] Let_def split: if_splits)
qed

text \<open>
  The codes, the connection and the struct; what 0 and -5 have taken from the stream.
\<close>

definition code_ok :: "message_type \<Rightarrow> bytes \<Rightarrow> net \<Rightarrow> int \<Rightarrow> bytes \<Rightarrow> net \<Rightarrow> bool" where
  "code_ok expected resp n c resp' n' \<longleftrightarrow> length resp' = length resp
     \<and> c \<in> {0, -1, -2, -3, -4, -5, -6, -10}
     \<and> (c \<in> {-1, -2, -3} \<longrightarrow> \<not> net_connected n') \<and> (c \<in> {0, -4, -6, -10} \<longrightarrow> net_connected n')
     \<and> (c \<in> {-1, -2, -5, -6, -10} \<longrightarrow> resp' = resp)
     \<and> (c = 0 \<longrightarrow> (\<exists>b. length b \<le> length resp \<and> takes_reply (msg_code expected) b n n' \<and> resp' = overwrite 0 b resp))
     \<and> (c = -5 \<and> net_connected n' \<longrightarrow> (\<exists>t b. t \<noteq> msg_code expected \<and> takes_reply t b n n'))"

lemma overwrite_nothing [simp]: "overwrite 0 [] resp = resp"
  by (simp add: overwrite_def)

lemma receive_response_codes:
  assumes "receive_response ejunk expected resp n = Returns c resp' n'"
    and "RESPONSE_SIZE \<le> length resp" "net_connected n"
  shows "code_ok expected resp n c resp' n'"
proof -
  obtain r hb n1 where r: "net_recv_all HEADER_SIZE n = (r, hb, n1)" by (cases "net_recv_all HEADER_SIZE n")
  note c1 = net_recv_all_frame [OF r]
  obtain b n2 where sg: "sigint_received n1 = (b, n2)" by (cases "sigint_received n1")
  note c2 = sigint_connected [OF sg]
  let ?l = "hdr_length (dec_header hb)"
  obtain r3 got n3 where r3: "net_recv_all ?l n2 = (r3, got, n3)" by (cases "net_recv_all ?l n2")
  note c3 = net_recv_all_frame [OF r3]
  obtain r4 n4 where r4: "discard_body ?l n2 = (r4, n4)" by (cases "discard_body ?l n2")
  show ?thesis
  proof (cases r)
    case Transfer_ok
    have hd: "length hb = HEADER_SIZE" "stream (net_recv n) = hb @ stream (net_recv n2)"
      using net_recv_all_takes [OF r [unfolded Transfer_ok]] sigint_received_recv [OF sg] by simp_all
    then have takes: "takes_reply (hdr_type (dec_header hb)) d n m"
      if "length d = ?l" "stream (net_recv n2) = d @ stream (net_recv m)" for d m
      unfolding takes_reply_def using that by (intro exI [of _ hb]) simp
    from Transfer_ok consider (sig) b | (err) "\<not> b" "hdr_type (dec_header hb) = 0"
      | (bad) "\<not> b" "hdr_type (dec_header hb) \<noteq> 0" "hdr_type (dec_header hb) \<noteq> msg_code expected"
      | (good) "\<not> b" "hdr_type (dec_header hb) \<noteq> 0" "hdr_type (dec_header hb) = msg_code expected" by blast
    then show ?thesis
    proof cases
      case sig
      then show ?thesis using assms r Transfer_ok sg c1 c2 by (simp add: receive_response_def code_ok_def)
    next
      case err
      then show ?thesis using assms r Transfer_ok sg c1 c2 r3 c3 store_error_length [of ejunk got resp]
        by (auto simp: receive_response_def code_ok_def Let_def split: if_splits transfer.splits option.splits)
    next
      case bad
      have "\<exists>t d. t \<noteq> msg_code expected \<and> takes_reply t d n n4" if "r4 = Transfer_ok" "net_connected n4"
        using discard_body_takes [OF r4 that(2,1)] takes bad(3) by blast
      moreover have "r4 \<noteq> Transfer_code q" for q
        using r4 discard_body_never_code by (metis prod.inject)
      ultimately show ?thesis using assms r Transfer_ok sg r4 bad
        by (auto simp: receive_response_def code_ok_def Let_def split: transfer.splits)
    next
      case good
      have "takes_reply (msg_code expected) got n n3 \<and> length got = ?l" if "r3 = Transfer_ok"
        using net_recv_all_takes [OF r3 [unfolded that]] takes good(3) by auto
      then have "\<exists>d. length d \<le> length resp \<and> takes_reply (msg_code expected) d n n3 \<and> overwrite 0 got resp = overwrite 0 d resp"
        if "r3 = Transfer_ok" "?l \<le> length resp" using that by (intro exI [of _ got]) simp
      moreover have "\<exists>d. length d \<le> length resp \<and> takes_reply (msg_code expected) d n n2 \<and> resp = overwrite 0 d resp" if "?l = 0"
        using takes [of "[]" n2] that good(3) by (intro exI [of _ "[]"]) simp
      ultimately show ?thesis using assms r Transfer_ok sg c1 c2 r3 c3 good
        by (auto simp: receive_response_def code_ok_def Let_def split: if_splits transfer.splits)
    qed
  qed (use assms r c1 in \<open>auto simp: receive_response_def code_ok_def\<close>)
qed

lemma exchange_codes:
  assumes "send_request_and_receive_response ejunk t body expected resp n = Returns c resp' n'"
    and "RESPONSE_SIZE \<le> length resp"
  shows "code_ok expected resp n c resp' n'"
proof (cases "net_connected n")
  case False
  then show ?thesis using assms by (simp add: send_request_and_receive_response_def code_ok_def)
next
  case conn: True
  let ?h = "enc_header \<lparr>hdr_type = msg_code t, hdr_length = length body\<rparr>"
  obtain b1 n1 where s1: "sigint_received n = (b1, n1)" by (cases "sigint_received n")
  obtain r2 n2 where s2: "net_send_all ?h n1 = (r2, n2)" by (cases "net_send_all ?h n1")
  obtain b3 n3 where s3: "sigint_received n2 = (b3, n3)" by (cases "sigint_received n2")
  obtain r4 n4 where s4: "(if body = [] then (Transfer_ok, n3) else net_send_all body n3) = (r4, n4)" by fastforce
  obtain b5 n5 where s5: "sigint_received n4 = (b5, n5)" by (cases "sigint_received n4")
  have c: "net_connected n1" "net_connected n2" "net_connected n3" "net_connected n4" "net_connected n5"
    using sigint_connected [OF s1] net_send_all_connected [OF s2] sigint_connected [OF s3]
      net_send_all_connected [of body n3 r4 n4] s4 sigint_connected [OF s5] conn
    by (auto split: if_splits)
  have same: "net_recv n5 = net_recv n"
    using sigint_received_recv [OF s1] net_send_all_recv [OF s2] sigint_received_recv [OF s3]
      net_send_all_recv [of body n3 r4 n4] s4 sigint_received_recv [OF s5]
    by (auto split: if_splits)
  show ?thesis
    using assms conn s1 s2 s3 s4 s5 c same receive_response_codes [of ejunk expected resp n5 c resp' n', unfolded code_ok_def takes_reply_def same, folded takes_reply_def]
    by (auto simp: send_request_and_receive_response_def code_ok_def split: if_splits transfer.splits)
qed

section \<open>Requests and signals\<close>

text \<open>Each read of the flag takes one answer of the list; a request where no signal was to come leaves none to come.\<close>

lemma sigint_received_quiet: "sigint_received n = (b, n') \<Longrightarrow> quiet (net_sig n) \<Longrightarrow> quiet (net_sig n') \<and> \<not> b"
  by (cases "net_sig n") (auto simp: sigint_received_def quiet_def)

lemma client_send_all_sig: "client_send_all buf sig evs = (r, out, sig', evs') \<Longrightarrow> quiet sig \<Longrightarrow> quiet sig'"
proof (induction evs arbitrary: buf sig out)
  case Nil
  then show ?case by (auto simp: client_send_all.simps split: if_splits)
next
  case (Cons e evs)
  show ?case
  proof (cases "buf = []")
    case True
    then show ?thesis using Cons.prems by (auto simp: client_send_all.simps split: if_splits)
  next
    case False
    then show ?thesis using Cons.prems Cons.IH [of buf "tl sig"] Cons.IH [of "drop k buf" "tl sig" for k] quiet_step [OF Cons.prems(2)]
      by (cases e) (auto simp: client_send_all.simps [of buf sig] split: if_splits prod.splits)
  qed
qed

lemma client_recv_all_sig: "client_recv_all len got sig evs = (r, b, sig', evs') \<Longrightarrow> quiet sig \<Longrightarrow> quiet sig'"
proof (induction evs arbitrary: got sig)
  case Nil
  then show ?case by (auto simp: client_recv_all.simps split: if_splits)
next
  case (Cons e evs)
  show ?case
  proof (cases "len \<le> length got")
    case True
    then show ?thesis using Cons.prems by (auto simp: client_recv_all.simps split: if_splits)
  next
    case False
    then show ?thesis using Cons.prems Cons.IH [of got "tl sig"] Cons.IH [of "got @ c" "tl sig" for c] quiet_step [OF Cons.prems(2)]
      by (cases e) (auto simp: client_recv_all.simps [of len got sig] split: if_splits)
  qed
qed

lemma net_send_all_sig: "net_send_all buf n = (r, n') \<Longrightarrow> quiet (net_sig n) \<Longrightarrow> quiet (net_sig n')"
  by (auto simp: net_send_all_def dest: client_send_all_sig split: prod.splits)

lemma net_recv_all_sig: "net_recv_all len n = (r, b, n') \<Longrightarrow> quiet (net_sig n) \<Longrightarrow> quiet (net_sig n')"
  by (auto simp: net_recv_all_def dest: client_recv_all_sig split: prod.splits)

lemma disconnect_sig [simp]: "net_sig (disconnect_from_server n) = net_sig n"
  by (simp add: disconnect_from_server_def)

lemma discard_body_sig: "discard_body k n = (r, n') \<Longrightarrow> quiet (net_sig n) \<Longrightarrow> quiet (net_sig n')"
proof (induction k n rule: discard_body.induct)
  case (1 k n)
  obtain q b n1 where q: "net_recv_all (min k 1024) n = (q, b, n1)" by (cases "net_recv_all (min k 1024) n")
  show ?case using "1.prems" q net_recv_all_sig [OF q] "1.IH" [OF _ refl q [symmetric] _ refl]
    by (cases q) (auto simp: discard_body.simps [of k n] Let_def split: if_splits)
qed

lemma receive_response_sig:
  assumes "receive_response ejunk expected resp n = Returns c resp' n'" "quiet (net_sig n)"
  shows "quiet (net_sig n')"
proof -
  obtain r hb n1 where r: "net_recv_all HEADER_SIZE n = (r, hb, n1)" by (cases "net_recv_all HEADER_SIZE n")
  obtain b n2 where sg: "sigint_received n1 = (b, n2)" by (cases "sigint_received n1")
  let ?l = "hdr_length (dec_header hb)"
  obtain r3 got n3 where r3: "net_recv_all ?l n2 = (r3, got, n3)" by (cases "net_recv_all ?l n2")
  obtain r4 n4 where r4: "discard_body ?l n2 = (r4, n4)" by (cases "discard_body ?l n2")
  have q1: "quiet (net_sig n1)" using net_recv_all_sig [OF r assms(2)] .
  then have q2: "quiet (net_sig n2)" using sigint_received_quiet [OF sg] by blast
  note q = q1 q2 net_recv_all_sig [OF r3 q2] discard_body_sig [OF r4 q2]
  show ?thesis using assms(1) q r sg r3 r4
    by (auto simp: receive_response_def Let_def split: transfer.splits if_splits option.splits)
qed

lemma exchange_sig:
  assumes "send_request_and_receive_response ejunk t body expected resp n = Returns c resp' n'" "quiet (net_sig n)"
  shows "quiet (net_sig n')"
proof -
  let ?h = "enc_header \<lparr>hdr_type = msg_code t, hdr_length = length body\<rparr>"
  obtain b1 n1 where s1: "sigint_received n = (b1, n1)" by (cases "sigint_received n")
  obtain r2 n2 where s2: "net_send_all ?h n1 = (r2, n2)" by (cases "net_send_all ?h n1")
  obtain b3 n3 where s3: "sigint_received n2 = (b3, n3)" by (cases "sigint_received n2")
  obtain r4 n4 where s4: "(if body = [] then (Transfer_ok, n3) else net_send_all body n3) = (r4, n4)" by fastforce
  obtain b5 n5 where s5: "sigint_received n4 = (b5, n5)" by (cases "sigint_received n4")
  have q1: "quiet (net_sig n1)" using sigint_received_quiet [OF s1 assms(2)] by blast
  have q2: "quiet (net_sig n2)" using net_send_all_sig [OF s2 q1] .
  have q3: "quiet (net_sig n3)" using sigint_received_quiet [OF s3 q2] by blast
  have q4: "quiet (net_sig n4)" using s4 q3 net_send_all_sig [of body n3 r4 n4] by (auto split: if_splits)
  have q5: "quiet (net_sig n5)" using sigint_received_quiet [OF s5 q4] by blast
  show ?thesis
    using assms s1 s2 s3 s4 s5 q1 q2 q3 q4 q5 receive_response_sig [of ejunk expected resp n5 c resp' n']
    by (auto simp: send_request_and_receive_response_def split: if_splits transfer.splits)
qed

lemma client_request_sig:
  "client_request ejunk r resp n = Returns c resp' n' \<Longrightarrow> quiet (net_sig n) \<Longrightarrow> quiet (net_sig n')"
  by (auto simp: client_request_eq split_beta dest: exchange_sig)

section \<open>What a request sends\<close>

lemma client_send_all_prefix:
  "client_send_all buf sig evs = (r, out, sig', evs') \<Longrightarrow> prefix out buf \<and> (r = Transfer_ok \<longrightarrow> out = buf)"
proof (induction evs arbitrary: buf sig out)
  case Nil
  then show ?case by (auto simp: client_send_all.simps split: if_splits)
next
  case (Cons e evs)
  show ?case
  proof (cases "buf = [] \<or> (sig \<noteq> [] \<and> hd sig)")
    case True
    then show ?thesis using Cons.prems by (auto simp: client_send_all.simps split: if_splits)
  next
    case False
    show ?thesis
    proof (cases e)
      case (Sent k)
      obtain out2 where "k = 0 \<and> out = [] \<and> r \<noteq> Transfer_ok
          \<or> client_send_all (drop k buf) (tl sig) evs = (r, out2, sig', evs') \<and> out = take k buf @ out2"
        using Cons.prems False Sent by (auto simp: client_send_all.simps [of buf sig] split: if_splits prod.splits)
      then show ?thesis using Cons.IH [of "drop k buf" "tl sig" out2] append_take_drop_id [of k buf]
        by (metis Nil_prefix same_prefix_prefix)
    qed (use Cons.prems Cons.IH [of buf "tl sig"] False in \<open>auto simp: client_send_all.simps [of buf sig]\<close>)
  qed
qed

lemma net_send_all_out:
  "net_send_all buf n = (r, n') \<Longrightarrow> \<exists>out. net_out n' = net_out n @ out \<and> prefix out buf \<and> (r = Transfer_ok \<longrightarrow> out = buf)"
  by (auto simp: net_send_all_def dest!: client_send_all_prefix split: prod.splits)

lemma unsent [simp]:
  "net_out (disconnect_from_server n) = net_out n" "net_out (snd (sigint_received n)) = net_out n"
  by (simp_all add: disconnect_from_server_def sigint_received_def split: list.split)

lemma sigint_received_out: "sigint_received n = (b, n') \<Longrightarrow> net_out n' = net_out n"
  by (metis unsent(2) snd_conv)

lemma net_recv_all_out: "net_recv_all len n = (r, got, n') \<Longrightarrow> net_out n' = net_out n"
  by (auto simp: net_recv_all_def split: prod.splits)

lemma discard_body_out: "discard_body k n = (r, n') \<Longrightarrow> net_out n' = net_out n"
proof (induction k n rule: discard_body.induct)
  case (1 k n)
  then show ?case
    by (auto simp: discard_body.simps [of k n] Let_def split: if_splits prod.splits transfer.splits dest!: net_recv_all_out)
qed

lemma receive_response_out:
  assumes "receive_response ejunk expected resp n = Returns c resp' n'"
  shows "net_out n' = net_out n"
proof -
  obtain r hb n1 where r: "net_recv_all HEADER_SIZE n = (r, hb, n1)" by (cases "net_recv_all HEADER_SIZE n")
  obtain b n2 where sg: "sigint_received n1 = (b, n2)" by (cases "sigint_received n1")
  let ?l = "hdr_length (dec_header hb)"
  obtain r3 got n3 where r3: "net_recv_all ?l n2 = (r3, got, n3)" by (cases "net_recv_all ?l n2")
  obtain r4 n4 where r4: "discard_body ?l n2 = (r4, n4)" by (cases "discard_body ?l n2")
  note out = net_recv_all_out [OF r] sigint_received_out [OF sg] net_recv_all_out [OF r3] discard_body_out [OF r4]
  show ?thesis
    using assms r sg r3 r4 out
    by (auto simp: receive_response_def Let_def split: transfer.splits if_splits option.splits)
qed

lemma exchange_sends_prefix:
  assumes "send_request_and_receive_response ejunk t body expected resp n = Returns c resp' n'"
  shows "\<exists>out. net_out n' = net_out n @ out \<and> prefix out (frame t body)"
proof (cases "net_connected n")
  case False
  then show ?thesis using assms by (simp add: send_request_and_receive_response_def)
next
  case True
  let ?h = "enc_header \<lparr>hdr_type = msg_code t, hdr_length = length body\<rparr>"
  obtain b1 n1 where s1: "sigint_received n = (b1, n1)" by (cases "sigint_received n")
  obtain r2 n2 where s2: "net_send_all ?h n1 = (r2, n2)" by (cases "net_send_all ?h n1")
  obtain b3 n3 where s3: "sigint_received n2 = (b3, n3)" by (cases "sigint_received n2")
  obtain r4 n4 where s4: "(if body = [] then (Transfer_ok, n3) else net_send_all body n3) = (r4, n4)" by fastforce
  obtain b5 n5 where s5: "sigint_received n4 = (b5, n5)" by (cases "sigint_received n4")
  obtain out2 where out2: "net_out n2 = net_out n1 @ out2" "prefix out2 ?h" "r2 = Transfer_ok \<longrightarrow> out2 = ?h"
    using net_send_all_out [OF s2] by blast
  have "\<exists>out. net_out n4 = net_out n3 @ out \<and> prefix out body"
    using s4 net_send_all_out [of body n3 r4 n4] by (cases "body = []") auto
  then obtain out4 where out4: "net_out n4 = net_out n3 @ out4" "prefix out4 body" by blast
  note same = sigint_received_out [OF s1] sigint_received_out [OF s3] sigint_received_out [OF s5]
  have pre: "prefix out2 (frame t body)" "prefix (?h @ out4) (frame t body)"
    using out2(2) out4(2) by (simp_all add: frame_def prefix_prefix)
  show ?thesis
  proof (cases "r2 = Transfer_ok \<and> \<not> b1 \<and> \<not> b3")
    case True
    then have "net_out n' = net_out n @ ?h @ out4"
      using assms \<open>net_connected n\<close> s1 s2 s3 s4 s5 out2 out4 same receive_response_out [of ejunk expected resp n5 c resp' n']
      by (auto simp: send_request_and_receive_response_def split: transfer.splits if_splits)
    then show ?thesis using pre(2) by blast
  next
    case False
    then have "net_out n' = net_out n \<or> net_out n' = net_out n @ out2"
      using assms \<open>net_connected n\<close> s1 s2 s3 out2 same
      by (auto simp: send_request_and_receive_response_def split: transfer.splits if_splits)
    then show ?thesis using pre(1) by (metis append_Nil2 Nil_prefix)
  qed
qed

section \<open>Properties\<close>

text \<open>
  Claim C29. Client and server agree: when the server handles a well-formed request and its reply comes back,
  the client's typed call has sent exactly the request's frame, returns 0, and its response struct is
  the server's reply, which says what the abstract service answers; the connection stays open and
  nothing is left unread.
\<close>

theorem client_understands_server:
  assumes "service_rel s v" "session_rel v me" "request_ok r" "env_works env"
    and "service_step r me v = (ok, me', v')"
    and "net_connected n" "quiet (net_sig n)" "MAX_BODY \<le> k"
    and "net_send n = taking k (body_bytes (request_body r)) @ evs"
  shows "\<exists>rt rb s'. handle_message env sock (msg_code (request_type r)) (request_body r) me s = Some ((rt, rb), me', s')
    \<and> reply_says r ok v (srv_words s) rb
    \<and> (\<forall>rest. stream (net_recv n) = frame rt rb @ rest \<longrightarrow>
         (\<exists>n'. client_request ejunk r resp n = Returns 0 rb n' \<and> net_out n' = net_out n @ request_frame r
            \<and> stream (net_recv n') = rest \<and> net_connected n'))"
proof -
  obtain rt rb s' where h: "handle_message env sock (msg_code (request_type r)) (request_body r) me s = Some ((rt, rb), me', s')"
      and says: "reply_says r ok v (srv_words s) rb"
    using handler_refines [OF assms(1-5), of sock] by blast
  have "words_ok s" using assms(1) by (simp add: service_rel_def)
  then have "(rt, length rb) = reply_shape (msg_code (request_type r))" using message_reply_shape [OF h] by simp
  then show ?thesis using client_understands [OF assms(6-9)] h says by blast
qed

theorem client_understands_server_witness:
  "\<exists>rb n'. client_request [] Get_words []
       \<lparr>net_connected = True, net_sig = [], net_recv = [Chunk (frame MSG_TYPE_WORDLIST_RESP (enc_wordlist [''rain'']))],
        net_send = [Sent 20000], net_out = []\<rparr> = Returns 0 rb n'
     \<and> wordlist_word rb 0 = ''rain'' \<and> net_connected n'"
proof -
  let ?n = "\<lparr>net_connected = True, net_sig = [], net_recv = [Chunk (frame MSG_TYPE_WORDLIST_RESP (enc_wordlist [''rain'']))],
        net_send = [Sent 20000], net_out = []\<rparr>"
  have sess: "session_rel fresh_service []" by (simp add: session_rel_def)
  have str: "stream (net_recv ?n) = frame MSG_TYPE_WORDLIST_RESP (enc_wordlist [''rain'']) @ []"
    by (simp add: frame_def)
  have words: "srv_words fresh_server = [''rain'']" by (simp add: fresh_server_def)
  have send: "net_send ?n = taking 20000 (body_bytes (request_body Get_words)) @ []"
    by (simp add: taking_def body_bytes_def)
  obtain rt rb s' where h: "handle_message sample_env 4 (msg_code (request_type Get_words)) (request_body Get_words) [] fresh_server
        = Some ((rt, rb), [], s')" and says: "reply_says Get_words True fresh_service (srv_words fresh_server) rb"
      and call: "\<And>rest. stream (net_recv ?n) = frame rt rb @ rest \<Longrightarrow>
         \<exists>n'. client_request [] Get_words [] ?n = Returns 0 rb n' \<and> net_out n' = net_out ?n @ request_frame Get_words
            \<and> stream (net_recv n') = rest \<and> net_connected n'"
    using client_understands_server [OF fresh_rel sess _ sample_env_works _ _ _ _ send,
        where ok = True and me' = "[]" and v' = fresh_service and ejunk = "[]" and sock = 4 and resp = "[]"]
    by (auto simp: quiet_def)
  have "rt = MSG_TYPE_WORDLIST_RESP" "rb = enc_wordlist [''rain'']" using h by (simp_all add: handle_message_def words)
  then show ?thesis using call [of "[]"] str says by (auto simp: words)
qed

text \<open>
  Claim C30. Whatever the peer sends and whenever a signal comes, a request that returns has one of eight
  codes and never writes outside the caller's struct. After -1, -2 and -3 the connection is closed. After 0, an error reply (-4, also
  when its message could not be received), a reply that is too long (-6) and a signal (-10) it is open. A call that returns 0 has
  taken one whole reply of the expected type from the stream, and the struct holds its body in front of its old
  bytes; a call that returns -5 with the connection open has taken one whole reply of another type (the connection is
  closed when that failed). The struct is as it was for -1, -2, -5, -6 and -10.
\<close>

theorem client_codes_and_buffer:
  assumes "client_request ejunk r resp n = Returns c resp' n'" "(t, sz) = reply_shape (msg_code (request_type r))"
  shows "length resp' = sz
    \<and> c \<in> {0, -1, -2, -3, -4, -5, -6, -10}
    \<and> (c \<in> {-1, -2, -3} \<longrightarrow> \<not> net_connected n') \<and> (c \<in> {0, -4, -6, -10} \<longrightarrow> net_connected n')
    \<and> (c \<in> {-1, -2, -5, -6, -10} \<longrightarrow> resp' = fit sz resp)
    \<and> (c = 0 \<longrightarrow> (\<exists>b. length b \<le> sz \<and> takes_reply (msg_code t) b n n' \<and> resp' = overwrite 0 b (fit sz resp)))
    \<and> (c = -5 \<and> net_connected n' \<longrightarrow> (\<exists>t' b. t' \<noteq> msg_code t \<and> takes_reply t' b n n'))"
proof -
  have "sz = snd (reply_shape (msg_code (request_type r)))" using assms(2) by (metis snd_conv)
  then have "RESPONSE_SIZE \<le> length (fit sz resp)" by (cases r) (simp_all add: reply_shape_def)
  then have "code_ok t (fit sz resp) n c resp' n'"
    using exchange_codes assms(1) by (auto simp: client_request_eq assms(2) [symmetric])
  then show ?thesis unfolding code_ok_def by simp
qed

theorem client_codes_and_buffer_witness:
  "(\<exists>resp n'. client_request [] Logout [] \<lparr>net_connected = True, net_sig = [False, True], net_recv = [], net_send = [Sent 6],
      net_out = []\<rparr> = Returns (-2) resp n' \<and> \<not> net_connected n')
   \<and> (\<exists>resp b n n'. client_request [] Logout [] n = Returns 0 resp n' \<and> net_recv n = [Chunk (frame MSG_TYPE_LOGOUT_RESP [NUL, NUL])]
      \<and> takes_reply (msg_code MSG_TYPE_LOGOUT_RESP) b n n' \<and> resp = overwrite 0 b (fit 132 []))"
proof
  let ?n = "\<lparr>net_connected = True, net_sig = [False, True], net_recv = [], net_send = [Sent 6], net_out = []\<rparr>"
  have shape: "(MSG_TYPE_LOGOUT_RESP, 132) = reply_shape (msg_code (request_type Logout))" by (simp add: reply_shape_def)
  obtain resp n' where c: "client_request [] Logout [] ?n = Returns (-2) resp n'"
    by (simp add: send_logout_request_def send_request_and_receive_response_def
        sigint_received_def net_send_all_def client_send_all.simps)
  then show "\<exists>resp n'. client_request [] Logout [] ?n = Returns (-2) resp n' \<and> \<not> net_connected n'"
    using client_codes_and_buffer [OF c shape] by auto
  let ?m = "\<lparr>net_connected = True, net_sig = [], net_recv = [Chunk (frame MSG_TYPE_LOGOUT_RESP [NUL, NUL])],
      net_send = taking 6 [], net_out = []\<rparr>"
  have "frame MSG_TYPE_LOGOUT_RESP [NUL, NUL] \<noteq> []" by (simp add: frame_def)
  then obtain m' where m': "client_request [] Logout [] ?m = Returns 0 (overwrite 0 [NUL, NUL] (fit 132 [])) m'"
    using exchange [of ?m 6 "[]" "[]" MSG_TYPE_LOGOUT_RESP "[NUL, NUL]" "[]" "fit 132 []" "[]" MSG_TYPE_LOGOUT_REQ]
    by (auto simp: send_logout_request_def quiet_def body_bytes_def)
  then show "\<exists>resp b n n'. client_request [] Logout [] n = Returns 0 resp n' \<and> net_recv n = [Chunk (frame MSG_TYPE_LOGOUT_RESP [NUL, NUL])]
      \<and> takes_reply (msg_code MSG_TYPE_LOGOUT_RESP) b n n' \<and> resp = overwrite 0 b (fit 132 [])"
  proof -
    obtain b where b: "takes_reply (msg_code MSG_TYPE_LOGOUT_RESP) b ?m m'" "overwrite 0 [NUL, NUL] (fit 132 []) = overwrite 0 b (fit 132 [])"
      using client_codes_and_buffer [OF m' shape] by auto
    have "net_recv ?m = [Chunk (frame MSG_TYPE_LOGOUT_RESP [NUL, NUL])]" by simp
    then show ?thesis using m' b by blast
  qed
qed

lemma oversized_reply:
  assumes "net_connected n" "quiet (net_sig n)" "net_send n = taking k body @ evs" "HEADER_SIZE \<le> k" "length body \<le> k"
    and "stream (net_recv n) = enc_header \<lparr>hdr_type = msg_code expected, hdr_length = l\<rparr> @ rest"
    and "expected \<noteq> MSG_TYPE_ERROR" "length resp < l" "l < 2 ^ 16"
  shows "\<exists>n'. send_request_and_receive_response ejunk t body expected resp n = Returns (-6) resp n'
    \<and> stream (net_recv n') = rest \<and> net_connected n' \<and> quiet (net_sig n') \<and> net_send n' = evs"
proof -
  obtain n1 where n1: "send_request_and_receive_response ejunk t body expected resp n = receive_response ejunk expected resp n1"
      "net_connected n1" "quiet (net_sig n1)" "net_send n1 = evs" "net_recv n1 = net_recv n"
    using exchange_sends [OF assms(1-5), of ejunk t expected resp] by blast
  obtain hb n2 n3 where h: "net_recv_all HEADER_SIZE n1 = (Transfer_ok, hb, n2)"
      "dec_header hb = \<lparr>hdr_type = msg_code expected, hdr_length = l\<rparr>"
      "sigint_received n2 = (False, n3)" "stream (net_recv n3) = rest" "quiet (net_sig n3)"
      "net_connected n3" "net_send n3 = evs"
    using header_in [of n1 "msg_code expected" l rest] assms(6,9) n1 by auto
  have "msg_code expected \<noteq> 0" using assms(7) msg_code_inj [of expected MSG_TYPE_ERROR] by simp
  then show ?thesis using n1(1) h assms(8) by (simp add: receive_response_def)
qed

text \<open>
  A reply that is longer than the caller's struct is refused with -6, but its body is not read:
  it stays in the stream, and the next request takes it for its reply. When those bytes form a frame of
  the expected type, of any length up to the struct's, the next request returns 0 with them, its
  struct keeping its old bytes behind them.
\<close>

theorem refused_body_is_taken_for_next_reply:
  assumes "net_connected n" "quiet (net_sig n)" "MAX_BODY \<le> k"
    and "net_send n = taking k (body_bytes (request_body r1)) @ taking k (body_bytes (request_body r2)) @ evs"
    and "(t1, size1) = reply_shape (msg_code (request_type r1))" "size1 < l" "l < 2 ^ 16"
    and "(t2, size2) = reply_shape (msg_code (request_type r2))" "length rb \<le> size2"
    and "stream (net_recv n) = enc_header \<lparr>hdr_type = msg_code t1, hdr_length = l\<rparr> @ frame t2 rb @ rest"
  shows "\<exists>n1 n2. client_request ejunk r1 resp1 n = Returns (-6) (fit size1 resp1) n1
    \<and> client_request ejunk r2 resp2 n1 = Returns 0 (overwrite 0 rb (fit size2 resp2)) n2"
proof -
  have ne: "t1 \<noteq> MSG_TYPE_ERROR" "t2 \<noteq> MSG_TYPE_ERROR"
    using reply_shape_not_error assms(5,8) by (metis fst_conv)+
  have small: "length rb < 2 ^ 16"
    using reply_shape_size(2) [of "msg_code (request_type r2)"] assms(8,9) by (auto simp: prod_eq_iff)
  have k: "HEADER_SIZE \<le> k" "length (body_bytes (request_body r)) \<le> k" for r
    using request_body_length [of r] assms(3) by auto
  obtain n1 where n1: "client_request ejunk r1 resp1 n = Returns (-6) (fit size1 resp1) n1"
      "stream (net_recv n1) = frame t2 rb @ rest" "net_connected n1" "quiet (net_sig n1)"
      "net_send n1 = taking k (body_bytes (request_body r2)) @ evs"
    using oversized_reply [OF assms(1,2,4) k assms(10) ne(1), of "fit size1 resp1" ejunk "request_type r1"] assms(6,7)
    by (auto simp: client_request_eq assms(5) [symmetric])
  obtain n2 where "client_request ejunk r2 resp2 n1 = Returns 0 (overwrite 0 rb (fit size2 resp2)) n2"
    using exchange [OF n1(3,4,5) k n1(2) ne(2), of "fit size2 resp2" ejunk "request_type r2"] assms(9) small
    by (auto simp: client_request_eq assms(8) [symmetric])
  then show ?thesis using n1(1) by blast
qed

theorem refused_body_is_taken_for_next_reply_witness:
  "\<exists>n0 n1 n2. client_request [] Logout [] n0 = Returns (-6) (fit 132 []) n1
     \<and> client_request [] Get_leaderboard [] n1 = Returns 0 (overwrite 0 (enc_int 1) (fit LEADERBOARD_SIZE [])) n2"
proof -
  let ?n = "\<lparr>net_connected = True, net_sig = [],
     net_recv = [Chunk (enc_header \<lparr>hdr_type = msg_code MSG_TYPE_LOGOUT_RESP, hdr_length = 133\<rparr>
        @ frame MSG_TYPE_LEADERBOARD_RESP (enc_int 1))],
     net_send = [Sent 20000, Sent 20000], net_out = []\<rparr>"
  have str: "stream (net_recv ?n) = enc_header \<lparr>hdr_type = msg_code MSG_TYPE_LOGOUT_RESP, hdr_length = 133\<rparr>
      @ frame MSG_TYPE_LEADERBOARD_RESP (enc_int 1) @ []"
    by simp
  show ?thesis
    using refused_body_is_taken_for_next_reply [where n = ?n and k = 20000 and ?r1.0 = Logout and ?r2.0 = Get_leaderboard
        and evs = "[]" and ?size1.0 = 132 and ejunk = "[]" and ?resp1.0 = "[]" and ?resp2.0 = "[]", OF _ _ _ _ _ _ _ _ _ str]
    by (simp add: quiet_def taking_def body_bytes_def reply_shape_def) blast
qed

end
