(* ===== verification/Active_Words.thy ===== *)
theory Active_Words
  imports Login_Table
begin

text \<open>
  The hash table of the words on the screen (\<^verbatim>\<open>client/src/game_logic.c\<close>): 64 buckets of chained
  nodes with words of at most 29 bytes, each operation one critical section of \<open>hash_mutex\<close>. It satisfies the
  contract \<open>name_set\<close> of the server's login table.
\<close>

section \<open>The table\<close>

abbreviation MAX_WORD_LEN :: nat where "MAX_WORD_LEN \<equiv> 30"
abbreviation HASH_TABLE_SIZE :: nat where "HASH_TABLE_SIZE \<equiv> 64"

text \<open>A node list is the list of its words; \<open>total_count\<close> is an \<open>int\<close>.\<close>

record active_table =
  buckets :: "string list list"
  total_count :: int

text \<open>The value of a \<open>char\<close> as an \<open>int\<close>: \<open>char\<close> is signed.\<close>

definition char_int :: "char \<Rightarrow> int" where
  "char_int c = (let n = of_char c :: int in if n < 128 then n else n - 256)"

fun hash_loop :: "32 word \<Rightarrow> string \<Rightarrow> 32 word" where
  "hash_loop hash [] = hash"
| "hash_loop hash (c # cs) = hash_loop ((push_bit 5 hash + hash) + word_of_int (char_int c)) cs"

definition hash_function :: "string \<Rightarrow> nat" where
  "hash_function str = unat (hash_loop 5381 str) mod HASH_TABLE_SIZE"

definition init_active_word_table :: "bool \<Rightarrow> active_table \<Rightarrow> bool \<times> active_table" where
  "init_active_word_table mutex_ok t = (mutex_ok, \<lparr>buckets = replicate HASH_TABLE_SIZE [], total_count = 0\<rparr>)"

definition cleanup_active_word_table :: "active_table \<Rightarrow> active_table" where
  "cleanup_active_word_table t = \<lparr>buckets = replicate HASH_TABLE_SIZE [], total_count = 0\<rparr>"

fun chain_has :: "string \<Rightarrow> string list \<Rightarrow> bool" where
  "chain_has word [] = False"
| "chain_has word (w # ws) = (if strcmp w word = 0 then True else chain_has word ws)"

text \<open>The chain without its first node for the word, or none when there is no such node.\<close>

fun chain_remove :: "string \<Rightarrow> string list \<Rightarrow> string list option" where
  "chain_remove word [] = None"
| "chain_remove word (w # ws) =
     (if strcmp w word = 0 then Some ws
      else (case chain_remove word ws of None \<Rightarrow> None | Some ws' \<Rightarrow> Some (w # ws')))"

definition add_active_word :: "bool \<Rightarrow> string option \<Rightarrow> active_table \<Rightarrow> bool \<times> active_table" where
  "add_active_word malloc_ok word_ptr t =
     (case word_ptr of
        None \<Rightarrow> (False, t)
      | Some word \<Rightarrow>
          (let index = hash_function word in
           if chain_has word (buckets t ! index) then (False, t)
           else if \<not> malloc_ok then (False, t)
           else (True, \<lparr>buckets = (buckets t)[index := strncpy_str MAX_WORD_LEN word # buckets t ! index],
                        total_count = total_count t + 1\<rparr>)))"

definition remove_active_word :: "string option \<Rightarrow> active_table \<Rightarrow> bool \<times> active_table" where
  "remove_active_word word_ptr t =
     (case word_ptr of
        None \<Rightarrow> (False, t)
      | Some word \<Rightarrow>
          (let index = hash_function word in
           case chain_remove word (buckets t ! index) of
             None \<Rightarrow> (False, t)
           | Some chain \<Rightarrow> (True, \<lparr>buckets = (buckets t)[index := chain], total_count = total_count t - 1\<rparr>)))"

definition is_word_in_active_table :: "string option \<Rightarrow> active_table \<Rightarrow> bool" where
  "is_word_in_active_table word_ptr t =
     (case word_ptr of
        None \<Rightarrow> False
      | Some word \<Rightarrow> chain_has word (buckets t ! hash_function word))"

section \<open>The invariant\<close>

text \<open>Every word is in the bucket of its hash, once, and the counter counts the nodes.\<close>

definition active_inv :: "active_table \<Rightarrow> bool" where
  "active_inv t \<longleftrightarrow> length (buckets t) = HASH_TABLE_SIZE
     \<and> (\<forall>i < HASH_TABLE_SIZE. distinct (buckets t ! i)
          \<and> (\<forall>w \<in> set (buckets t ! i). hash_function w = i \<and> length w < MAX_WORD_LEN))
     \<and> total_count t = int (length (concat (buckets t)))"

definition active_words :: "active_table \<Rightarrow> string set" where
  "active_words t = set (concat (buckets t))"

lemma hash_function_bound [simp]: "hash_function w < HASH_TABLE_SIZE"
  by (simp add: hash_function_def)

lemma chain_has_iff [simp]: "chain_has w ws \<longleftrightarrow> w \<in> set ws"
  by (induction ws) auto

lemma chain_remove_eq: "chain_remove w ws = (if w \<in> set ws then Some (remove1 w ws) else None)"
  by (induction ws) auto

lemma concat_update:
  "i < length xss \<Longrightarrow> length (concat (xss[i := ys])) + length (xss ! i) = length (concat xss) + length ys"
proof (induction xss arbitrary: i)
  case (Cons xs xss)
  then show ?case by (cases i) auto
qed simp

lemma set_concat_nth: "w \<in> set (concat xss) \<longleftrightarrow> (\<exists>j < length xss. w \<in> set (xss ! j))"
  by simp (metis in_set_conv_nth)

lemma set_concat_update:
  "i < length xss \<Longrightarrow> w \<in> set (concat (xss[i := ys])) \<longleftrightarrow> w \<in> set ys \<or> (\<exists>j < length xss. j \<noteq> i \<and> w \<in> set (xss ! j))"
  unfolding set_concat_nth by (auto simp: nth_list_update split: if_splits)

lemma distinct_concat_lists:
  assumes "\<forall>i < length xss. distinct (xss ! i)"
    and "\<forall>i < length xss. \<forall>j < length xss. i \<noteq> j \<longrightarrow> set (xss ! i) \<inter> set (xss ! j) = {}"
  shows "distinct (concat xss)"
  using assms
proof (induction xss)
  case (Cons xs xss)
  have "distinct (concat xss)"
  proof (rule Cons.IH)
    show "\<forall>i < length xss. distinct (xss ! i)"
      using Cons.prems(1) by (metis Suc_less_eq length_Cons nth_Cons_Suc)
    show "\<forall>i < length xss. \<forall>j < length xss. i \<noteq> j \<longrightarrow> set (xss ! i) \<inter> set (xss ! j) = {}"
      using Cons.prems(2) by (metis Suc_inject Suc_less_eq length_Cons nth_Cons_Suc)
  qed
  moreover have "set xs \<inter> set (concat xss) = {}"
  proof -
    have "set xs \<inter> set (xss ! j) = {}" if "j < length xss" for j
      using Cons.prems(2) [rule_format, of 0 "Suc j"] that by simp
    then show ?thesis using set_concat_nth [of _ xss] by blast
  qed
  ultimately show ?case using Cons.prems(1) [rule_format, of 0] by simp
qed simp

lemma active_words_hash:
  assumes "active_inv t"
  shows "w \<in> active_words t \<longleftrightarrow> w \<in> set (buckets t ! hash_function w)"
proof -
  have len: "length (buckets t) = HASH_TABLE_SIZE" using assms by (simp add: active_inv_def)
  have "w \<in> active_words t \<longleftrightarrow> (\<exists>i < HASH_TABLE_SIZE. w \<in> set (buckets t ! i))"
    using len unfolding active_words_def set_concat_nth by simp
  then show ?thesis using assms hash_function_bound [of w] unfolding active_inv_def by metis
qed

lemma is_word_iff:
  "active_inv t \<Longrightarrow> is_word_in_active_table (Some w) t \<longleftrightarrow> w \<in> active_words t"
  by (simp add: is_word_in_active_table_def active_words_hash)

lemma active_inv_replace:
  assumes "active_inv t" "distinct chain" "\<forall>w \<in> set chain. hash_function w = i \<and> length w < MAX_WORD_LEN"
    and "i < HASH_TABLE_SIZE" "n + int (length (buckets t ! i)) = total_count t + int (length chain)"
  shows "active_inv \<lparr>buckets = (buckets t)[i := chain], total_count = n\<rparr>"
proof -
  have "length (concat ((buckets t)[i := chain])) + length (buckets t ! i) = length (concat (buckets t)) + length chain"
    using assms(1,4) by (intro concat_update) (simp add: active_inv_def)
  then have "n = int (length (concat ((buckets t)[i := chain])))"
    using assms(1,5) by (simp add: active_inv_def)
  then show ?thesis using assms by (auto simp: active_inv_def nth_list_update)
qed

lemma active_words_replace:
  assumes "active_inv t" "i < HASH_TABLE_SIZE" "\<forall>w \<in> set chain. hash_function w = i"
  shows "active_words \<lparr>buckets = (buckets t)[i := chain], total_count = n\<rparr>
    = set chain \<union> {w \<in> active_words t. hash_function w \<noteq> i}"
proof -
  have len: "length (buckets t) = HASH_TABLE_SIZE" using assms(1) by (simp add: active_inv_def)
  have own: "w \<in> set (buckets t ! j) \<Longrightarrow> j < HASH_TABLE_SIZE \<Longrightarrow> hash_function w = j" for w j
    using assms(1) by (simp add: active_inv_def)
  have "w \<in> set (concat ((buckets t)[i := chain])) \<longleftrightarrow>
      w \<in> set chain \<or> w \<in> active_words t \<and> hash_function w \<noteq> i" for w
    using set_concat_update [of i "buckets t" w chain] assms(2) len own active_words_hash [OF assms(1), of w]
      hash_function_bound [of w] by metis
  then show ?thesis by (auto simp: active_words_def)
qed

lemma bucket_words:
  "active_inv t \<Longrightarrow> w \<in> set (buckets t ! i) \<Longrightarrow> i < HASH_TABLE_SIZE \<Longrightarrow> hash_function w = i \<and> length w < MAX_WORD_LEN"
  by (simp add: active_inv_def)

lemma bucket_distinct: "active_inv t \<Longrightarrow> i < HASH_TABLE_SIZE \<Longrightarrow> distinct (buckets t ! i)"
  by (simp add: active_inv_def)

lemma active_word_length: "active_inv t \<Longrightarrow> w \<in> active_words t \<Longrightarrow> length w < MAX_WORD_LEN"
  using active_words_hash bucket_words hash_function_bound by blast

lemma bucket_set:
  assumes "active_inv t" "i < HASH_TABLE_SIZE"
  shows "set (buckets t ! i) = {v \<in> active_words t. hash_function v = i}"
  using active_words_hash [OF assms(1)] bucket_words [OF assms(1)] assms(2) by blast

lemma add_active:
  assumes "active_inv t" "length w < MAX_WORD_LEN"
  shows "fst (add_active_word m (Some w) t) \<longleftrightarrow> m \<and> w \<notin> active_words t"
    and "active_inv (snd (add_active_word m (Some w) t))"
    and "active_words (snd (add_active_word m (Some w) t)) = active_words t \<union> (if m then {w} else {})"
    and "total_count (snd (add_active_word m (Some w) t)) = total_count t + (if m \<and> w \<notin> active_words t then 1 else 0)"
proof -
  let ?i = "hash_function w"
  let ?chain = "w # buckets t ! ?i"
  have here: "w \<in> active_words t \<longleftrightarrow> w \<in> set (buckets t ! ?i)" using active_words_hash [OF assms(1)] .
  show "fst (add_active_word m (Some w) t) \<longleftrightarrow> m \<and> w \<notin> active_words t"
    by (simp add: add_active_word_def here Let_def)
  show "total_count (snd (add_active_word m (Some w) t)) = total_count t + (if m \<and> w \<notin> active_words t then 1 else 0)"
    by (simp add: add_active_word_def here Let_def)
  have chain: "\<forall>v \<in> set ?chain. hash_function v = ?i \<and> length v < MAX_WORD_LEN"
    using bucket_words [OF assms(1)] assms(2) by simp
  show "active_inv (snd (add_active_word m (Some w) t))"
  proof (cases "m \<and> w \<notin> active_words t")
    case True
    then have "distinct ?chain" using here bucket_distinct [OF assms(1), of ?i] by simp
    from active_inv_replace [OF assms(1) this chain, of "total_count t + 1"] True show ?thesis
      using assms(2) by (simp add: add_active_word_def here Let_def)
  next
    case False
    then show ?thesis using assms(1) by (auto simp: add_active_word_def here Let_def)
  qed
  show "active_words (snd (add_active_word m (Some w) t)) = active_words t \<union> (if m then {w} else {})"
  proof (cases "m \<and> w \<notin> active_words t")
    case True
    have "active_words \<lparr>buckets = (buckets t)[?i := ?chain], total_count = total_count t + 1\<rparr>
        = set ?chain \<union> {v \<in> active_words t. hash_function v \<noteq> ?i}"
      using chain by (intro active_words_replace [OF assms(1) hash_function_bound]) blast
    also have "\<dots> = active_words t \<union> {w}" using bucket_set [OF assms(1), of ?i] by auto
    finally show ?thesis using True assms(2) by (simp add: add_active_word_def here Let_def)
  next
    case False
    then show ?thesis by (auto simp: add_active_word_def here Let_def)
  qed
qed

lemma remove_active:
  assumes "active_inv t"
  shows "fst (remove_active_word (Some w) t) \<longleftrightarrow> w \<in> active_words t"
    and "active_inv (snd (remove_active_word (Some w) t))"
    and "active_words (snd (remove_active_word (Some w) t)) = active_words t - {w}"
proof -
  let ?i = "hash_function w"
  let ?chain = "remove1 w (buckets t ! ?i)"
  have here: "w \<in> active_words t \<longleftrightarrow> w \<in> set (buckets t ! ?i)" using active_words_hash [OF assms] .
  show "fst (remove_active_word (Some w) t) \<longleftrightarrow> w \<in> active_words t"
    by (simp add: remove_active_word_def here chain_remove_eq Let_def)
  have chain: "\<forall>v \<in> set ?chain. hash_function v = ?i \<and> length v < MAX_WORD_LEN"
    using bucket_words [OF assms, of _ ?i] set_remove1_subset [of w "buckets t ! ?i"] by auto
  have dist: "distinct (buckets t ! ?i)" using bucket_distinct [OF assms] by simp
  show "active_inv (snd (remove_active_word (Some w) t))"
  proof (cases "w \<in> active_words t")
    case True
    then have "length (buckets t ! ?i) = Suc (length ?chain)"
      using here length_remove1 [of w "buckets t ! ?i"] length_pos_if_in_set [of w "buckets t ! ?i"] by simp
    then show ?thesis
      using active_inv_replace [OF assms _ chain, of "total_count t - 1"] dist True
      by (simp add: remove_active_word_def here chain_remove_eq distinct_remove1 Let_def)
  next
    case False
    then show ?thesis using assms by (simp add: remove_active_word_def here chain_remove_eq Let_def)
  qed
  show "active_words (snd (remove_active_word (Some w) t)) = active_words t - {w}"
  proof (cases "w \<in> active_words t")
    case True
    have "active_words \<lparr>buckets = (buckets t)[?i := ?chain], total_count = total_count t - 1\<rparr>
        = set ?chain \<union> {v \<in> active_words t. hash_function v \<noteq> ?i}"
      using chain by (intro active_words_replace [OF assms hash_function_bound]) blast
    also have "set ?chain = set (buckets t ! ?i) - {w}" using dist by (rule set_remove1_eq)
    also have "\<dots> \<union> {v \<in> active_words t. hash_function v \<noteq> ?i} = active_words t - {w}"
      using bucket_set [OF assms, of ?i] by auto
    finally show ?thesis
      using True by (simp add: remove_active_word_def here chain_remove_eq Let_def)
  next
    case False
    then show ?thesis by (auto simp: remove_active_word_def here chain_remove_eq Let_def)
  qed
qed

lemma active_count:
  assumes "active_inv t"
  shows "total_count t = int (card (active_words t))"
proof -
  have "distinct (concat (buckets t))"
  proof (rule distinct_concat_lists)
    show "\<forall>i < length (buckets t). distinct (buckets t ! i)" using assms by (simp add: active_inv_def)
    show "\<forall>i < length (buckets t). \<forall>j < length (buckets t). i \<noteq> j \<longrightarrow> set (buckets t ! i) \<inter> set (buckets t ! j) = {}"
      using bucket_words [OF assms] assms by (metis (no_types) active_inv_def disjoint_iff)
  qed
  then show ?thesis using assms by (simp add: active_inv_def active_words_def distinct_card [symmetric] del: set_concat)
qed

lemma active_inv_init [simp]:
  "active_inv (snd (init_active_word_table m t))" "active_words (snd (init_active_word_table m t)) = {}"
  "active_inv (cleanup_active_word_table t)" "active_words (cleanup_active_word_table t) = {}"
  by (auto simp: active_inv_def active_words_def init_active_word_table_def cleanup_active_word_table_def)

interpretation active: name_set
  "\<lambda>t w. is_word_in_active_table (Some w) t" "\<lambda>w t. snd (add_active_word True (Some w) t)"
  "\<lambda>w t. snd (remove_active_word (Some w) t)" "\<lambda>t. True" "\<lambda>w. length w < MAX_WORD_LEN" active_inv
  by unfold_locales (auto simp: is_word_iff add_active remove_active)

section \<open>Properties\<close>

text \<open>
  Claim C31. The hash table is a set of words of at most 29 bytes with a correct counter: adding reports
  whether the word was new and puts it in (or leaves the table when \<open>malloc\<close> fails), removing
  reports whether it was there and takes it out, and membership is answered exactly, with every word in
  the bucket of its hash whatever the hash values are.
\<close>

theorem active_table_is_set:
  assumes "active_inv t" "length w < MAX_WORD_LEN"
  shows "fst (add_active_word m (Some w) t) = (m \<and> w \<notin> active_words t)
    \<and> active_words (snd (add_active_word m (Some w) t)) = active_words t \<union> (if m then {w} else {})
    \<and> total_count (snd (add_active_word m (Some w) t)) = int (card (active_words (snd (add_active_word m (Some w) t))))
    \<and> fst (remove_active_word (Some v) t) = (v \<in> active_words t)
    \<and> active_words (snd (remove_active_word (Some v) t)) = active_words t - {v}
    \<and> total_count (snd (remove_active_word (Some v) t)) = int (card (active_words t - {v}))
    \<and> is_word_in_active_table (Some v) t = (v \<in> active_words t)
    \<and> active_inv (snd (add_active_word m (Some w) t)) \<and> active_inv (snd (remove_active_word (Some v) t))"
  using add_active [OF assms, of m] remove_active [OF assms(1), of v] is_word_iff [OF assms(1)]
    active_count [of "snd (add_active_word m (Some w) t)"] active_count [of "snd (remove_active_word (Some v) t)"]
  by simp

theorem active_table_is_set_witness:
  "active_words (snd (add_active_word True (Some ''rain'') (cleanup_active_word_table \<lparr>buckets = [], total_count = 0\<rparr>)))
     = {''rain''}"
  using active_table_is_set [of "cleanup_active_word_table \<lparr>buckets = [], total_count = 0\<rparr>" "''rain''" True "''rain''"] by simp

text \<open>
  Words of 30 or 31 bytes, which the server's list allows, are never found in the table: it
  holds them cut to 29 bytes, while the check for words already on the screen asks for the whole
  word.
\<close>

theorem long_words_never_found:
  assumes "active_inv t" "MAX_WORD_LEN \<le> length w"
  shows "\<not> is_word_in_active_table (Some w) (snd (add_active_word m (Some (strncpy_str MAX_WORD_LEN w)) t))"
proof -
  have "length (strncpy_str MAX_WORD_LEN w) < MAX_WORD_LEN" by (simp add: strncpy_str_def)
  then have "active_inv (snd (add_active_word m (Some (strncpy_str MAX_WORD_LEN w)) t))"
    using add_active(2) [OF assms(1)] by blast
  then show ?thesis using is_word_iff active_word_length assms(2) by fastforce
qed

theorem long_words_never_found_witness:
  "\<not> is_word_in_active_table (Some (replicate 31 CHR ''a''))
     (snd (add_active_word True (Some (strncpy_str MAX_WORD_LEN (replicate 31 CHR ''a'')))
        (cleanup_active_word_table \<lparr>buckets = [], total_count = 0\<rparr>)))"
  by (rule long_words_never_found) simp_all

end
