(* ===== verification/Game_Logic.thy ===== *)
theory Game_Logic
  imports Active_Words
begin

text \<open>
  \<^verbatim>\<open>client/src/game_logic.c\<close>: the store of loaded words, the words on the screen, the falling
  of a word, the spawning of words, the keyboard and the game's clean-up, as functions on the game's state.
  What the threads make of them is in the theory \<open>Game_Threads\<close>.
\<close>

section \<open>The store of loaded words\<close>

text \<open>\<open>count\<close> is the length of \<open>wm_words\<close>.\<close>

record word_manager =
  wm_words :: "string list"
  wm_capacity :: int
  wm_is_initialized :: bool

definition init_word_manager :: "bool \<Rightarrow> word_manager \<Rightarrow> bool \<times> word_manager" where
  "init_word_manager malloc_ok m =
     (if wm_is_initialized m then (True, m)
      else if \<not> malloc_ok then (False, m\<lparr>wm_capacity := 100\<rparr>)
      else (True, \<lparr>wm_words = [], wm_capacity = 100, wm_is_initialized = True\<rparr>))"

definition cleanup_word_manager :: "word_manager \<Rightarrow> word_manager" where
  "cleanup_word_manager m =
     (if \<not> wm_is_initialized m then m
      else \<lparr>wm_words = [], wm_capacity = 0, wm_is_initialized = False\<rparr>)"

text \<open>The answers of the allocations: the two initialisations, \<open>realloc\<close>, and \<open>strdup\<close> of each word.\<close>

record load_env =
  le_init1 :: bool
  le_init2 :: bool
  le_realloc :: bool
  le_strdup :: "nat \<Rightarrow> bool"

definition load_words_from_response :: "load_env \<Rightarrow> string list \<Rightarrow> word_manager \<Rightarrow> bool \<times> word_manager" where
  "load_words_from_response env ws m =
     (let (ok1, m1) = (if \<not> wm_is_initialized m then init_word_manager (le_init1 env) m else (True, m)) in
      if \<not> ok1 then (False, m1)
      else let (ok2, m2) = init_word_manager (le_init2 env) (cleanup_word_manager m1) in
        if \<not> ok2 then (False, m2)
        else if int (length ws) > wm_capacity m2 \<and> \<not> le_realloc env then (False, m2)
        else let m3 = (if int (length ws) > wm_capacity m2 then m2\<lparr>wm_capacity := int (length ws) + 10\<rparr> else m2) in
          if list_all (le_strdup env) [0..<length ws]
          then (True, m3\<lparr>wm_words := ws\<rparr>)
          else (False, m3\<lparr>wm_words := []\<rparr>))"

section \<open>The game's state\<close>

abbreviation MAX_WORDS :: nat where "MAX_WORDS \<equiv> 20"
abbreviation INPUT_BUFFER_LEN :: nat where "INPUT_BUFFER_LEN \<equiv> MAX_WORD_LEN + 10"
abbreviation INITIAL_LIVES :: int where "INITIAL_LIVES \<equiv> 5"
abbreviation WORD_SPAWN_RATE_MS :: int where "WORD_SPAWN_RATE_MS \<equiv> 1500"

datatype word_type = WORD_NORMAL | WORD_KILL | WORD_BONUS

text \<open>A slot; \<open>w_thread\<close> says that \<open>thread_id\<close> is not 0.\<close>

record word =
  w_text :: string
  w_x :: int
  w_y :: int
  w_active :: bool
  w_to_remove :: bool
  w_type :: word_type
  w_thread :: bool

definition empty_slot :: word where
  "empty_slot = \<lparr>w_text = [], w_x = 0, w_y = 0, w_active = False, w_to_remove = False,
     w_type = WORD_NORMAL, w_thread = False\<rparr>"

text \<open>\<open>g_input\<close> is the string in \<open>current_input_buffer\<close>; \<open>input_pos\<close> is its length.\<close>

record game =
  g_words :: "word list"
  g_table :: active_table
  g_score :: int
  g_lives :: int
  g_over :: bool
  g_input :: string
  g_height :: int
  g_width :: int
  g_manager :: word_manager
  g_drop_ms :: "word_type \<Rightarrow> int"

definition default_drop_ms :: "word_type \<Rightarrow> int" where
  "default_drop_ms t = (case t of WORD_NORMAL \<Rightarrow> 0 | WORD_KILL \<Rightarrow> 350 | WORD_BONUS \<Rightarrow> 200)"

definition set_drop_interval :: "word_type \<Rightarrow> int \<Rightarrow> (word_type \<Rightarrow> int) \<Rightarrow> word_type \<Rightarrow> int" where
  "set_drop_interval t interval_ms ms = (if t \<noteq> WORD_NORMAL \<and> 50 < interval_ms then ms(t := interval_ms) else ms)"

definition get_current_level :: "int \<Rightarrow> int" where
  "get_current_level s =
     (if 200 \<le> s then 5 else if 150 \<le> s then 4 else if 100 \<le> s then 3 else if 50 \<le> s then 2 else 1)"

definition get_normal_drop_interval :: "int \<Rightarrow> int" where
  "get_normal_drop_interval s =
     (if 200 \<le> s then 200 else if 150 \<le> s then 275 else if 100 \<le> s then 350 else if 50 \<le> s then 425 else 500)"

definition drop_interval :: "word_type \<Rightarrow> game \<Rightarrow> int" where
  "drop_interval t g = (if t = WORD_NORMAL then get_normal_drop_interval (g_score g) else g_drop_ms g t)"

section \<open>A word's thread\<close>

text \<open>What the thread of slot \<open>i\<close> does when its time has come: the section under \<open>words_mutex\<close>.\<close>

definition drop_word :: "nat \<Rightarrow> game \<Rightarrow> game" where
  "drop_word i g =
     (let w = g_words g ! i in
      if \<not> w_active w then g
      else let w1 = w\<lparr>w_y := w_y w + 1\<rparr> in
        if w_y w1 < g_height g then g\<lparr>g_words := (g_words g)[i := w1]\<rparr>
        else let g1 = g\<lparr>g_words := (g_words g)[i := w1\<lparr>w_active := False\<rparr>],
                        g_table := snd (remove_active_word (Some (w_text w)) (g_table g))\<rparr> in
          if g_over g1 then g1
          else let lives = (if w_type w \<noteq> WORD_KILL then g_lives g1 - 1 else g_lives g1)
               in g1\<lparr>g_lives := lives, g_over := (lives \<le> 0)\<rparr>)"

text \<open>Its last section, after the loop.\<close>

definition finish_word :: "nat \<Rightarrow> game \<Rightarrow> game" where
  "finish_word i g =
     (let w = g_words g ! i in
      g\<lparr>g_words := (g_words g)[i := w\<lparr>w_active := False, w_to_remove := True\<rparr>],
        g_table := snd (remove_active_word (Some (w_text w)) (g_table g))\<rparr>)"

text \<open>
  What the threads of the words do to the state of the game: a thread that sees a signal sets the flag of the end;
  the thread of slot \<open>i\<close> drops its word; it ends. A thread ends only after it has found its word inactive or
  the game over, which both stay so as long as the slot has its thread.
\<close>

datatype thread_act = Sees_signal | Drops nat | Ends nat

definition has_thread :: "nat \<Rightarrow> game \<Rightarrow> bool" where
  "has_thread i g \<longleftrightarrow> i < length (g_words g) \<and> w_thread (g_words g ! i) \<and> \<not> w_to_remove (g_words g ! i)"

fun act :: "thread_act \<Rightarrow> game \<Rightarrow> game" where
  "act Sees_signal g = g\<lparr>g_over := True\<rparr>"
| "act (Drops i) g = (if has_thread i g then drop_word i g else g)"
| "act (Ends i) g = (if has_thread i g \<and> (\<not> w_active (g_words g ! i) \<or> g_over g) then finish_word i g else g)"

section \<open>Spawning\<close>

text \<open>
  \<open>rs\<close> is the sequence of values of \<open>rand\<close>. The pick: at most \<open>count + 1\<close> tries for a word that is not
  on the screen; the result is the last pick and the number of values used.
\<close>

function pick_word :: "(nat \<Rightarrow> nat) \<Rightarrow> string list \<Rightarrow> active_table \<Rightarrow> nat \<Rightarrow> string \<times> nat" where
  "pick_word rs ws t tries =
     (let pick = ws ! (rs tries mod length ws) in
      if length ws < Suc tries then (pick, Suc tries)
      else if is_word_in_active_table (Some pick) t then pick_word rs ws t (Suc tries)
      else (pick, Suc tries))"
  by pat_completeness auto
termination
  by (relation "measure (\<lambda>(rs, ws, t, tries). Suc (length ws) - tries)") auto

declare pick_word.simps [simp del]

fun free_slot_from :: "nat \<Rightarrow> word list \<Rightarrow> nat option" where
  "free_slot_from i [] = None"
| "free_slot_from i (w # ws) = (if \<not> w_thread w \<or> w_to_remove w then Some i else free_slot_from (Suc i) ws)"

definition spawn_type :: "nat \<Rightarrow> nat \<Rightarrow> word_type" where
  "spawn_type r1 r2 = (if r1 mod 100 < 20 then WORD_KILL else if r2 mod 100 < 30 then WORD_BONUS else WORD_NORMAL)"

text \<open>The slot that got a word and, when \<open>pthread_create\<close> succeeded, a thread; and the game.\<close>

definition spawn_word :: "(nat \<Rightarrow> nat) \<Rightarrow> bool \<Rightarrow> bool \<Rightarrow> game \<Rightarrow> nat option \<times> game" where
  "spawn_word rs malloc_ok create_ok g =
     (if \<not> wm_is_initialized (g_manager g) \<or> wm_words (g_manager g) = [] then (None, g)
      else case free_slot_from 0 (g_words g) of
        None \<Rightarrow> (None, g)
      | Some i \<Rightarrow>
          (let (pick, n) = pick_word rs (wm_words (g_manager g)) (g_table g) 0;
               text = strncpy_str MAX_WORD_LEN pick;
               len = int (length text);
               (x, n') = (if len < g_width g then (int (rs n) mod (g_width g - len + 1), Suc n) else (0, n));
               t1 = snd (add_active_word malloc_ok (Some text) (g_table g));
               w = \<lparr>w_text = text, w_x = x, w_y = 0, w_active = create_ok, w_to_remove = False,
                    w_type = spawn_type (rs n') (rs (Suc n')), w_thread = create_ok\<rparr>
           in (if create_ok then Some i else None,
               g\<lparr>g_words := (g_words g)[i := w],
                 g_table := (if create_ok then t1 else snd (remove_active_word (Some text) t1))\<rparr>)))"

section \<open>The keyboard\<close>

definition priority :: "word_type \<Rightarrow> int" where
  "priority t = (case t of WORD_KILL \<Rightarrow> 0 | WORD_BONUS \<Rightarrow> 1 | WORD_NORMAL \<Rightarrow> 2)"

text \<open>The search for the word that was typed, from slot \<open>i\<close> on.\<close>

fun pick_target :: "string \<Rightarrow> nat \<Rightarrow> int \<Rightarrow> int \<Rightarrow> nat option \<Rightarrow> word list \<Rightarrow> nat option" where
  "pick_target typed i best_prio best_y target [] = target"
| "pick_target typed i best_prio best_y target (w # ws) =
     (if \<not> w_active w then pick_target typed (Suc i) best_prio best_y target ws
      else if strcmp typed (w_text w) \<noteq> 0 then pick_target typed (Suc i) best_prio best_y target ws
      else let prio = priority (w_type w) in
        if prio < best_prio \<or> (prio = best_prio \<and> best_y < w_y w)
        then pick_target typed (Suc i) prio (w_y w) (Some i) ws
        else pick_target typed (Suc i) best_prio best_y target ws)"

text \<open>The section under \<open>words_mutex\<close>, and the one under \<open>game_state_mutex\<close> that follows a hit.\<close>

definition hit_word :: "nat \<Rightarrow> game \<Rightarrow> game" where
  "hit_word i g =
     g\<lparr>g_words := (g_words g)[i := (g_words g ! i)\<lparr>w_active := False\<rparr>],
       g_table := snd (remove_active_word (Some (w_text (g_words g ! i))) (g_table g))\<rparr>"

definition award :: "word_type \<Rightarrow> string \<Rightarrow> game \<Rightarrow> game" where
  "award t text g =
     (if t = WORD_KILL then g\<lparr>g_over := True\<rparr>
      else g\<lparr>g_score := (if t = WORD_BONUS then g_score g + 50 else g_score g) + int (length text)\<rparr>)"

abbreviation KEY_ERR :: int where "KEY_ERR \<equiv> -1"
abbreviation KEY_BACKSPACE :: int where "KEY_BACKSPACE \<equiv> 263"

definition edit_input :: "int \<Rightarrow> game \<Rightarrow> game" where
  "edit_input ch g =
     (if ch = KEY_BACKSPACE \<or> ch = 127 \<or> ch = 8 then g\<lparr>g_input := butlast (g_input g)\<rparr>
      else if 32 \<le> ch \<and> ch \<le> 126 \<and> length (g_input g) < INPUT_BUFFER_LEN - 1
      then g\<lparr>g_input := g_input g @ [char_of (nat ch)]\<rparr>
      else g)"

definition process_game_input :: "int \<Rightarrow> game \<Rightarrow> game" where
  "process_game_input ch g =
     (if ch = KEY_ERR then g
      else if g_over g then g
      else if ch = 10 \<or> ch = 32
      then if 0 < length (g_input g)
           then (case pick_target (g_input g) 0 3 (-1) None (g_words g) of
               None \<Rightarrow> g\<lparr>g_input := []\<rparr>
             | Some i \<Rightarrow> (award (w_type (g_words g ! i)) (w_text (g_words g ! i)) (hit_word i g))\<lparr>g_input := []\<rparr>)
           else g
      else edit_input ch g)"

section \<open>Clean-up and the run\<close>

definition reaped :: "word \<Rightarrow> word" where
  "reaped w = (if w_thread w \<and> w_to_remove w
     then w\<lparr>w_thread := False, w_active := False, w_to_remove := False, w_text := []\<rparr> else w)"

definition cleanup_finished_threads :: "game \<Rightarrow> game" where
  "cleanup_finished_threads g = g\<lparr>g_words := map reaped (g_words g)\<rparr>"

text \<open>
  \<open>safe_game_cleanup\<close> when no \<open>pthread_join\<close> blocks: every thread that was started is told to stop
  and joined, and the stores are freed.
\<close>

definition safe_game_cleanup :: "game \<Rightarrow> game" where
  "safe_game_cleanup g =
     (let marked = map (\<lambda>w. if w_thread w then w\<lparr>w_to_remove := True\<rparr> else w) (g_words g)
      in g\<lparr>g_words := map reaped marked, g_manager := cleanup_word_manager (g_manager g),
           g_table := cleanup_active_word_table (g_table g)\<rparr>)"

text \<open>The playing field of a screen: its height and width.\<close>

definition game_area :: "int \<Rightarrow> int \<Rightarrow> int \<times> int" where
  "game_area screen_height screen_width =
     (let frame_top_y = 1; frame_bottom_y = screen_height - 3;
          start_y = frame_top_y + 1; end_y = frame_bottom_y - 1;
          frame_left_x = 0; frame_right_x = screen_width - 1;
          start_x = frame_left_x + 1; end_x = frame_right_x - 1
      in (end_y - start_y + 1, end_x - start_x + 1))"

definition start_game :: "int \<Rightarrow> int \<Rightarrow> game \<Rightarrow> game" where
  "start_game screen_height screen_width g =
     (let (h, w) = game_area screen_height screen_width in
      g\<lparr>g_score := 0, g_lives := INITIAL_LIVES, g_over := False, g_input := [],
        g_words := replicate MAX_WORDS empty_slot, g_table := snd (init_active_word_table True (g_table g)),
        g_height := h, g_width := w\<rparr>)"

text \<open>
  One round of the main loop: the two flags, the key, the clock and what spawning needs; and what the word threads
  do before the flags are read, before the key is handled, and before the clean-up.
\<close>

record round =
  rd_sigint :: bool
  rd_exit :: bool
  rd_acts :: "thread_act list"
  rd_acts_key :: "thread_act list"
  rd_key :: int
  rd_now :: int
  rd_rand :: "nat \<Rightarrow> nat"
  rd_malloc :: bool
  rd_create :: bool
  rd_acts_end :: "thread_act list"

text \<open>The loop over the rounds given; \<open>None\<close> when the game is still running after them.\<close>

fun game_loop :: "round list \<Rightarrow> int \<Rightarrow> game \<Rightarrow> game option" where
  "game_loop [] last_spawn_ms g = None"
| "game_loop (r # rs) last_spawn_ms g =
     (let g1 = fold act (rd_acts r) g;
          g2 = (if rd_sigint r \<or> rd_exit r then g1\<lparr>g_over := True\<rparr> else g1);
          stop = g_over g2;
          g3 = process_game_input (rd_key r) (fold act (rd_acts_key r) g2);
          (g4, last_ms) = (if \<not> g_over g3 \<and> WORD_SPAWN_RATE_MS \<le> rd_now r - last_spawn_ms
                        then (snd (spawn_word (rd_rand r) (rd_malloc r) (rd_create r) g3), rd_now r)
                        else (g3, last_spawn_ms));
          g5 = cleanup_finished_threads (fold act (rd_acts_end r) g4)
      in if stop then Some g5 else game_loop rs last_ms g5)"

text \<open>The return value and the state afterwards.\<close>

definition run_rain_typing_game ::
    "bool \<Rightarrow> bool \<Rightarrow> int \<Rightarrow> int \<Rightarrow> int \<Rightarrow> round list \<Rightarrow> game \<Rightarrow> (int \<times> game) option" where
  "run_rain_typing_game table_ok mutexes_ok screen_height screen_width start_ms rounds g =
     (let g0 = start_game screen_height screen_width g in
      if \<not> table_ok then Some (-2, g0)
      else if g_height g0 < 5 \<or> g_width g0 < 20
      then Some (-1, g0\<lparr>g_table := cleanup_active_word_table (g_table g0)\<rparr>)
      else if \<not> mutexes_ok then Some (-2, g0\<lparr>g_table := cleanup_active_word_table (g_table g0)\<rparr>)
      else map_option (\<lambda>g'. (g_score g', safe_game_cleanup g')) (game_loop rounds start_ms g0))"

section \<open>The invariant\<close>

text \<open>A key that can stand in the input buffer: the space and the line feed submit.\<close>

definition typable :: "char \<Rightarrow> bool" where
  "typable c \<longleftrightarrow> 33 \<le> (of_char c :: nat) \<and> (of_char c :: nat) \<le> 126"

definition slot_ok :: "int \<Rightarrow> int \<Rightarrow> word \<Rightarrow> bool" where
  "slot_ok h wd w \<longleftrightarrow> length (w_text w) < MAX_WORD_LEN
     \<and> (w_active w \<longrightarrow> w_thread w \<and> \<not> w_to_remove w \<and> 0 \<le> w_y w \<and> w_y w < h
          \<and> 0 \<le> w_x w \<and> (int (length (w_text w)) \<le> wd \<longrightarrow> w_x w + int (length (w_text w)) \<le> wd))"

definition texts_on_screen :: "game \<Rightarrow> string set" where
  "texts_on_screen g = {w_text w |w. w \<in> set (g_words g) \<and> w_active w}"

definition game_inv :: "game \<Rightarrow> bool" where
  "game_inv g \<longleftrightarrow> length (g_words g) = MAX_WORDS \<and> (\<forall>w \<in> set (g_words g). slot_ok (g_height g) (g_width g) w)
     \<and> active_inv (g_table g) \<and> active_words (g_table g) \<subseteq> texts_on_screen g
     \<and> 0 \<le> g_score g \<and> 0 \<le> g_lives g \<and> g_lives g \<le> INITIAL_LIVES \<and> (g_lives g = 0 \<longrightarrow> g_over g)
     \<and> 0 < g_height g \<and> length (g_input g) < INPUT_BUFFER_LEN \<and> (\<forall>c \<in> set (g_input g). typable c)"

lemma game_inv_slot: "game_inv g \<Longrightarrow> i < MAX_WORDS \<Longrightarrow> slot_ok (g_height g) (g_width g) (g_words g ! i)"
  by (simp add: game_inv_def)

lemma game_inv_update:
  assumes "game_inv g" "i < MAX_WORDS" "slot_ok (g_height g) (g_width g) w" "active_inv t"
    and "\<And>v. v \<in> active_words t \<Longrightarrow> w_active w \<and> v = w_text w
          \<or> v \<in> active_words (g_table g) \<and> (v \<noteq> w_text (g_words g ! i) \<or> \<not> w_active (g_words g ! i))"
  shows "game_inv (g\<lparr>g_words := (g_words g)[i := w], g_table := t\<rparr>)"
proof -
  have len: "length (g_words g) = MAX_WORDS" using assms(1) by (simp add: game_inv_def)
  have "v \<in> texts_on_screen (g\<lparr>g_words := (g_words g)[i := w], g_table := t\<rparr>)" if v: "v \<in> active_words t" for v
  proof -
    consider "w_active w" "v = w_text w"
      | "v \<in> active_words (g_table g)" "v \<noteq> w_text (g_words g ! i) \<or> \<not> w_active (g_words g ! i)"
      using assms(5) [OF v] by blast
    then show ?thesis
    proof cases
      case 1
      have "w \<in> set ((g_words g)[i := w])" using assms(2) len by (simp add: set_update_memI)
      then show ?thesis using 1 by (auto simp: texts_on_screen_def)
    next
      case 2
      then obtain j where j: "j < MAX_WORDS" "w_active (g_words g ! j)" "w_text (g_words g ! j) = v"
        using assms(1) len unfolding game_inv_def texts_on_screen_def by (auto simp: in_set_conv_nth subset_iff)
      then have "j \<noteq> i" using 2 by auto
      then have "g_words g ! j \<in> set ((g_words g)[i := w])"
        using j(1) len by (metis length_list_update nth_list_update_neq nth_mem)
      then show ?thesis using j by (auto simp: texts_on_screen_def)
    qed
  qed
  then show ?thesis using assms(1,3,4) set_update_subset_insert [of "g_words g" i w]
    by (auto simp: game_inv_def)
qed

lemma game_inv_score: "game_inv g \<Longrightarrow> game_inv (g\<lparr>g_over := True\<rparr>)" "game_inv g \<Longrightarrow> 0 \<le> n \<Longrightarrow> game_inv (g\<lparr>g_score := n\<rparr>)"
  "game_inv g \<Longrightarrow> game_inv (g\<lparr>g_input := []\<rparr>)"
  by (simp_all add: game_inv_def texts_on_screen_def)

lemma remove_active_words [simp]:
  "active_inv t \<Longrightarrow> active_inv (snd (remove_active_word (Some w) t))"
  "active_inv t \<Longrightarrow> active_words (snd (remove_active_word (Some w) t)) = active_words t - {w}"
  using remove_active by blast+

lemma finish_word_inv: "game_inv g \<Longrightarrow> i < MAX_WORDS \<Longrightarrow> game_inv (finish_word i g)"
  unfolding finish_word_def Let_def
  by (rule game_inv_update) (auto simp: game_inv_def slot_ok_def)

lemma hit_word_inv: "game_inv g \<Longrightarrow> i < MAX_WORDS \<Longrightarrow> game_inv (hit_word i g)"
  unfolding hit_word_def
  by (rule game_inv_update) (auto simp: game_inv_def slot_ok_def)

lemma award_inv: "game_inv g \<Longrightarrow> game_inv (award t text g)"
  by (auto simp: award_def intro!: game_inv_score) (auto simp: game_inv_def)

lemma drop_word_inv:
  assumes "game_inv g" "i < MAX_WORDS"
  shows "game_inv (drop_word i g)"
proof -
  let ?w = "g_words g ! i"
  have ok: "slot_ok (g_height g) (g_width g) ?w" using game_inv_slot assms .
  have tbl: "active_inv (g_table g)" using assms(1) by (simp add: game_inv_def)
  consider (off) "\<not> w_active ?w" | (fall) "w_active ?w" "w_y ?w + 1 < g_height g"
    | (land) "w_active ?w" "g_height g \<le> w_y ?w + 1" by linarith
  then show ?thesis
  proof cases
    case off
    then show ?thesis using assms(1) by (simp add: drop_word_def)
  next
    case fall
    have "game_inv (g\<lparr>g_words := (g_words g)[i := ?w\<lparr>w_y := w_y ?w + 1\<rparr>], g_table := g_table g\<rparr>)"
      by (rule game_inv_update [OF assms]) (use ok tbl fall in \<open>auto simp: slot_ok_def\<close>)
    then show ?thesis using fall by (simp add: drop_word_def Let_def)
  next
    case land
    let ?g = "g\<lparr>g_words := (g_words g)[i := ?w\<lparr>w_y := w_y ?w + 1, w_active := False\<rparr>],
      g_table := snd (remove_active_word (Some (w_text ?w)) (g_table g))\<rparr>"
    have "game_inv ?g"
      by (rule game_inv_update [OF assms]) (use ok tbl in \<open>auto simp: slot_ok_def\<close>)
    then show ?thesis using land
      by (auto simp: drop_word_def Let_def game_inv_def texts_on_screen_def)
  qed
qed

lemma free_slot_from_Some:
  "free_slot_from k ws = Some i \<Longrightarrow> k \<le> i \<and> i - k < length ws \<and> (\<not> w_thread (ws ! (i - k)) \<or> w_to_remove (ws ! (i - k)))"
proof (induction ws arbitrary: k)
  case (Cons w ws)
  show ?case
  proof (cases "\<not> w_thread w \<or> w_to_remove w")
    case True
    then show ?thesis using Cons.prems by auto
  next
    case False
    then have "Suc k \<le> i \<and> i - Suc k < length ws \<and> (\<not> w_thread (ws ! (i - Suc k)) \<or> w_to_remove (ws ! (i - Suc k)))"
      using Cons.IH [of "Suc k"] Cons.prems by simp
    then show ?thesis by (auto simp: nth_Cons' Suc_diff_Suc)
  qed
qed simp

lemma rand_mod: "0 < m \<Longrightarrow> 0 \<le> int r mod m \<and> int r mod m < m"
  by simp

lemma spawn_word_inv:
  assumes "game_inv g"
  shows "game_inv (snd (spawn_word rs m c g))"
proof (cases "\<not> wm_is_initialized (g_manager g) \<or> wm_words (g_manager g) = [] \<or> free_slot_from 0 (g_words g) = None")
  case True
  then show ?thesis using assms by (auto simp: spawn_word_def)
next
  case False
  then obtain i where i: "free_slot_from 0 (g_words g) = Some i" by auto
  obtain pick n where p: "pick_word rs (wm_words (g_manager g)) (g_table g) 0 = (pick, n)" by fastforce
  define tx where "tx = strncpy_str MAX_WORD_LEN pick"
  obtain x n' where x: "(if int (length tx) < g_width g then (int (rs n) mod (g_width g - int (length tx) + 1), Suc n) else (0, n)) = (x, n')"
    by fastforce
  define t1 where "t1 = snd (add_active_word m (Some tx) (g_table g))"
  define w where "w = \<lparr>w_text = tx, w_x = x, w_y = 0, w_active = c, w_to_remove = False,
                    w_type = spawn_type (rs n') (rs (Suc n')), w_thread = c\<rparr>"
  have eq: "snd (spawn_word rs m c g) = g\<lparr>g_words := (g_words g)[i := w],
      g_table := (if c then t1 else snd (remove_active_word (Some tx) t1))\<rparr>"
    by (cases "int (length tx) < g_width g")
      (use False i p x in \<open>auto simp: spawn_word_def t1_def w_def tx_def Let_def\<close>)
  have len: "length (g_words g) = MAX_WORDS" and tbl: "active_inv (g_table g)" and h: "0 < g_height g"
    using assms by (auto simp: game_inv_def)
  have iN: "i < MAX_WORDS" and free: "\<not> w_thread (g_words g ! i) \<or> w_to_remove (g_words g ! i)"
    using free_slot_from_Some [OF i] len by auto
  have off: "\<not> w_active (g_words g ! i)" using game_inv_slot [OF assms iN] free by (auto simp: slot_ok_def)
  have short: "length tx < MAX_WORD_LEN" by (simp add: tx_def strncpy_str_def)
  have place: "0 \<le> x \<and> (int (length tx) \<le> g_width g \<longrightarrow> x + int (length tx) \<le> g_width g)"
    using x rand_mod [of "g_width g - int (length tx) + 1" "rs n"] by (auto split: if_splits)
  have t1: "active_inv t1" "active_words t1 = active_words (g_table g) \<union> (if m then {tx} else {})"
    using add_active [OF tbl short, of m] by (simp_all add: t1_def)
  show ?thesis
    unfolding eq
  proof (rule game_inv_update [OF assms iN])
    show "slot_ok (g_height g) (g_width g) w" using short place h by (simp add: slot_ok_def w_def)
    show "active_inv (if c then t1 else snd (remove_active_word (Some tx) t1))" using t1 by simp
    show "w_active w \<and> v = w_text w
          \<or> v \<in> active_words (g_table g) \<and> (v \<noteq> w_text (g_words g ! i) \<or> \<not> w_active (g_words g ! i))"
      if "v \<in> active_words (if c then t1 else snd (remove_active_word (Some tx) t1))" for v
      using that t1 off by (auto simp: w_def split: if_splits)
  qed
qed

definition matches :: "string \<Rightarrow> word \<Rightarrow> bool" where
  "matches typed w \<longleftrightarrow> w_active w \<and> w_text w = typed"

definition better :: "int \<Rightarrow> int \<Rightarrow> word \<Rightarrow> bool" where
  "better p y w \<longleftrightarrow> priority (w_type w) < p \<or> (priority (w_type w) = p \<and> y < w_y w)"

abbreviation preferred :: "word \<Rightarrow> word \<Rightarrow> bool" where
  "preferred w v \<equiv> \<not> better (priority (w_type w)) (w_y w) v"

lemma better_trans: "better p y w \<Longrightarrow> better (priority (w_type w)) (w_y w) v \<Longrightarrow> better p y v"
  by (auto simp: better_def)

lemma better_asym: "better (priority (w_type v)) (w_y v) w \<Longrightarrow> preferred w v"
  by (auto simp: better_def)

lemma preferred_refl [simp]: "preferred w w"
  by (simp add: better_def)

lemma pick_target_Cons:
  "pick_target typed k p y target (w # ws) =
     (if matches typed w \<and> better p y w then pick_target typed (Suc k) (priority (w_type w)) (w_y w) (Some k) ws
      else pick_target typed (Suc k) p y target ws)"
  by (auto simp: matches_def better_def Let_def)

declare pick_target.simps(2) [simp del]

lemma pick_target_Some:
  assumes "pick_target typed k p y target ws = Some i"
  shows "target = Some i \<and> (\<forall>v \<in> set ws. matches typed v \<longrightarrow> \<not> better p y v)
    \<or> (\<exists>j < length ws. i = k + j \<and> matches typed (ws ! j) \<and> better p y (ws ! j)
         \<and> (\<forall>v \<in> set ws. matches typed v \<longrightarrow> preferred (ws ! j) v))"
  using assms
proof (induction ws arbitrary: k p y target)
  case Nil
  then show ?case by simp
next
  case (Cons w ws)
  show ?case
  proof (cases "matches typed w \<and> better p y w")
    case hit: True
    then have "pick_target typed (Suc k) (priority (w_type w)) (w_y w) (Some k) ws = Some i"
      using Cons.prems by (simp add: pick_target_Cons)
    from Cons.IH [OF this] show ?thesis
    proof
      assume "Some k = Some i \<and> (\<forall>v \<in> set ws. matches typed v \<longrightarrow> preferred w v)"
      then show ?thesis using hit by (intro disjI2 exI [of _ 0]) auto
    next
      assume "\<exists>j < length ws. i = Suc k + j \<and> matches typed (ws ! j) \<and> better (priority (w_type w)) (w_y w) (ws ! j)
         \<and> (\<forall>v \<in> set ws. matches typed v \<longrightarrow> preferred (ws ! j) v)"
      then obtain j where j: "j < length ws" "i = Suc k + j" "matches typed (ws ! j)"
          "better (priority (w_type w)) (w_y w) (ws ! j)" "\<forall>v \<in> set ws. matches typed v \<longrightarrow> preferred (ws ! j) v" by blast
      have "better p y (ws ! j)" "preferred (ws ! j) w" using hit j(4) better_trans better_asym by blast+
      then show ?thesis using j by (intro disjI2 exI [of _ "Suc j"]) simp
    qed
  next
    case miss: False
    then have "pick_target typed (Suc k) p y target ws = Some i"
      using Cons.prems by (auto simp: pick_target_Cons)
    from Cons.IH [OF this] show ?thesis
    proof
      assume "target = Some i \<and> (\<forall>v \<in> set ws. matches typed v \<longrightarrow> \<not> better p y v)"
      then show ?thesis using miss by auto
    next
      assume "\<exists>j < length ws. i = Suc k + j \<and> matches typed (ws ! j) \<and> better p y (ws ! j)
         \<and> (\<forall>v \<in> set ws. matches typed v \<longrightarrow> preferred (ws ! j) v)"
      then obtain j where j: "j < length ws" "i = Suc k + j" "matches typed (ws ! j)"
          "better p y (ws ! j)" "\<forall>v \<in> set ws. matches typed v \<longrightarrow> preferred (ws ! j) v" by blast
      have "matches typed w \<longrightarrow> preferred (ws ! j) w" using miss j(4) better_trans by blast
      then show ?thesis using j by (intro disjI2 exI [of _ "Suc j"]) simp
    qed
  qed
qed

lemma pick_target_None:
  "pick_target typed k p y target ws = None \<Longrightarrow> target = None \<and> (\<forall>v \<in> set ws. matches typed v \<longrightarrow> \<not> better p y v)"
proof (induction ws arbitrary: k p y target)
  case Nil
  then show ?case by simp
next
  case (Cons w ws)
  show ?case
  proof (cases "matches typed w \<and> better p y w")
    case True
    then show ?thesis using Cons.IH [of "Suc k" "priority (w_type w)" "w_y w" "Some k"] Cons.prems
      by (simp add: pick_target_Cons)
  next
    case False
    then show ?thesis using Cons.IH [of "Suc k" p y target] Cons.prems
      by (auto simp: pick_target_Cons)
  qed
qed

lemma always_better: "better 3 (-1) w"
  by (cases "w_type w") (simp_all add: better_def priority_def)

text \<open>From the start of the search: the preferred of the active words with the typed text.\<close>

lemma pick_target_iff:
  "pick_target typed 0 3 (-1) None ws = None \<longleftrightarrow> (\<forall>w \<in> set ws. \<not> matches typed w)"
  "pick_target typed 0 3 (-1) None ws = Some i \<Longrightarrow> i < length ws \<and> matches typed (ws ! i)
     \<and> (\<forall>v \<in> set ws. matches typed v \<longrightarrow> preferred (ws ! i) v)"
proof -
  show Some: "pick_target typed 0 3 (-1) None ws = Some i \<Longrightarrow> i < length ws \<and> matches typed (ws ! i)
     \<and> (\<forall>v \<in> set ws. matches typed v \<longrightarrow> preferred (ws ! i) v)" for i
    using pick_target_Some [of typed 0 3 "-1" None ws i] by auto
  show "pick_target typed 0 3 (-1) None ws = None \<longleftrightarrow> (\<forall>w \<in> set ws. \<not> matches typed w)"
    using pick_target_None [of typed 0 3 "-1" None ws] always_better Some nth_mem
    by (cases "pick_target typed 0 3 (-1) None ws") blast+
qed

lemma edit_input_inv:
  assumes "game_inv g" "ch \<noteq> 32"
  shows "game_inv (edit_input ch g)"
proof -
  have "typable (char_of (nat ch))" if "32 \<le> ch" "ch \<le> 126"
    using that assms(2) by (simp add: typable_def nat_le_iff le_nat_iff)
  then show ?thesis using assms(1)
    by (auto simp: edit_input_def game_inv_def texts_on_screen_def dest: in_set_butlastD)
qed

lemma process_game_input_inv:
  assumes "game_inv g"
  shows "game_inv (process_game_input ch g)"
proof (cases "pick_target (g_input g) 0 3 (-1) None (g_words g)")
  case None
  then show ?thesis using assms edit_input_inv [OF assms] game_inv_score(3) [OF assms]
    by (simp add: process_game_input_def)
next
  case (Some i)
  then have "i < MAX_WORDS" using pick_target_iff(2) [OF Some] assms by (simp add: game_inv_def)
  then have "game_inv (award t tx (hit_word i g))" for t tx
    using award_inv hit_word_inv [OF assms] by blast
  then show ?thesis using Some assms edit_input_inv [OF assms] game_inv_score(3)
    by (simp add: process_game_input_def)
qed

lemma cleanup_inv:
  assumes "game_inv g"
  shows "game_inv (cleanup_finished_threads g)"
proof -
  have "slot_ok h wd w \<Longrightarrow> slot_ok h wd (reaped w) \<and> (w_active w \<longrightarrow> reaped w = w)" for h wd w
    by (auto simp: reaped_def slot_ok_def)
  then have "\<forall>w \<in> set (g_words g). slot_ok (g_height g) (g_width g) (reaped w) \<and> (w_active w \<longrightarrow> reaped w = w)"
    using assms by (auto simp: game_inv_def)
  moreover from this have "texts_on_screen g \<subseteq> texts_on_screen (cleanup_finished_threads g)"
    by (force simp: texts_on_screen_def cleanup_finished_threads_def)
  ultimately show ?thesis using assms by (auto simp: game_inv_def cleanup_finished_threads_def)
qed

lemma start_game_inv:
  assumes "0 < fst (game_area sh sw)"
  shows "game_inv (start_game sh sw g)"
  using assms
  by (auto simp: start_game_def game_inv_def slot_ok_def empty_slot_def texts_on_screen_def split: prod.splits)

lemma award_fields [simp]:
  "g_words (award t tx g) = g_words g" "g_table (award t tx g) = g_table g" "g_lives (award t tx g) = g_lives g"
  by (simp_all add: award_def)

section \<open>Properties\<close>

text \<open>
  Claim C32. Submitting what was typed: when no active word has that text nothing happens but that the
  buffer is emptied; otherwise exactly one slot is cleared, that of a kill word if there is one, else of
  a bonus word, and among those the lowest on the screen; its text leaves the table of active words;
  a kill word ends the game, any other gives its length, and a bonus word 50 more; lives never change.
\<close>

theorem submit_hits_best_word:
  assumes "game_inv g" "\<not> g_over g" "g_input g \<noteq> []" "ch = 10 \<or> ch = 32"
  shows "g_input (process_game_input ch g) = [] \<and> g_lives (process_game_input ch g) = g_lives g
    \<and> (if \<exists>w \<in> set (g_words g). matches (g_input g) w
       then \<exists>i < MAX_WORDS. matches (g_input g) (g_words g ! i)
          \<and> (\<forall>v \<in> set (g_words g). matches (g_input g) v \<longrightarrow> preferred (g_words g ! i) v)
          \<and> g_words (process_game_input ch g) = (g_words g)[i := (g_words g ! i)\<lparr>w_active := False\<rparr>]
          \<and> active_words (g_table (process_game_input ch g)) = active_words (g_table g) - {g_input g}
          \<and> g_over (process_game_input ch g) = (w_type (g_words g ! i) = WORD_KILL)
          \<and> g_score (process_game_input ch g) = g_score g
              + (case w_type (g_words g ! i) of WORD_KILL \<Rightarrow> 0
                 | WORD_BONUS \<Rightarrow> 50 + int (length (g_input g)) | WORD_NORMAL \<Rightarrow> int (length (g_input g)))
       else process_game_input ch g = g\<lparr>g_input := []\<rparr>)"
proof (cases "pick_target (g_input g) 0 3 (-1) None (g_words g)")
  case None
  then have "process_game_input ch g = g\<lparr>g_input := []\<rparr>"
    using assms(2-4) by (auto simp: process_game_input_def)
  moreover have "\<not> (\<exists>w \<in> set (g_words g). matches (g_input g) w)" using None pick_target_iff(1) by blast
  ultimately show ?thesis by simp
next
  case (Some i)
  let ?w = "g_words g ! i"
  have i: "i < MAX_WORDS" "matches (g_input g) ?w" "\<forall>v \<in> set (g_words g). matches (g_input g) v \<longrightarrow> preferred ?w v"
    using pick_target_iff(2) [OF Some] assms(1) by (auto simp: game_inv_def)
  have tbl: "active_inv (g_table g)" using assms(1) by (simp add: game_inv_def)
  have typed: "w_text ?w = g_input g" using i(2) by (simp add: matches_def)
  have p: "process_game_input ch g = (award (w_type ?w) (w_text ?w) (hit_word i g))\<lparr>g_input := []\<rparr>"
    using assms(2-4) Some by (auto simp: process_game_input_def)
  have "\<exists>w \<in> set (g_words g). matches (g_input g) w" using i(1,2) assms(1) nth_mem by (metis game_inv_def)
  moreover have "g_over (process_game_input ch g) = (w_type ?w = WORD_KILL)"
    "g_score (process_game_input ch g) = g_score g + (case w_type ?w of WORD_KILL \<Rightarrow> 0
                 | WORD_BONUS \<Rightarrow> 50 + int (length (g_input g)) | WORD_NORMAL \<Rightarrow> int (length (g_input g)))"
    using assms(2) unfolding p typed by (cases "w_type ?w"; simp add: award_def hit_word_def)+
  moreover have "g_words (process_game_input ch g) = (g_words g)[i := ?w\<lparr>w_active := False\<rparr>]"
    "active_words (g_table (process_game_input ch g)) = active_words (g_table g) - {g_input g}"
    "g_input (process_game_input ch g) = []" "g_lives (process_game_input ch g) = g_lives g"
    using tbl unfolding p typed by (simp_all add: hit_word_def typed)
  ultimately show ?thesis using i by auto
qed

definition no_game :: game where
  "no_game = \<lparr>g_words = [], g_table = \<lparr>buckets = [], total_count = 0\<rparr>, g_score = 0, g_lives = 0, g_over = False,
     g_input = [], g_height = 0, g_width = 0, g_manager = \<lparr>wm_words = [''rain''], wm_capacity = 100, wm_is_initialized = True\<rparr>,
     g_drop_ms = default_drop_ms\<rparr>"

lemma game_area_24_80: "game_area 24 80 = (19, 78)"
  by (simp add: game_area_def)

definition rain_word :: "word_type \<Rightarrow> word" where
  "rain_word t = \<lparr>w_text = ''rain'', w_x = 2, w_y = 3, w_active = True, w_to_remove = False, w_type = t, w_thread = True\<rparr>"

definition rainy :: "word_type \<Rightarrow> game" where
  "rainy t = (start_game 24 80 no_game)\<lparr>g_words := (replicate MAX_WORDS empty_slot)[0 := rain_word t],
     g_table := snd (add_active_word True (Some ''rain'') (snd (init_active_word_table True (g_table no_game))))\<rparr>"

lemma rainy_inv [simp]: "game_inv (rainy t)"
proof -
  let ?g = "start_game 24 80 no_game"
  have g: "game_inv ?g" by (rule start_game_inv) (simp add: game_area_24_80)
  have h: "g_height ?g = 19" "g_width ?g = 78" "g_words ?g = replicate MAX_WORDS empty_slot"
      "g_table ?g = snd (init_active_word_table True (g_table no_game))"
    by (simp_all add: start_game_def game_area_24_80)
  have tbl: "active_inv (snd (add_active_word True (Some ''rain'') (g_table ?g)))"
      "active_words (snd (add_active_word True (Some ''rain'') (g_table ?g))) = {''rain''}"
    using add_active [of "g_table ?g" "''rain''" True] by (simp_all add: h)
  have "game_inv (?g\<lparr>g_words := (g_words ?g)[0 := rain_word t],
      g_table := snd (add_active_word True (Some ''rain'') (g_table ?g))\<rparr>)"
    by (rule game_inv_update [OF g _ _ tbl(1)]) (auto simp: tbl(2) slot_ok_def rain_word_def h(1,2))
  then show ?thesis unfolding rainy_def h .
qed

lemma rainy_fields [simp]:
  "g_words (rainy t) ! 0 = rain_word t" "length (g_words (rainy t)) = MAX_WORDS" "g_over (rainy t) = False"
  "g_height (rainy t) = 19" "g_width (rainy t) = 78" "g_lives (rainy t) = 5" "g_score (rainy t) = 0"
  by (simp_all add: rainy_def start_game_def game_area_24_80)

lemma game_inv_typing: "game_inv g \<Longrightarrow> length tx < INPUT_BUFFER_LEN \<Longrightarrow> \<forall>c \<in> set tx. typable c \<Longrightarrow> game_inv (g\<lparr>g_input := tx\<rparr>)"
  by (auto simp: game_inv_def texts_on_screen_def)

theorem submit_hits_best_word_witness:
  "\<exists>i < MAX_WORDS. matches ''rain'' (g_words (rainy WORD_BONUS) ! i)
     \<and> \<not> w_active (g_words (process_game_input 10 ((rainy WORD_BONUS)\<lparr>g_input := ''rain''\<rparr>)) ! i)"
proof -
  let ?g = "(rainy WORD_BONUS)\<lparr>g_input := ''rain''\<rparr>"
  have inv: "game_inv ?g" by (rule game_inv_typing) (auto simp: typable_def)
  have "rain_word WORD_BONUS \<in> set (g_words ?g)" by (simp add: rainy_def set_update_memI)
  moreover have "matches (g_input ?g) (rain_word WORD_BONUS)" by (simp add: matches_def rain_word_def)
  ultimately have "\<exists>w \<in> set (g_words ?g). matches (g_input ?g) w" by blast
  with submit_hits_best_word [OF inv, of 10]
  have "\<exists>i < MAX_WORDS. matches (g_input ?g) (g_words ?g ! i)
      \<and> g_words (process_game_input 10 ?g) = (g_words ?g)[i := (g_words ?g ! i)\<lparr>w_active := False\<rparr>]"
    unfolding if_P by auto
  then show ?thesis by auto
qed

text \<open>
  Typing a word: the keys of a text of at most 39 printable characters without spaces, on an
  empty buffer, fill the buffer with exactly that text and change nothing else, so that the key that follows
  submits it.
\<close>

theorem typing_fills_buffer:
  assumes "\<not> g_over g" "g_input g = []" "\<forall>c \<in> set tx. typable c" "length tx < INPUT_BUFFER_LEN"
  shows "fold process_game_input (map (\<lambda>c. int (of_char c)) tx) g = g\<lparr>g_input := tx\<rparr>"
proof -
  have "fold process_game_input (map (\<lambda>c. int (of_char c)) tx) h = h\<lparr>g_input := g_input h @ tx\<rparr>"
    if "\<not> g_over h" "length (g_input h) + length tx < INPUT_BUFFER_LEN" for h
    using assms(3) that
  proof (induction tx arbitrary: h)
    case Nil
    then show ?case by simp
  next
    case (Cons c tx)
    define k where "k = (of_char c :: nat)"
    have k: "33 \<le> k" "k \<le> 126" using Cons.prems(1) by (auto simp: typable_def k_def)
    have c: "char_of k = c" by (simp add: k_def)
    have "process_game_input (int (of_char c)) h = h\<lparr>g_input := g_input h @ [c]\<rparr>"
      unfolding k_def [symmetric] using k c Cons.prems(2,3) by (simp add: process_game_input_def edit_input_def)
    then show ?case using Cons by simp
  qed
  then show ?thesis using assms by simp
qed

theorem typing_fills_buffer_witness:
  "fold process_game_input (map (\<lambda>c. int (of_char c)) ''rain'') (rainy WORD_KILL) = (rainy WORD_KILL)\<lparr>g_input := ''rain''\<rparr>"
  by (rule typing_fills_buffer) (auto simp: typable_def rainy_def start_game_def game_area_24_80)

text \<open>
  A word with a space or with a byte outside the printable ASCII range, such as any Korean word of
  the UTF-8 list, can never be cleared by the keyboard: no sequence of keys makes its slot inactive.
\<close>

theorem untypable_word_stays:
  assumes "game_inv g" "i < MAX_WORDS" "w_active (g_words g ! i)" "c \<in> set (w_text (g_words g ! i))" "\<not> typable c"
  shows "g_words (fold process_game_input keys g) ! i = g_words g ! i"
proof -
  have step: "g_words (process_game_input ch h) ! i = g_words h ! i"
    if inv: "game_inv h" and c: "c \<in> set (w_text (g_words h ! i))" for h ch
  proof (cases "pick_target (g_input h) 0 3 (-1) None (g_words h)")
    case None
    then show ?thesis by (simp add: process_game_input_def edit_input_def)
  next
    case (Some j)
    have "w_text (g_words h ! j) = g_input h" using pick_target_iff(2) [OF Some] by (simp add: matches_def)
    moreover have "\<forall>c \<in> set (g_input h). typable c" using inv by (simp add: game_inv_def)
    ultimately have "j \<noteq> i" using c assms(5) by auto
    then show ?thesis using Some by (simp add: process_game_input_def edit_input_def hit_word_def)
  qed
  have "g_words (fold process_game_input keys h) ! i = g_words h ! i"
    if "game_inv h" "c \<in> set (w_text (g_words h ! i))" for h
    using that
  proof (induction keys arbitrary: h)
    case (Cons k keys)
    then show ?case using step [of h k] process_game_input_inv [of h k] by simp
  qed simp
  then show ?thesis using assms(1,4) by blast
qed

theorem untypable_word_stays_witness:
  "\<exists>g. w_active (g_words g ! 0) \<and> g_words (fold process_game_input [97, 32, 98, 10] g) ! 0 = g_words g ! 0"
proof -
  let ?w = "(rain_word WORD_NORMAL)\<lparr>w_text := ''a b''\<rparr>"
  let ?g = "(rainy WORD_NORMAL)\<lparr>g_words := (g_words (rainy WORD_NORMAL))[0 := ?w],
    g_table := snd (remove_active_word (Some ''rain'') (g_table (rainy WORD_NORMAL)))\<rparr>"
  have tbl: "active_inv (g_table (rainy WORD_NORMAL))" using rainy_inv by (simp only: game_inv_def)
  have inv: "game_inv ?g"
    by (rule game_inv_update [OF rainy_inv]) (use tbl in \<open>auto simp: slot_ok_def rain_word_def\<close>)
  have w: "g_words ?g ! 0 = ?w" by simp
  show ?thesis
    using untypable_word_stays [OF inv, of 0 "CHR '' ''" "[97, 32, 98, 10]"] unfolding w
    by (intro exI [of _ ?g]) (simp add: w typable_def rain_word_def)
qed

text \<open>
  Claim C33. A word that is never hit falls one row at a time and ends after as many drops as rows were left:
  then its slot is inactive, its text has left the table, and it costs one life, which ends the game when it
  was the last, unless it is a kill word, which costs none.
\<close>

theorem unhit_word_costs_life:
  assumes "game_inv g" "\<not> g_over g" "i < MAX_WORDS" "w_active (g_words g ! i)"
    and "int n = g_height g - w_y (g_words g ! i)"
  shows "(\<forall>m < n. (drop_word i ^^ m) g = g\<lparr>g_words := (g_words g)[i := (g_words g ! i)\<lparr>w_y := w_y (g_words g ! i) + int m\<rparr>]\<rparr>)
    \<and> \<not> w_active (g_words ((drop_word i ^^ n) g) ! i)
    \<and> w_text (g_words g ! i) \<notin> active_words (g_table ((drop_word i ^^ n) g))
    \<and> g_lives ((drop_word i ^^ n) g) = g_lives g - (if w_type (g_words g ! i) = WORD_KILL then 0 else 1)
    \<and> g_over ((drop_word i ^^ n) g) = (w_type (g_words g ! i) \<noteq> WORD_KILL \<and> g_lives g = 1)
    \<and> g_score ((drop_word i ^^ n) g) = g_score g"
proof -
  let ?w = "g_words g ! i"
  have len: "length (g_words g) = MAX_WORDS" and tbl: "active_inv (g_table g)" and lives: "0 < g_lives g"
    using assms(1,2) by (auto simp: game_inv_def)
  have falls: "(drop_word i ^^ m) g = g\<lparr>g_words := (g_words g)[i := ?w\<lparr>w_y := w_y ?w + int m\<rparr>]\<rparr>" if "m < n" for m
    using that
  proof (induction m)
    case 0
    have "?w\<lparr>w_y := w_y ?w\<rparr> = ?w" by simp
    then show ?case by simp
  next
    case (Suc m)
    let ?h = "g\<lparr>g_words := (g_words g)[i := ?w\<lparr>w_y := w_y ?w + int m\<rparr>]\<rparr>"
    have "(drop_word i ^^ Suc m) g = drop_word i ?h" using Suc by simp
    also have "\<dots> = g\<lparr>g_words := (g_words g)[i := ?w\<lparr>w_y := w_y ?w + int (Suc m)\<rparr>]\<rparr>"
      using Suc.prems assms(3-5) len by (simp add: drop_word_def Let_def ac_simps)
    finally show ?case .
  qed
  have "0 < n" using game_inv_slot [OF assms(1,3)] assms(4,5) by (simp add: slot_ok_def)
  then obtain m where m: "n = Suc m" by (cases n) auto
  let ?h = "g\<lparr>g_words := (g_words g)[i := ?w\<lparr>w_y := w_y ?w + int m\<rparr>]\<rparr>"
  have last: "(drop_word i ^^ n) g = drop_word i ?h" using falls [of m] m by simp
  have land: "\<not> w_y ?w + int m + 1 < g_height g" using assms(5) m by simp
  show ?thesis
    unfolding last using falls assms(2-4) len tbl land lives by (auto simp: drop_word_def Let_def)
qed

theorem unhit_word_costs_life_witness:
  "g_lives ((drop_word 0 ^^ 16) (rainy WORD_BONUS)) = 4 \<and> g_lives ((drop_word 0 ^^ 16) (rainy WORD_KILL)) = 5"
  using unhit_word_costs_life [of "rainy WORD_BONUS" 0 16] unhit_word_costs_life [of "rainy WORD_KILL" 0 16]
  by (simp add: rain_word_def)

lemma acts_inv: "game_inv g \<Longrightarrow> game_inv (fold act as g)"
proof (induction as arbitrary: g)
  case (Cons a as)
  have "game_inv (act a g)"
    using Cons.prems drop_word_inv finish_word_inv game_inv_score(1)
    by (cases a) (auto simp: has_thread_def game_inv_def [of g])
  then show ?case using Cons.IH by simp
qed simp

lemma game_loop_inv:
  assumes "game_loop rounds t0 g = Some g'" "game_inv g"
  shows "game_inv g'"
  using assms
proof (induction rounds arbitrary: t0 g)
  case Nil
  then show ?case by simp
next
  case (Cons r rounds)
  define g1 where "g1 = fold act (rd_acts r) g"
  define g2 where "g2 = (if rd_sigint r \<or> rd_exit r then g1\<lparr>g_over := True\<rparr> else g1)"
  define g3 where "g3 = process_game_input (rd_key r) (fold act (rd_acts_key r) g2)"
  define p where "p = (if \<not> g_over g3 \<and> WORD_SPAWN_RATE_MS \<le> rd_now r - t0
                        then (snd (spawn_word (rd_rand r) (rd_malloc r) (rd_create r) g3), rd_now r)
                        else (g3, t0))"
  define g5 where "g5 = cleanup_finished_threads (fold act (rd_acts_end r) (fst p))"
  have "game_inv g2" using Cons.prems(2) game_inv_score(1) acts_inv by (simp add: g1_def g2_def)
  then have "game_inv g3" unfolding g3_def by (intro process_game_input_inv acts_inv)
  then have "game_inv (fst p)" unfolding p_def using spawn_word_inv by simp
  then have g5: "game_inv g5" unfolding g5_def by (intro cleanup_inv acts_inv)
  have "(if g_over g2 then Some g5 else game_loop rounds (snd p) g5) = Some g'"
    using Cons.prems(1) by (simp only: game_loop.simps Let_def split_beta g1_def g2_def g3_def p_def g5_def)
  then show ?case using g5 Cons.IH by (auto split: if_splits)
qed

text \<open>
  Claim C34. What a game returns, whatever drops, ends and signals the word threads bring in at the three points of
  each round: -2 or -1 when it could not start (the screen is below 10 rows or 22 columns), otherwise a
  score of at least 0, with all 20 slots without a thread, no word on the screen or in the table, between
  0 and 5 lives, and an empty word store: the next game has no words until the client loads
  them again.
\<close>

theorem game_result:
  assumes "run_rain_typing_game table_ok mutexes_ok sh sw start_ms rounds g = Some (c, g')"
  shows "(c = -2 \<and> \<not> (table_ok \<and> mutexes_ok)) \<or> (c = -1 \<and> (sh < 10 \<or> sw < 22))
    \<or> (0 \<le> c \<and> c = g_score g' \<and> 10 \<le> sh \<and> 22 \<le> sw \<and> 0 \<le> g_lives g' \<and> g_lives g' \<le> INITIAL_LIVES
       \<and> (\<forall>w \<in> set (g_words g'). \<not> w_thread w \<and> \<not> w_active w) \<and> length (g_words g') = MAX_WORDS
       \<and> active_words (g_table g') = {}
       \<and> (\<forall>rs m k. spawn_word rs m k g' = (None, g')))"
proof -
  let ?g0 = "start_game sh sw g"
  have area: "g_height ?g0 = sh - 5" "g_width ?g0 = sw - 2" by (simp_all add: start_game_def game_area_def)
  consider (no_table) "\<not> table_ok" "c = -2" | (small) "table_ok" "sh < 10 \<or> sw < 22" "c = -1"
    | (no_mutex) "table_ok" "\<not> mutexes_ok" "c = -2"
    | (run) h where "10 \<le> sh" "22 \<le> sw" "game_loop rounds start_ms ?g0 = Some h" "c = g_score h" "g' = safe_game_cleanup h"
    using assms(1) by (auto simp: run_rain_typing_game_def Let_def area split: if_splits)
  then show ?thesis
  proof cases
    case run
    have "game_inv ?g0" using run(1) by (intro start_game_inv) (simp add: game_area_def)
    then have inv: "game_inv h" using game_loop_inv run(3) by blast
    define stop where "stop = (\<lambda>w. reaped (if w_thread w then w\<lparr>w_to_remove := True\<rparr> else w))"
    have "slot_ok ht wd w \<Longrightarrow> \<not> w_active (stop w) \<and> \<not> w_thread (stop w)" for ht wd w
      by (auto simp: stop_def reaped_def slot_ok_def)
    then have "\<forall>w \<in> set (g_words h). \<not> w_thread (stop w) \<and> \<not> w_active (stop w)"
      using inv unfolding game_inv_def by blast
    moreover have "g_words g' = map stop (g_words h)"
      using run(5) by (simp add: safe_game_cleanup_def stop_def comp_def)
    ultimately have "\<forall>w \<in> set (g_words g'). \<not> w_thread w \<and> \<not> w_active w" by simp
    moreover have "spawn_word rs m k g' = (None, g')" for rs m k
      using run(5) by (auto simp: spawn_word_def safe_game_cleanup_def Let_def cleanup_word_manager_def)
    ultimately show ?thesis using run inv by (simp add: game_inv_def safe_game_cleanup_def Let_def)
  qed auto
qed

text \<open>A game in which \<open>rain\<close> falls for one row, is typed, and \<open>Ctrl+C\<close> ends the game.\<close>

definition idle_round :: round where
  "idle_round = \<lparr>rd_sigint = False, rd_exit = False, rd_acts = [], rd_acts_key = [], rd_key = KEY_ERR, rd_now = 0,
     rd_rand = (\<lambda>_. 50), rd_malloc = True, rd_create = True, rd_acts_end = []\<rparr>"

definition rain_rounds :: "round list" where
  "rain_rounds =
     [idle_round\<lparr>rd_now := 1500\<rparr>, idle_round\<lparr>rd_acts := [Drops 0], rd_key := 114\<rparr>, idle_round\<lparr>rd_key := 97\<rparr>,
      idle_round\<lparr>rd_key := 105\<rparr>, idle_round\<lparr>rd_key := 110\<rparr>, idle_round\<lparr>rd_key := 10, rd_acts_end := [Ends 0]\<rparr>,
      idle_round\<lparr>rd_exit := True\<rparr>]"

lemma pick_target_inactive: "\<forall>w \<in> set ws. \<not> w_active w \<Longrightarrow> pick_target typed k p y target ws = target"
  by (induction ws arbitrary: k) (auto simp: pick_target.simps)

lemma reaped_empty [simp]: "reaped empty_slot = empty_slot"
  by (simp add: reaped_def empty_slot_def)

lemma rain_game:
  assumes "wm_is_initialized (g_manager g)" "wm_words (g_manager g) = [''rain'']"
  shows "\<exists>g'. run_rain_typing_game True True 24 80 0 rain_rounds g = Some (4, g')"
proof -
  let ?g = "start_game 24 80 g"
  have g: "g_height ?g = 19" "g_width ?g = 78" "g_words ?g = empty_slot # replicate 19 empty_slot" "g_manager ?g = g_manager g"
      "\<not> g_over ?g" "g_input ?g = []" "g_score ?g = 0" "g_table ?g = snd (init_active_word_table True (g_table g))"
    by (simp_all add: start_game_def game_area_24_80 numeral_eq_Suc)
  define w where "w = (\<lambda>y. \<lparr>w_text = ''rain'', w_x = 50, w_y = y, w_active = True, w_to_remove = False, w_type = WORD_NORMAL, w_thread = True\<rparr>)"
  define S where "S = (\<lambda>x inp t. ?g\<lparr>g_words := x # replicate 19 empty_slot, g_table := t, g_input := inp\<rparr>)"
  have S: "g_words (S x inp t) = x # replicate 19 empty_slot" "g_input (S x inp t) = inp" "g_over (S x inp t) = False"
      "g_score (S x inp t) = 0" "g_height (S x inp t) = 19" "S x inp t\<lparr>g_words := y # replicate 19 empty_slot\<rparr> = S y inp t"
      "S x inp t\<lparr>g_input := b\<rparr> = S x b t" for x y inp t b
    using g by (simp_all add: S_def)
  have rest: "cleanup_finished_threads (S x inp t) = S x inp t" if "\<not> w_to_remove x" for x inp t
    using that unfolding cleanup_finished_threads_def by (simp add: S reaped_def [of x])
  have "\<not> is_word_in_active_table (Some ''rain'') (g_table ?g)" using g(8) by (simp add: is_word_iff)
  then have pick: "pick_word (\<lambda>_. 50) [''rain''] (g_table ?g) 0 = (''rain'', 1)" by (simp add: pick_word.simps [of _ _ _ 0])
  have slot: "free_slot_from 0 (g_words ?g) = Some 0" unfolding g(3) by (simp add: empty_slot_def)
  have ty: "spawn_type 50 50 = WORD_NORMAL" by (simp add: spawn_type_def)
  have tx: "strncpy_str MAX_WORD_LEN ''rain'' = ''rain''" by simp
  have "spawn_word (\<lambda>_. 50) True True ?g
      = (Some 0, S (w 0) [] (snd (add_active_word True (Some ''rain'') (g_table ?g))))"
    using assms g(1,2,4,6) pick slot ty tx by (simp add: spawn_word_def Let_def S_def w_def g(3))
  then have "\<exists>t. spawn_word (\<lambda>_. 50) True True ?g = (Some 0, S (w 0) [] t)" by blast
  then obtain t where spawn: "spawn_word (\<lambda>_. 50) True True ?g = (Some 0, S (w 0) [] t)" ..
  have drop: "act (Drops 0) (S (w 0) inp t) = S (w 1) inp t" for inp t
    by (simp add: drop_word_def has_thread_def S) (simp add: w_def S)
  have off: "\<forall>x \<in> set (replicate 19 empty_slot). \<not> w_active x" by (simp add: empty_slot_def)
  have target: "pick_target ''rain'' 0 3 (-1) None (w 1 # replicate 19 empty_slot) = Some 0"
    using pick_target_inactive [OF off] by (simp add: pick_target.simps(2) w_def priority_def del: set_replicate)
  have typed: "g_score (process_game_input 10 (S (w 1) ''rain'' t)) = 4" "\<not> g_over (process_game_input 10 (S (w 1) ''rain'' t))"
      "g_words (process_game_input 10 (S (w 1) ''rain'' t)) = (w 1)\<lparr>w_active := False\<rparr> # replicate 19 empty_slot" for t
    by (simp_all add: process_game_input_def S target award_def hit_word_def) (simp_all add: w_def)
  have round: "game_loop (idle_round\<lparr>rd_acts := as, rd_key := k, rd_acts_end := bs\<rparr> # rs) 1500 h
      = game_loop rs 1500 (cleanup_finished_threads (fold act bs (process_game_input k (fold act as h))))"
    if "\<not> g_over (fold act as h)" for as bs k rs h
    using that by (simp add: idle_round_def)
  have last: "\<exists>g'. game_loop [idle_round\<lparr>rd_exit := True\<rparr>] 1500 h = Some g' \<and> g_score g' = g_score h" for h
    by (simp add: idle_round_def process_game_input_def cleanup_finished_threads_def)
  obtain h where h: "cleanup_finished_threads (act (Ends 0) (process_game_input 10 (S (w 1) ''rain'' t))) = h" by blast
  have fresh: "\<not> w_to_remove (w y)" "w_thread (w y)" for y by (simp_all add: w_def)
  have score: "g_score h = 4" unfolding h [symmetric]
    by (simp add: has_thread_def typed fresh cleanup_finished_threads_def finish_word_def Let_def)
  have first: "game_loop (idle_round\<lparr>rd_now := 1500\<rparr> # rs) 0 ?g = game_loop rs 1500 (S (w 0) [] t)" for rs
    using spawn g(5) rest [OF fresh(1), of 0 "[]" t] by (simp add: idle_round_def process_game_input_def)
  have k: "process_game_input 114 (S x inp t) = S x (inp @ ''r'') t" "process_game_input 97 (S x inp t) = S x (inp @ ''a'') t"
      "process_game_input 105 (S x inp t) = S x (inp @ ''i'') t" "process_game_input 110 (S x inp t) = S x (inp @ ''n'') t"
    if "length inp < 39" for x inp t
    using that by (simp_all add: process_game_input_def edit_input_def S char_of_def bit_0)
  have rounds: "rain_rounds = [idle_round\<lparr>rd_now := 1500\<rparr>, idle_round\<lparr>rd_acts := [Drops 0], rd_key := 114, rd_acts_end := []\<rparr>,
      idle_round\<lparr>rd_acts := [], rd_key := 97, rd_acts_end := []\<rparr>, idle_round\<lparr>rd_acts := [], rd_key := 105, rd_acts_end := []\<rparr>,
      idle_round\<lparr>rd_acts := [], rd_key := 110, rd_acts_end := []\<rparr>, idle_round\<lparr>rd_acts := [], rd_key := 10, rd_acts_end := [Ends 0]\<rparr>,
      idle_round\<lparr>rd_exit := True\<rparr>]"
    by (simp add: rain_rounds_def idle_round_def)
  have "game_loop rain_rounds 0 ?g = game_loop [idle_round\<lparr>rd_exit := True\<rparr>] 1500 h"
    unfolding rounds first using h by (simp add: round drop k S rest fresh del: act.simps game_loop.simps)
  then obtain g' where "game_loop rain_rounds 0 ?g = Some g'" "g_score g' = 4" using last [of h] score by auto
  then show ?thesis using g(1,2) by (simp add: run_rain_typing_game_def)

qed

theorem game_result_witness:
  "\<exists>g'. run_rain_typing_game True True 24 80 0 rain_rounds no_game = Some (4, g')
     \<and> g_score g' = 4 \<and> spawn_word (\<lambda>_. 0) True True g' = (None, g')"
proof -
  obtain g' where r: "run_rain_typing_game True True 24 80 0 rain_rounds no_game = Some (4, g')"
    using rain_game [of no_game] by (auto simp: no_game_def)
  from game_result [OF this] show ?thesis using r by auto
qed

end
