(* ===== verification/Client_Screen.thy ===== *)
theory Client_Screen
  imports Client_Network Game_Logic
begin

text \<open>
  What the client's screens share: the state of the program, the calls of the screen library as a list of
  commands, the keyboard, \<open>handle_sigint\<close> and \<open>wait_for_key_or_signal\<close> (both in
  \<^verbatim>\<open>client/src/client_main.c\<close>), and the constants of \<^verbatim>\<open>client/include/client_globals.h\<close>.
\<close>

section \<open>Constants\<close>

abbreviation Y_TITLE :: int where "Y_TITLE \<equiv> 2"
abbreviation Y_OPTIONS_START :: int where "Y_OPTIONS_START \<equiv> 4"
abbreviation Y_INPUT_FIELD :: int where "Y_INPUT_FIELD \<equiv> 11"
abbreviation Y_STATUS_MSG :: int where "Y_STATUS_MSG \<equiv> 13"
abbreviation Y_MSG_OFFSET1 :: int where "Y_MSG_OFFSET1 \<equiv> 1"
abbreviation Y_MSG_OFFSET2 :: int where "Y_MSG_OFFSET2 \<equiv> 2"
abbreviation X_DEFAULT_POS :: int where "X_DEFAULT_POS \<equiv> 10"
abbreviation COLOR_PAIR_KILL :: nat where "COLOR_PAIR_KILL \<equiv> 2"
abbreviation COLOR_PAIR_BONUS :: nat where "COLOR_PAIR_BONUS \<equiv> 3"
abbreviation KEY_ENTER :: int where "KEY_ENTER \<equiv> 343"

section \<open>The screen\<close>

text \<open>The calls of the library, in the order the program makes them: \<open>Print\<close> is \<open>mvprintw\<close>, \<open>Put\<close>
  is \<open>mvaddch\<close>; the commands for the border draw \<open>BORDER_CHAR\<close>.\<close>

datatype draw =
    Clear | Erase | Refresh | Clrtoeol
  | Move int int
  | Print int int string
  | Put int int char
  | Border_hline int int int
  | Border_vline int int int
  | Border_put int int
  | Attron nat
  | Attroff nat
  | Echo bool

section \<open>The state of the client\<close>

text \<open>
  What one run of the game meets: the answers of the initialisations, the size of the screen, the clock at the
  start, the rounds of its loop, and whether \<open>sigint_game_exit_requested\<close> is set when it is over.

  \<open>cl_keys\<close> is what the successive calls of \<open>getch\<close> give, \<open>cl_stack\<close> what the successive response structs hold before
  the calls that fill them, \<open>cl_exit\<close> is \<open>sigint_game_exit_requested\<close>, \<open>cl_running\<close> is \<open>is_game_running\<close>, and \<open>cl_sigs\<close>
  says for each read of \<open>sigint_game_exit_requested\<close> whether \<open>SIGINT\<close> came before it. \<open>sigint_received\<close> is read
  through \<open>cl_net\<close>. \<open>cl_games\<close> gives what each run of the game meets, \<open>cl_conns\<close> what each connection to the server
  does (\<open>socket\<close>, \<open>connect\<close>, and the answers of \<open>recv\<close> and \<open>send\<close>). \<open>cl_mutex\<close> is the mutex of the table of active
  words, and \<open>cl_misuse\<close> records that it was locked when it was not initialised. \<open>cl_nodelay\<close>
  is the mode of the keyboard: in this mode \<open>getch\<close> does not wait, but gives \<open>ERR\<close>.
\<close>

record game_env =
  ge_table :: bool
  ge_mutexes :: bool
  ge_height :: int
  ge_width :: int
  ge_start :: int
  ge_rounds :: "round list"
  ge_exit :: bool

datatype mutex = Uninitialised | Live | Destroyed

record client =
  cl_net :: net
  cl_keys :: "int list"
  cl_draws :: "draw list"
  cl_stack :: "bytes list"
  cl_crypto :: bool
  cl_exit :: bool
  cl_running :: bool
  cl_sigs :: "bool list"
  cl_game :: game
  cl_mutex :: mutex
  cl_games :: "game_env list"
  cl_conns :: "(bool \<times> bool \<times> recv_event list \<times> send_event list) list"
  cl_misuse :: bool
  cl_nodelay :: bool
  cl_lines :: int
  cl_cols :: int

text \<open>
  What a part of the program comes to: a value; the end of the program with an exit code and a message; or no return:
  it waits for a key or for the peer, plays, is killed by \<open>SIGPIPE\<close>, or is undefined.
\<close>

datatype 'a outcome =
    Done 'a client
  | Exited int string client
  | Key_wait client
  | Peer_wait
  | Playing
  | Killed_by_pipe
  | Undef

text \<open>One part after another.\<close>

definition seq :: "(client \<Rightarrow> 'a outcome) \<Rightarrow> ('a \<Rightarrow> client \<Rightarrow> 'b outcome) \<Rightarrow> client \<Rightarrow> 'b outcome" where
  "seq m f c = (case m c of
     Done a c' \<Rightarrow> f a c'
   | Exited code msg c' \<Rightarrow> Exited code msg c'
   | Key_wait c' \<Rightarrow> Key_wait c'
   | Peer_wait \<Rightarrow> Peer_wait
   | Playing \<Rightarrow> Playing
   | Killed_by_pipe \<Rightarrow> Killed_by_pipe
   | Undef \<Rightarrow> Undef)"

definition give :: "'a \<Rightarrow> client \<Rightarrow> 'a outcome" where
  "give a c = Done a c"

definition draw :: "draw list \<Rightarrow> client \<Rightarrow> unit outcome" where
  "draw ds c = Done () (c\<lparr>cl_draws := cl_draws c @ ds\<rparr>)"

definition getch :: "client \<Rightarrow> int outcome" where
  "getch c = (case cl_keys c of [] \<Rightarrow> Key_wait c | k # ks \<Rightarrow> Done k (c\<lparr>cl_keys := ks\<rparr>))"

text \<open>A read of \<open>sigint_received\<close>, and one of \<open>sigint_game_exit_requested\<close>.\<close>

definition read_sigint :: "client \<Rightarrow> bool outcome" where
  "read_sigint c = (let (b, n) = sigint_received (cl_net c) in Done b (c\<lparr>cl_net := n\<rparr>))"

text \<open>The handler: the new values of \<open>sigint_received\<close> and \<open>sigint_game_exit_requested\<close>.\<close>

definition handle_sigint :: "bool \<Rightarrow> bool \<times> bool \<Rightarrow> bool \<times> bool" where
  "handle_sigint is_game_running flags = (if is_game_running then (fst flags, True) else (True, snd flags))"

definition read_game_exit :: "client \<Rightarrow> bool outcome" where
  "read_game_exit c =
     (let came = cl_sigs c \<noteq> [] \<and> hd (cl_sigs c);
          e = (if came then snd (handle_sigint (cl_running c) (False, cl_exit c)) else cl_exit c)
      in Done e (c\<lparr>cl_exit := e, cl_sigs := tl (cl_sigs c)\<rparr>))"

text \<open>A typed request: its return code and the response struct.\<close>

definition request_call :: "(bytes \<Rightarrow> bytes \<Rightarrow> net \<Rightarrow> call) \<Rightarrow> client \<Rightarrow> (int \<times> bytes) outcome" where
  "request_call f c =
     (let ejunk = (case cl_stack c of [] \<Rightarrow> [] | b # _ \<Rightarrow> b);
          resp = (case tl (cl_stack c) of [] \<Rightarrow> [] | b # _ \<Rightarrow> b)
      in case f ejunk resp (cl_net c) of
           Returns code r n \<Rightarrow> Done (code, r) (c\<lparr>cl_net := n, cl_stack := tl (tl (cl_stack c))\<rparr>)
         | Waits \<Rightarrow> Peer_wait
         | Killed \<Rightarrow> Killed_by_pipe
         | Undefined \<Rightarrow> Undef)"

lemma request_returns:
  assumes "\<And>ejunk resp. \<exists>n. client_request ejunk q resp (cl_net c) = Returns code rb n \<and> Q n"
    and "\<And>ejunk. f ejunk = client_request ejunk q"
  shows "\<exists>n. request_call f c = Done (code, rb) (c\<lparr>cl_net := n, cl_stack := tl (tl (cl_stack c))\<rparr>) \<and> Q n"
  using assms(1) [of "case cl_stack c of [] \<Rightarrow> [] | b # _ \<Rightarrow> b" "case tl (cl_stack c) of [] \<Rightarrow> [] | b # _ \<Rightarrow> b"] assms(2)
  by (auto simp: request_call_def Let_def)

section \<open>Waiting for a key\<close>

function wait_loop :: "client \<Rightarrow> unit outcome" where
  "wait_loop c =
     (case read_game_exit c of
        Done True c1 \<Rightarrow> Done () c1
      | Done False c1 \<Rightarrow>
          (case read_sigint c1 of
             Done True c2 \<Rightarrow> Done () c2
           | Done False c2 \<Rightarrow>
               (case cl_keys c2 of
                  [] \<Rightarrow> Key_wait c2
                | key # ks \<Rightarrow> if key = KEY_ERR then wait_loop (c2\<lparr>cl_keys := ks\<rparr>) else Done () (c2\<lparr>cl_keys := ks\<rparr>))
           | _ \<Rightarrow> Undef)
      | _ \<Rightarrow> Undef)"
  by pat_completeness auto
termination
  by (relation "measure (\<lambda>c. length (cl_keys c))")
    (auto simp: read_game_exit_def read_sigint_def Let_def split: prod.splits)

declare wait_loop.simps [simp del]

definition wait_for_key_or_signal :: "int \<Rightarrow> int \<Rightarrow> string \<Rightarrow> client \<Rightarrow> unit outcome" where
  "wait_for_key_or_signal y x prompt =
     seq (draw [Print y x prompt, Clrtoeol, Refresh]) (\<lambda>_. wait_loop)"

section \<open>Rules for the parts of the program\<close>

lemma seq_Done: "m c = Done a c' \<Longrightarrow> seq m f c = f a c'"
  by (simp add: seq_def)

lemma seq_DoneE: "seq m f c = Done b c' \<Longrightarrow> (\<And>a c1. m c = Done a c1 \<Longrightarrow> f a c1 = Done b c' \<Longrightarrow> thesis) \<Longrightarrow> thesis"
  by (auto simp: seq_def split: outcome.splits)

lemma act_simps [simp]:
  "seq (give a) f = f a" "seq (draw ds) g c = g () (c\<lparr>cl_draws := cl_draws c @ ds\<rparr>)"
  "cl_keys c = k # ks \<Longrightarrow> getch c = Done k (c\<lparr>cl_keys := ks\<rparr>)"
  by (simp_all add: seq_def give_def draw_def getch_def fun_eq_iff)

text \<open>A relation between the states before and after every return of a part.\<close>

definition keeps :: "(client \<Rightarrow> client \<Rightarrow> bool) \<Rightarrow> (client \<Rightarrow> 'a outcome) \<Rightarrow> bool" where
  "keeps R m \<longleftrightarrow> (\<forall>c a c'. m c = Done a c' \<longrightarrow> R c c')"

text \<open>
  What the parts that only use the screen, the keyboard and the flags do to the rest of the state: keys are taken
  from the front, nothing is sent, and where no signal was to come none comes.
\<close>

definition ui_move :: "client \<Rightarrow> client \<Rightarrow> bool" where
  "ui_move c c' \<longleftrightarrow> suffix (cl_keys c') (cl_keys c) \<and> net_out (cl_net c') = net_out (cl_net c)
     \<and> (quiet (net_sig (cl_net c)) \<longrightarrow> quiet (net_sig (cl_net c'))) \<and> cl_game c' = cl_game c \<and> cl_mutex c' = cl_mutex c"

lemma ui_move_keys: "ui_move c c' \<Longrightarrow> length (cl_keys c') \<le> length (cl_keys c)"
  by (simp add: ui_move_def suffix_length_le)

locale act_relation =
  fixes R :: "client \<Rightarrow> client \<Rightarrow> bool"
  assumes of_ui: "ui_move c c' \<Longrightarrow> R c c'"
    and rel_trans: "R c c' \<Longrightarrow> R c' c'' \<Longrightarrow> R c c''"
begin

lemma keeps_ui: "keeps ui_move m \<Longrightarrow> keeps R m"
  by (auto simp: keeps_def intro: of_ui)

lemma keeps_seq: "keeps R m \<Longrightarrow> (\<And>a. keeps R (f a)) \<Longrightarrow> keeps R (seq m f)"
  unfolding keeps_def by (blast elim: seq_DoneE intro: rel_trans)

lemma keeps_if: "(b \<Longrightarrow> keeps R m) \<Longrightarrow> (\<not> b \<Longrightarrow> keeps R m') \<Longrightarrow> keeps R (if b then m else m')"
  by simp

lemma keeps_option: "keeps R m \<Longrightarrow> (\<And>a. keeps R (f a)) \<Longrightarrow> keeps R (case x of None \<Rightarrow> m | Some a \<Rightarrow> f a)"
  by (cases x) simp_all

lemma keeps_Undef: "keeps R (\<lambda>_. Undef)"
  by (simp add: keeps_def)

lemma keeps_pair: "(\<And>a b. keeps R (f a b)) \<Longrightarrow> keeps R (case p of (a, b) \<Rightarrow> f a b)"
  by (cases p) simp

end

interpretation ui: act_relation ui_move
  by unfold_locales (auto simp: ui_move_def intro: suffix_order.trans)

named_theorems ui_acts

lemma keeps_give [ui_acts]: "keeps ui_move (give a)"
  by (simp add: keeps_def give_def ui_move_def)

lemma keeps_draw [ui_acts]: "keeps ui_move (draw ds)"
  by (simp add: keeps_def draw_def ui_move_def)

lemma keeps_getch [ui_acts]: "keeps ui_move getch"
  by (auto simp: keeps_def getch_def ui_move_def suffix_ConsI split: list.splits)

lemma keeps_read_sigint [ui_acts]: "keeps ui_move read_sigint"
  by (auto simp: keeps_def read_sigint_def ui_move_def dest: sigint_received_out sigint_received_quiet split: prod.splits)

lemma keeps_read_game_exit [ui_acts]: "keeps ui_move read_game_exit"
  by (auto simp: keeps_def read_game_exit_def ui_move_def Let_def)

lemma keeps_wait_loop [ui_acts]: "keeps ui_move wait_loop"
proof -
  have "wait_loop c = Done u c' \<Longrightarrow> ui_move c c'" for c u c'
  proof (induction c rule: wait_loop.induct)
    case (1 c)
    obtain e c1 where e: "read_game_exit c = Done e c1" by (auto simp: read_game_exit_def Let_def)
    obtain g c2 where g: "read_sigint c1 = Done g c2"
      by (cases "sigint_received (cl_net c1)") (auto simp: read_sigint_def)
    have m: "ui_move c c1" "ui_move c1 c2"
      using keeps_read_game_exit e keeps_read_sigint g by (auto simp: keeps_def)
    show ?case
    proof (cases "e \<or> g \<or> cl_keys c2 = [] \<or> hd (cl_keys c2) \<noteq> KEY_ERR")
      case True
      then have "c' = c1 \<or> ui_move c2 c'" using "1.prems" e g
        by (cases e; cases g; cases "cl_keys c2") (auto simp: wait_loop.simps [of c] ui_move_def suffix_Cons split: if_splits)
      then show ?thesis using m ui.rel_trans by blast
    next
      case False
      then obtain ks where ks: "cl_keys c2 = KEY_ERR # ks" by (cases "cl_keys c2") auto
      have "ui_move (c2\<lparr>cl_keys := ks\<rparr>) c'"
        using "1.IH" "1.prems" e g ks False by (auto simp: wait_loop.simps [of c])
      then have "ui_move c2 c'" using ks by (auto simp: ui_move_def suffix_Cons)
      then show ?thesis using m ui.rel_trans by blast
    qed
  qed
  then show ?thesis by (simp add: keeps_def)
qed

lemma keeps_wait [ui_acts]: "keeps ui_move (wait_for_key_or_signal y x prompt)"
  unfolding wait_for_key_or_signal_def by (intro ui.keeps_seq ui_acts)

end
