(* ===== verification/Auth_UI.thy ===== *)
theory Auth_UI
  imports Client_Screen
begin

text \<open>
  \<^verbatim>\<open>client/src/auth_ui.c\<close>: the menu before the login, the input fields, and the requests it makes.
\<close>

section \<open>The input fields\<close>

definition draw_auth_menu :: "draw list" where
  "draw_auth_menu =
     [Clear, Print Y_TITLE X_DEFAULT_POS ''=== Welcome to Rain Typing Game ==='',
      Print Y_OPTIONS_START X_DEFAULT_POS ''1. Login'', Print (Y_OPTIONS_START + 1) X_DEFAULT_POS ''2. Register'',
      Print (Y_OPTIONS_START + 2) X_DEFAULT_POS ''3. Exit'', Print (Y_OPTIONS_START + 4) X_DEFAULT_POS ''Select an option: '',
      Refresh]"

text \<open>
  \<open>isprint\<close> in a locale where the bytes above 127 are parts of characters, such as UTF-8. It is undefined for
  an argument that is no byte, such as the code of a function key.
\<close>

definition isprint :: "int \<Rightarrow> bool option" where
  "isprint ch = (if 0 \<le> ch \<and> ch \<le> 255 then Some (32 \<le> ch \<and> ch \<le> 126) else None)"

text \<open>The loop of \<open>custom_get_string\<close>; its value is whether it was interrupted, and the buffer.\<close>

function get_string_loop :: "int \<Rightarrow> nat \<Rightarrow> bool \<Rightarrow> string \<Rightarrow> client \<Rightarrow> (bool \<times> string) outcome" where
  "get_string_loop input_start_x max_len is_password buffer c =
     (if \<not> length buffer < max_len - 1 then Done (False, buffer) c
      else case read_sigint c of
        Done True c1 \<Rightarrow> Done (True, buffer) c1
      | Done False c1 \<Rightarrow>
          (case cl_keys c1 of
             [] \<Rightarrow> Key_wait c1
           | ch # ks \<Rightarrow>
               let c2 = c1\<lparr>cl_keys := ks\<rparr>;
                   next = (\<lambda>buffer' ds. get_string_loop input_start_x max_len is_password buffer'
                             (c2\<lparr>cl_draws := cl_draws c2 @ ds @ [Refresh]\<rparr>));
                   i = int (length buffer)
               in if ch = KEY_ERR then get_string_loop input_start_x max_len is_password buffer c2
                  else if ch = 10 \<or> ch = KEY_ENTER then Done (False, buffer) c2
                  else if ch = KEY_BACKSPACE \<or> ch = 127 \<or> ch = 8
                  then if buffer \<noteq> []
                       then next (butlast buffer) [Put Y_INPUT_FIELD (input_start_x + i - 1) CHR '' '',
                                                   Move Y_INPUT_FIELD (input_start_x + i - 1)]
                       else next buffer []
                  else case isprint ch of
                      None \<Rightarrow> Undef
                    | Some False \<Rightarrow> next buffer []
                    | Some True \<Rightarrow> next (buffer @ [char_of (nat ch)])
                        [Put Y_INPUT_FIELD (input_start_x + i) (if is_password then CHR ''*'' else char_of (nat ch))])
      | _ \<Rightarrow> Undef)"
  by pat_completeness auto
termination
  by (relation "measure (\<lambda>(x, m, p, b, c). length (cl_keys c))") (auto simp: read_sigint_def Let_def split: prod.splits)

declare get_string_loop.simps [simp del]

definition custom_get_string :: "string \<Rightarrow> nat \<Rightarrow> bool \<Rightarrow> client \<Rightarrow> (bool \<times> string) outcome" where
  "custom_get_string label max_len is_password =
     (let input_start_x = X_DEFAULT_POS + int (length label) + 2 in
      seq (draw ((if is_password then [] else [Echo True]) @
             [Print Y_INPUT_FIELD X_DEFAULT_POS (label @ '': ''), Move Y_INPUT_FIELD input_start_x, Clrtoeol, Refresh]))
        (\<lambda>_. seq (get_string_loop input_start_x max_len is_password [])
        (\<lambda>(interrupted, buffer). seq (draw ((if is_password then [] else [Echo False]) @
             (if interrupted then [] else [Move Y_INPUT_FIELD (input_start_x + int (length buffer)), Clrtoeol, Refresh])))
        (\<lambda>_. give (interrupted, buffer)))))"

definition input_plain :: "string \<Rightarrow> nat \<Rightarrow> client \<Rightarrow> string outcome" where
  "input_plain label max_len = seq (custom_get_string label max_len False) (\<lambda>(_, buffer). give buffer)"

definition input_password :: "string \<Rightarrow> nat \<Rightarrow> client \<Rightarrow> string outcome" where
  "input_password label max_len = seq (custom_get_string label max_len True) (\<lambda>(_, buffer). give buffer)"

section \<open>The menu\<close>

abbreviation PW_PLAIN_SIZE :: nat where "PW_PLAIN_SIZE \<equiv> 64"
abbreviation AUTH_UI_EXIT_NORMAL :: int where "AUTH_UI_EXIT_NORMAL \<equiv> 0"
abbreviation AUTH_UI_LOGIN_SUCCESS :: int where "AUTH_UI_LOGIN_SUCCESS \<equiv> 1"
abbreviation AUTH_UI_EXIT_SIGNAL :: int where "AUTH_UI_EXIT_SIGNAL \<equiv> -2"

text \<open>\<open>crypto_init\<close>, and \<open>hash_user_password\<close> (none when it fails).\<close>

definition client_crypto_init :: "client \<Rightarrow> bool outcome" where
  "client_crypto_init c = (let (ok, i) = crypto_init (cl_crypto c) in Done ok (c\<lparr>cl_crypto := i\<rparr>))"

definition hash_user_password :: "evp \<Rightarrow> string \<Rightarrow> client \<Rightarrow> string option outcome" where
  "hash_user_password ssl plain_password =
     seq client_crypto_init (\<lambda>ok.
       if \<not> ok then seq (draw [Print Y_STATUS_MSG X_DEFAULT_POS ''Crypto system initialization failed.'']) (\<lambda>_. give None)
       else (\<lambda>c. let (ok, hashed) = hash_password_sha256 ssl (cl_crypto c) (Some plain_password) in
          (if \<not> ok then seq (draw [Print Y_STATUS_MSG X_DEFAULT_POS ''Password hashing failed.'']) (\<lambda>_. give None)
           else give (Some hashed)) c))"

text \<open>A round of the menu's loop either goes round again or returns its code and the user who is logged in.\<close>

datatype auth_next = Again | Return int string

text \<open>The return that follows when the read of \<open>sigint_received\<close> finds a signal.\<close>

definition unless_sigint :: "(client \<Rightarrow> auth_next outcome) \<Rightarrow> client \<Rightarrow> auth_next outcome" where
  "unless_sigint m = seq read_sigint (\<lambda>s. if s then give (Return AUTH_UI_EXIT_SIGNAL []) else m)"

definition status :: "string \<Rightarrow> client \<Rightarrow> unit outcome" where
  "status msg = draw [Print Y_STATUS_MSG X_DEFAULT_POS msg, Clrtoeol]"

text \<open>
  The message of a response, and the line shown after a failure. A message that is not terminated within its
  buffer would be read beyond; the response structs end with the message, so that is undefined.
\<close>

definition message_of :: "bytes \<Rightarrow> string option" where
  "message_of res = deref (ptr_at (Some res) 4)"

definition failed_line :: "string \<Rightarrow> int \<Rightarrow> bytes \<Rightarrow> string option" where
  "failed_line what ret res =
     map_option (\<lambda>m. snprintf_str (2 * MAX_MSG_LEN) (what @ m @ '' (ret: '' @ show_int ret @ '')''))
       (if ret \<noteq> 0 then Some ''Network/Comm error'' else message_of res)"

definition show_result :: "string option \<Rightarrow> client \<Rightarrow> auth_next outcome" where
  "show_result msg = (case msg of
     None \<Rightarrow> (\<lambda>_. Undef)
   | Some m \<Rightarrow> seq (status m) (\<lambda>_.
       seq (wait_for_key_or_signal (Y_STATUS_MSG + Y_MSG_OFFSET1) X_DEFAULT_POS ''Press any key to continue...'') (\<lambda>_.
         unless_sigint (give Again))))"

definition auth_login :: "string \<Rightarrow> string \<Rightarrow> client \<Rightarrow> auth_next outcome" where
  "auth_login uid pw_hashed =
     seq (request_call (\<lambda>ejunk. send_login_request ejunk uid pw_hashed)) (\<lambda>(ret, res). unless_sigint (
       if ret = 0 \<and> response_success res \<noteq> 0
       then (case message_of res of
           None \<Rightarrow> (\<lambda>_. Undef)
         | Some m \<Rightarrow> seq (status (snprintf_str (2 * MAX_MSG_LEN) (''Login Success! '' @ m))) (\<lambda>_.
             seq (wait_for_key_or_signal (Y_STATUS_MSG + Y_MSG_OFFSET1) X_DEFAULT_POS ''Press any key...'') (\<lambda>_.
               seq read_sigint (\<lambda>s. give (Return (if s then AUTH_UI_EXIT_SIGNAL else AUTH_UI_LOGIN_SUCCESS) (strncpy_str MAX_ID_LEN uid))))))
       else show_result (failed_line ''Login Failed: '' ret res)))"

definition auth_register :: "string \<Rightarrow> string \<Rightarrow> client \<Rightarrow> auth_next outcome" where
  "auth_register uid pw_hashed =
     seq (request_call (\<lambda>ejunk. send_register_request ejunk uid pw_hashed)) (\<lambda>(ret, res). unless_sigint (
       if ret = 0 \<and> response_success res \<noteq> 0
       then show_result (map_option (\<lambda>m. snprintf_str (2 * MAX_MSG_LEN) (''Register Success! '' @ m @ '' Try logging in.''))
              (message_of res))
       else show_result (failed_line ''Register Failed: '' ret res)))"

definition auth_submit :: "evp \<Rightarrow> bool \<Rightarrow> string \<Rightarrow> string \<Rightarrow> client \<Rightarrow> auth_next outcome" where
  "auth_submit ssl login uid pw_plain =
     seq (draw [Print Y_STATUS_MSG X_DEFAULT_POS ''Processing...'', Clrtoeol, Refresh]) (\<lambda>_.
     seq (hash_user_password ssl pw_plain) (\<lambda>hashed. case hashed of
         None \<Rightarrow> show_result (Some ''Password encryption failed.'')
       | Some pw_hashed \<Rightarrow> if login then auth_login uid pw_hashed else auth_register uid pw_hashed))"

definition auth_choice :: "evp \<Rightarrow> int \<Rightarrow> client \<Rightarrow> auth_next outcome" where
  "auth_choice ssl ch =
     (if ch = KEY_ERR then unless_sigint (give Again)
      else if ch = 51 then give (Return AUTH_UI_EXIT_NORMAL [])
      else if ch \<noteq> 49 \<and> ch \<noteq> 50
      then seq (status ''Invalid option. Please try again.'') (\<lambda>_.
             seq (wait_for_key_or_signal (Y_STATUS_MSG + Y_MSG_OFFSET1) X_DEFAULT_POS []) (\<lambda>_.
               unless_sigint (give Again)))
      else seq (draw [Clear, Print Y_TITLE X_DEFAULT_POS (if ch = 49 then ''=== LOGIN ==='' else ''=== REGISTER ==='')]) (\<lambda>_.
             seq (input_plain ''ID'' MAX_ID_LEN) (\<lambda>uid. unless_sigint (
               seq (input_password ''PW'' PW_PLAIN_SIZE) (\<lambda>pw_plain. unless_sigint (
                 auth_submit ssl (ch = 49) uid pw_plain))))))"

definition auth_round :: "evp \<Rightarrow> client \<Rightarrow> auth_next outcome" where
  "auth_round ssl = unless_sigint (seq (draw draw_auth_menu) (\<lambda>_. seq getch (auth_choice ssl)))"

text \<open>The loop; each round takes a key, so that one round more than there are keys is enough.\<close>

fun auth_loop :: "evp \<Rightarrow> nat \<Rightarrow> client \<Rightarrow> (int \<times> string) outcome" where
  "auth_loop ssl 0 = Key_wait"
| "auth_loop ssl (Suc n) = seq (auth_round ssl) (\<lambda>r. case r of Again \<Rightarrow> auth_loop ssl n | Return code user \<Rightarrow> give (code, user))"

definition auth_ui_main :: "evp \<Rightarrow> client \<Rightarrow> (int \<times> string) outcome" where
  "auth_ui_main ssl =
     seq client_crypto_init (\<lambda>ok.
       if \<not> ok
       then seq (status ''Failed to initialize crypto system.'') (\<lambda>_.
              seq (wait_for_key_or_signal (Y_STATUS_MSG + Y_MSG_OFFSET1) X_DEFAULT_POS ''Press any key to exit...'') (\<lambda>_.
                give (AUTH_UI_EXIT_SIGNAL, [])))
       else (\<lambda>c. auth_loop ssl (Suc (length (cl_keys c))) c))"

section \<open>What is typed\<close>

text \<open>
  What the user enters, apart from the loop that reads it: the text of a field after one more key, and the keys
  \<open>ks\<close> that turn the text \<open>b\<close> of a field of \<open>m\<close> bytes into its final text \<open>b'\<close>. They end with an \<open>Enter\<close>, or with
  the character that makes the field full, or, when a signal may come (\<open>q\<close> is that none does), anywhere.
\<close>

definition edit :: "string \<Rightarrow> int \<Rightarrow> string" where
  "edit b k = (if k = KEY_BACKSPACE \<or> k = 127 \<or> k = 8 then butlast b
     else if 32 \<le> k \<and> k \<le> 126 then b @ [char_of (nat k)] else b)"

definition entered :: "bool \<Rightarrow> nat \<Rightarrow> string \<Rightarrow> int list \<Rightarrow> string \<Rightarrow> bool" where
  "entered q m b ks b' \<longleftrightarrow> (\<exists>k e. ks = k @ e \<and> b' = foldl edit b k \<and> 10 \<notin> set k \<and> KEY_ENTER \<notin> set k \<and> length b' \<le> m - 1
     \<and> (e = [10] \<or> e = [KEY_ENTER] \<or> e = [] \<and> (q \<longrightarrow> length b' = m - 1)))"

lemma entered_enter: "k = 10 \<or> k = KEY_ENTER \<Longrightarrow> length b \<le> m - 1 \<Longrightarrow> entered q m b [k] b"
  unfolding entered_def by (intro exI [of _ "[]"] exI [of _ "[k]"]) auto

lemma entered_stop: "length b \<le> m - 1 \<Longrightarrow> (q \<Longrightarrow> length b = m - 1) \<Longrightarrow> entered q m b [] b"
  unfolding entered_def by (intro exI [of _ "[]"]) auto

lemma entered_key: "entered q m (edit b k) ks b' \<Longrightarrow> k \<noteq> 10 \<Longrightarrow> k \<noteq> KEY_ENTER \<Longrightarrow> entered q m b (k # ks) b'"
  unfolding entered_def by (elim exE) (rename_tac l e, rule_tac x = "k # l" in exI, auto)

lemma entered_signal: "entered q m b ks b' \<Longrightarrow> (p \<Longrightarrow> q) \<Longrightarrow> entered p m b ks b'"
  unfolding entered_def by blast

text \<open>The keys of one dialogue, its choice and its two fields, and the request that it asks for.\<close>

definition asks :: "evp \<Rightarrow> bool \<Rightarrow> int list \<Rightarrow> request \<Rightarrow> bool" where
  "asks ssl q ks r \<longleftrightarrow> (\<exists>ch k1 k2 uid pw h. ks = ch # k1 @ k2 \<and> entered q MAX_ID_LEN [] k1 uid \<and> entered q PW_PLAIN_SIZE [] k2 pw
     \<and> hash_password_sha256 ssl True (Some pw) = (True, h) \<and> (ch = 49 \<and> r = Login uid h \<or> ch = 50 \<and> r = Register uid h))"

lemma asks_signal: "asks ssl q ks r \<Longrightarrow> (p \<Longrightarrow> q) \<Longrightarrow> asks ssl p ks r"
  unfolding asks_def using entered_signal by blast

section \<open>What the menu sends\<close>

text \<open>No read of the flag finds a signal.\<close>

definition calm_sig :: "client \<Rightarrow> bool" where
  "calm_sig c \<longleftrightarrow> quiet (net_sig (cl_net c))"

definition asked_piece :: "evp \<Rightarrow> bool \<Rightarrow> int list \<times> bytes \<Rightarrow> bool" where
  "asked_piece ssl q d \<longleftrightarrow> snd d = [] \<or> (\<exists>r. asks ssl q (fst d) r \<and> prefix (snd d) (request_frame r))"

lemma asked_piece_signal: "asked_piece ssl q d \<Longrightarrow> (p \<Longrightarrow> q) \<Longrightarrow> asked_piece ssl p d"
  unfolding asked_piece_def using asks_signal by blast

text \<open>
  The keys taken between two states are cut into pieces, with the bytes sent for each: nothing, or a part, from its start, of the
  frame of the request that these keys ask for.
\<close>

definition sends_asked :: "evp \<Rightarrow> client \<Rightarrow> client \<Rightarrow> bool" where
  "sends_asked ssl c c' \<longleftrightarrow> (calm_sig c \<longrightarrow> calm_sig c')
     \<and> (\<exists>ds. cl_keys c = concat (map fst ds) @ cl_keys c' \<and> net_out (cl_net c') = net_out (cl_net c) @ concat (map snd ds)
          \<and> (\<forall>d \<in> set ds. asked_piece ssl (calm_sig c) d))"

interpretation sends: act_relation "sends_asked ssl" for ssl
proof
  show "sends_asked ssl c c'" if "ui_move c c'" for c c'
  proof -
    note move = that
    obtain ks where "cl_keys c = ks @ cl_keys c'" using move by (auto simp: ui_move_def suffix_def)
    then show ?thesis using move unfolding ui_move_def sends_asked_def calm_sig_def
      by (intro conjI exI [of _ "[(ks, [])]"]) (auto simp: asked_piece_def)
  qed
  show "sends_asked ssl c c''" if "sends_asked ssl c c'" "sends_asked ssl c' c''" for c c' c''
  proof -
    note moves = that
    obtain ds where ds: "cl_keys c = concat (map fst ds) @ cl_keys c'" "net_out (cl_net c') = net_out (cl_net c) @ concat (map snd ds)"
        "\<forall>d \<in> set ds. asked_piece ssl (calm_sig c) d"
      using moves(1) unfolding sends_asked_def by blast
    obtain es where es: "cl_keys c' = concat (map fst es) @ cl_keys c''" "net_out (cl_net c'') = net_out (cl_net c') @ concat (map snd es)"
        "\<forall>d \<in> set es. asked_piece ssl (calm_sig c') d"
      using moves(2) unfolding sends_asked_def by blast
    have calm: "calm_sig c \<longrightarrow> calm_sig c'" "calm_sig c' \<longrightarrow> calm_sig c''" using moves unfolding sends_asked_def by blast+
    have "\<forall>d \<in> set es. asked_piece ssl (calm_sig c) d"
      using es(3) asked_piece_signal calm(1) by blast
    then show ?thesis using ds es calm unfolding sends_asked_def by (intro conjI exI [of _ "ds @ es"]) auto
  qed
qed

text \<open>A request: the bytes sent.\<close>

lemma request_sends:
  assumes "request_call f c = Done a c'" "\<And>ejunk resp n. f ejunk resp n = client_request ejunk r resp n"
  shows "cl_keys c' = cl_keys c \<and> (calm_sig c \<longrightarrow> calm_sig c')
    \<and> (\<exists>out. net_out (cl_net c') = net_out (cl_net c) @ out \<and> prefix out (request_frame r))"
proof -
  define ejunk where "ejunk = (case cl_stack c of [] \<Rightarrow> [] | b # _ \<Rightarrow> b)"
  define resp where "resp = (case tl (cl_stack c) of [] \<Rightarrow> [] | b # _ \<Rightarrow> b)"
  obtain code res n where call: "client_request ejunk r resp (cl_net c) = Returns code res n"
      and n: "cl_net c' = n" "cl_keys c' = cl_keys c"
    using assms(1) by (cases "client_request ejunk r resp (cl_net c)")
      (auto simp: request_call_def assms(2) Let_def ejunk_def [symmetric] resp_def [symmetric])
  obtain out where "net_out n = net_out (cl_net c) @ out" "prefix out (request_frame r)"
    using call by (cases "reply_shape (msg_code (request_type r))")
      (auto simp: client_request_eq request_frame_def dest!: exchange_sends_prefix)
  then show ?thesis using n client_request_sig [OF call] by (auto simp: calm_sig_def)
qed

lemma ui_move_draws [simp]: "ui_move (c\<lparr>cl_draws := ds\<rparr>) c' = ui_move c c'"
  by (simp add: ui_move_def)

text \<open>The loop of a field: what it takes from the keys is what the field says.\<close>

lemma get_string_moves:
  "get_string_loop x m p b c = Done u c' \<Longrightarrow> ui_move c c'
     \<and> (length b \<le> m - 1 \<longrightarrow> (\<exists>k. cl_keys c = k @ cl_keys c' \<and> entered (calm_sig c) m b k (snd u)))"
proof (induction "length (cl_keys c)" arbitrary: b c rule: less_induct)
  case less
  obtain g c1 where g: "read_sigint c = Done g c1"
    by (cases "sigint_received (cl_net c)") (auto simp: read_sigint_def)
  have m: "ui_move c c1" using keeps_read_sigint g by (auto simp: keeps_def)
  have k1: "cl_keys c1 = cl_keys c" and sg: "calm_sig c \<Longrightarrow> \<not> g \<and> calm_sig c1"
    using g sigint_received_quiet [of "cl_net c"] by (auto simp: read_sigint_def calm_sig_def split: prod.splits)
  show ?case
  proof (cases "\<not> length b < m - 1 \<or> g \<or> cl_keys c1 = []")
    case True
    then have out: "snd u = b" "c' = c \<or> c' = c1" "length b < m - 1 \<longrightarrow> g"
      using less.prems g by (cases g; auto simp: get_string_loop.simps [of x m p b c] split: if_splits)+
    have "cl_keys c = [] @ cl_keys c'" "ui_move c c'" using out(2) m k1 by (auto simp: ui_move_def)
    moreover have "length b \<le> m - 1 \<Longrightarrow> entered (calm_sig c) m b [] (snd u)"
      unfolding out(1) by (rule entered_stop) (use out(3) sg in auto)
    ultimately show ?thesis by blast
  next
    case False
    then obtain ch ks where ks: "cl_keys c1 = ch # ks" by (cases "cl_keys c1") auto
    have len: "length b < m - 1" and "\<not> g" using False by auto
    let ?c2 = "c1\<lparr>cl_keys := ks\<rparr>"
    have m2: "ui_move c ?c2" using m ks by (auto simp: ui_move_def suffix_Cons dest: suffix_ConsD)
    show ?thesis
    proof (cases "ch = 10 \<or> ch = KEY_ENTER")
      case True
      then have out: "snd u = b" "c' = ?c2"
        using less.prems g ks len \<open>\<not> g\<close> by (auto simp: get_string_loop.simps [of x m p b c] Let_def split: if_splits)
      have "cl_keys c = [ch] @ cl_keys c'" using k1 ks out(2) by simp
      moreover have "entered (calm_sig c) m b [ch] (snd u)" unfolding out(1) using True len by (intro entered_enter) auto
      ultimately show ?thesis using m2 out(2) by blast
    next
      case no_enter: False
      have "\<exists>ds. get_string_loop x m p (edit b ch) (?c2\<lparr>cl_draws := ds\<rparr>) = Done u c'"
      proof -
        have id: "?c2\<lparr>cl_draws := cl_draws c1\<rparr> = ?c2" by simp
        consider "ch = KEY_ERR" | "ch \<noteq> KEY_ERR" "ch = KEY_BACKSPACE \<or> ch = 127 \<or> ch = 8"
          | "ch \<noteq> KEY_ERR" "\<not> (ch = KEY_BACKSPACE \<or> ch = 127 \<or> ch = 8)" by blast
        then show ?thesis
        proof cases
          case 1
          then have "get_string_loop x m p (edit b ch) (?c2\<lparr>cl_draws := cl_draws c1\<rparr>) = Done u c'"
            using less.prems g ks len \<open>\<not> g\<close> unfolding id by (simp add: get_string_loop.simps [of x m p b c] edit_def)
          then show ?thesis ..
        next
          case 2
          then show ?thesis using less.prems g ks len \<open>\<not> g\<close> no_enter
            by (cases "b = []") (auto simp: get_string_loop.simps [of x m p b c] get_string_loop.simps [of x m p "[]" c] Let_def edit_def)
        next
          case 3
          then show ?thesis using less.prems g ks len \<open>\<not> g\<close> no_enter
            by (cases "isprint ch = None"; cases "isprint ch = Some True")
              (auto simp: get_string_loop.simps [of x m p b c] Let_def edit_def isprint_def split: if_splits)
        qed
      qed
      then obtain ds where loop: "get_string_loop x m p (edit b ch) (?c2\<lparr>cl_draws := ds\<rparr>) = Done u c'" ..
      have fits: "length (edit b ch) \<le> m - 1" using len by (auto simp: edit_def)
      have shorter: "length (cl_keys (?c2\<lparr>cl_draws := ds\<rparr>)) < length (cl_keys c)"
        unfolding k1 [symmetric] ks by simp
      from less.hyps [OF shorter loop] fits obtain k where k: "ui_move (?c2\<lparr>cl_draws := ds\<rparr>) c'" "ks = k @ cl_keys c'"
          "entered (calm_sig (?c2\<lparr>cl_draws := ds\<rparr>)) m (edit b ch) k (snd u)"
        by auto
      have "entered (calm_sig c) m (edit b ch) k (snd u)"
        by (rule entered_signal [OF k(3)]) (use sg in \<open>simp add: calm_sig_def\<close>)
      then have "entered (calm_sig c) m b (ch # k) (snd u)" using entered_key no_enter by blast
      moreover have "cl_keys c = (ch # k) @ cl_keys c'" using k(2) k1 ks by simp
      moreover have "ui_move c c'" using m2 k(1) ui.rel_trans [of c ?c2 c'] by simp
      ultimately show ?thesis by blast
    qed
  qed
qed

lemma keeps_get_string [ui_acts]: "keeps ui_move (get_string_loop x m p b)"
  using get_string_moves by (auto simp: keeps_def)

lemma custom_get_string_entered:
  assumes "custom_get_string label m p c = Done u c'"
  shows "ui_move c c' \<and> (\<exists>k. cl_keys c = k @ cl_keys c' \<and> entered (calm_sig c) m [] k (snd u))"
proof -
  let ?x = "X_DEFAULT_POS + int (length label) + 2"
  obtain ds v c1 ds' where g: "get_string_loop ?x m p [] (c\<lparr>cl_draws := ds\<rparr>) = Done v c1"
    and rest: "give v (c1\<lparr>cl_draws := ds'\<rparr>) = Done u c'"
    using assms unfolding custom_get_string_def Let_def act_simps(2) by (auto elim!: seq_DoneE simp: split_beta)
  have u: "u = v" "cl_keys c' = cl_keys c1" "ui_move c1 c'" using rest by (auto simp: give_def ui_move_def)
  have calm: "calm_sig (c\<lparr>cl_draws := ds\<rparr>) = calm_sig c" by (simp add: calm_sig_def)
  note got = get_string_moves [OF g, unfolded calm]
  have "ui_move c c1" using got by simp
  then have "ui_move c c'" using u(3) ui.rel_trans by blast
  then show ?thesis using got by (simp add: u)
qed

lemma input_entered:
  assumes "input_plain label m c = Done b c' \<or> input_password label m c = Done b c'"
  shows "ui_move c c' \<and> (\<exists>k. cl_keys c = k @ cl_keys c' \<and> entered (calm_sig c) m [] k b)"
proof -
  obtain p u c1 where u: "custom_get_string label m p c = Done u c1" "b = snd u" "c' = c1"
    using assms by (auto simp: input_plain_def input_password_def give_def elim!: seq_DoneE split: prod.splits)
  show ?thesis using custom_get_string_entered [OF u(1)] u(2,3) by simp
qed

lemma keeps_crypto_init [ui_acts]: "keeps ui_move client_crypto_init"
  by (auto simp: keeps_def client_crypto_init_def ui_move_def split: prod.splits)

lemma keeps_unless_sigint [ui_acts]: "keeps ui_move m \<Longrightarrow> keeps ui_move (unless_sigint m)"
  unfolding unless_sigint_def by (intro ui.keeps_seq ui.keeps_if ui_acts)

lemma keeps_show_result [ui_acts]: "keeps ui_move (show_result msg)"
  unfolding show_result_def status_def
  by (intro ui.keeps_option ui.keeps_Undef ui.keeps_seq ui_acts)

lemmas ui_rules = ui.keeps_seq ui.keeps_if ui.keeps_option ui.keeps_pair ui.keeps_Undef ui_acts

text \<open>The hash that \<open>hash_user_password\<close> gives comes from the password.\<close>

lemma hash_user_password_Done:
  assumes "hash_user_password ssl pw c = Done r c'"
  shows "ui_move c c' \<and> (\<forall>h. r = Some h \<longrightarrow> hash_password_sha256 ssl True (Some pw) = (True, h))"
  using assms
  by (auto simp: hash_user_password_def seq_def client_crypto_init_def crypto_init_def ui_move_def give_def draw_def
      split: if_splits prod.splits)

text \<open>What the submission of a dialogue sends: nothing, or a part of the request with the hash of this password.\<close>

definition sends_request :: "(request \<Rightarrow> bool) \<Rightarrow> client \<Rightarrow> client \<Rightarrow> bool" where
  "sends_request Q c c' \<longleftrightarrow> suffix (cl_keys c') (cl_keys c) \<and> (calm_sig c \<longrightarrow> calm_sig c')
     \<and> (\<exists>out. net_out (cl_net c') = net_out (cl_net c) @ out \<and> (out = [] \<or> (\<exists>r. Q r \<and> prefix out (request_frame r))))"

lemma ui_then_sends: "ui_move c c1 \<Longrightarrow> sends_request Q c1 c' \<Longrightarrow> sends_request Q c c'"
  unfolding sends_request_def ui_move_def calm_sig_def by (auto intro: suffix_order.trans)

lemma sends_then_ui: "sends_request Q c c1 \<Longrightarrow> ui_move c1 c' \<Longrightarrow> sends_request Q c c'"
  unfolding sends_request_def ui_move_def calm_sig_def by (auto intro: suffix_order.trans)

lemma ui_sends: "ui_move c c' \<Longrightarrow> sends_request Q c c'"
  unfolding sends_request_def ui_move_def calm_sig_def by auto

lemma request_then_ui:
  assumes "seq (request_call f) m c = Done a c'" "\<And>ejunk resp n. f ejunk resp n = client_request ejunk r resp n"
    and "\<And>x. keeps ui_move (m x)" "Q r"
  shows "sends_request Q c c'"
proof -
  obtain x c1 where x: "request_call f c = Done x c1" "m x c1 = Done a c'" by (rule seq_DoneE [OF assms(1)])
  have "sends_request Q c c1" using request_sends [OF x(1) assms(2)] assms(4) unfolding sends_request_def by auto
  moreover have "ui_move c1 c'" using assms(3) x(2) by (auto simp: keeps_def)
  ultimately show ?thesis by (rule sends_then_ui)
qed

lemma auth_submit_sends:
  assumes "auth_submit ssl login uid pw c = Done r c'"
  shows "sends_request (\<lambda>q. \<exists>h. hash_password_sha256 ssl True (Some pw) = (True, h)
    \<and> q = (if login then Login uid h else Register uid h)) c c'" (is "sends_request ?Q c c'")
proof -
  obtain ds hashed c1 where h: "hash_user_password ssl pw (c\<lparr>cl_draws := ds\<rparr>) = Done hashed c1"
      and run: "(case hashed of None \<Rightarrow> show_result (Some ''Password encryption failed.'')
       | Some x \<Rightarrow> if login then auth_login uid x else auth_register uid x) c1 = Done r c'"
    using assms unfolding auth_submit_def act_simps(2) by (auto elim!: seq_DoneE)
  note hash = hash_user_password_Done [OF h]
  have "sends_request ?Q c1 c'"
  proof (cases hashed)
    case None
    then have "ui_move c1 c'" using run keeps_show_result by (auto simp: keeps_def)
    then show ?thesis by (rule ui_sends)
  next
    case (Some x)
    then have x: "hash_password_sha256 ssl True (Some pw) = (True, x)" using hash by blast
    show ?thesis
    proof (cases login)
      case True
      then have "auth_login uid x c1 = Done r c'" using run Some by simp
      then show ?thesis unfolding auth_login_def status_def
        by (rule request_then_ui [where r = "Login uid x"]) (use x True in \<open>auto intro!: ui_rules\<close>)
    next
      case False
      then have "auth_register uid x c1 = Done r c'" using run Some by simp
      then show ?thesis unfolding auth_register_def status_def
        by (rule request_then_ui [where r = "Register uid x"]) (use x False in \<open>auto intro!: ui_rules\<close>)
    qed
  qed
  moreover have "ui_move c c1" using hash by simp
  ultimately show ?thesis by (rule ui_then_sends [rotated])
qed

text \<open>A dialogue, from the key of its choice on.\<close>

lemma auth_choice_sends:
  assumes "auth_choice ssl ch c = Done r c'" "cl_keys c0 = ch # cl_keys c" "cl_net c0 = cl_net c"
  shows "sends_asked ssl c0 c'"
proof (cases "ch = 49 \<or> ch = 50")
  case False
  have "keeps ui_move (auth_choice ssl ch)"
    using False unfolding auth_choice_def status_def by (auto intro!: ui_rules)
  then have m: "ui_move c c'" using assms(1) by (auto simp: keeps_def)
  then obtain ks where "cl_keys c = ks @ cl_keys c'" by (auto simp: ui_move_def suffix_def)
  then show ?thesis using m assms(2,3) unfolding ui_move_def sends_asked_def calm_sig_def
    by (intro conjI exI [of _ "[(ch # ks, [])]"]) (auto simp: asked_piece_def)
next
  case True
  have early: "sends_asked ssl c0 d" if "ui_move c d" for d
  proof -
    note move = that
    obtain ks where "cl_keys c = ks @ cl_keys d" using move by (auto simp: ui_move_def suffix_def)
    then show ?thesis using move assms(2,3) unfolding ui_move_def sends_asked_def calm_sig_def
      by (intro conjI exI [of _ "[(ch # ks, [])]"]) (auto simp: asked_piece_def)
  qed
  have "\<not> ch = KEY_ERR" "\<not> ch = 51" "\<not> (ch \<noteq> 49 \<and> ch \<noteq> 50)" using True by auto
  then obtain ds uid c1 where i1: "input_plain ''ID'' MAX_ID_LEN (c\<lparr>cl_draws := ds\<rparr>) = Done uid c1"
      and r1: "unless_sigint (seq (input_password ''PW'' PW_PLAIN_SIZE) (\<lambda>pw_plain. unless_sigint (auth_submit ssl (ch = 49) uid pw_plain))) c1
        = Done r c'"
    using assms(1) unfolding auth_choice_def by (simp only: if_False act_simps(2)) (auto elim!: seq_DoneE)
  have calm: "calm_sig (c\<lparr>cl_draws := ds\<rparr>) = calm_sig c" by (simp add: calm_sig_def)
  obtain k1 where k1: "ui_move c c1" "cl_keys c = k1 @ cl_keys c1" "entered (calm_sig c) MAX_ID_LEN [] k1 uid"
    using input_entered [OF disjI1, OF i1] by (auto simp: calm)
  obtain s1 c2 where g1: "read_sigint c1 = Done s1 c2"
    and r2: "(if s1 then give (Return AUTH_UI_EXIT_SIGNAL []) else seq (input_password ''PW'' PW_PLAIN_SIZE)
       (\<lambda>pw_plain. unless_sigint (auth_submit ssl (ch = 49) uid pw_plain))) c2 = Done r c'"
    using r1 unfolding unless_sigint_def by (rule seq_DoneE)
  have m2: "ui_move c1 c2" "cl_keys c2 = cl_keys c1"
    using keeps_read_sigint g1 by (auto simp: keeps_def read_sigint_def split: prod.splits)
  have u2: "ui_move c c2" using k1(1) m2(1) ui.rel_trans by blast
  show ?thesis
  proof (cases s1)
    case True
    then show ?thesis using r2 early [OF u2] by (simp add: give_def)
  next
    case False
    then obtain pw c3 where i2: "input_password ''PW'' PW_PLAIN_SIZE c2 = Done pw c3"
        and r3: "unless_sigint (auth_submit ssl (ch = 49) uid pw) c3 = Done r c'"
      using r2 by (auto elim!: seq_DoneE)
    obtain k2 where k2: "ui_move c2 c3" "cl_keys c2 = k2 @ cl_keys c3" "entered (calm_sig c2) PW_PLAIN_SIZE [] k2 pw"
      using input_entered [OF disjI2, OF i2] by auto
    obtain s2 c4 where g2: "read_sigint c3 = Done s2 c4"
      and r4: "(if s2 then give (Return AUTH_UI_EXIT_SIGNAL []) else auth_submit ssl (ch = 49) uid pw) c4 = Done r c'"
      using r3 unfolding unless_sigint_def by (rule seq_DoneE)
    have m4: "ui_move c3 c4" "cl_keys c4 = cl_keys c3"
      using keeps_read_sigint g2 by (auto simp: keeps_def read_sigint_def split: prod.splits)
    have u4: "ui_move c c4" using u2 k2(1) m4(1) ui.rel_trans by blast
    show ?thesis
    proof (cases s2)
      case True
      then show ?thesis using r4 early [OF u4] by (simp add: give_def)
    next
      case False
      then have "auth_submit ssl (ch = 49) uid pw c4 = Done r c'" using r4 by simp
      from auth_submit_sends [OF this] obtain ks out where
          ks: "cl_keys c4 = ks @ cl_keys c'" and out: "net_out (cl_net c') = net_out (cl_net c4) @ out"
          "out = [] \<or> (\<exists>h. hash_password_sha256 ssl True (Some pw) = (True, h)
             \<and> prefix out (request_frame (if ch = 49 then Login uid h else Register uid h)))"
          and sg: "calm_sig c4 \<longrightarrow> calm_sig c'"
        unfolding sends_request_def suffix_def by auto
      have calm2: "calm_sig c \<longrightarrow> calm_sig c2" "calm_sig c \<longrightarrow> calm_sig c4"
        using u2 u4 by (simp_all add: ui_move_def calm_sig_def)
      have piece: "asked_piece ssl (calm_sig c) (ch # k1 @ k2, out)"
        using out(2)
      proof
        assume "\<exists>h. hash_password_sha256 ssl True (Some pw) = (True, h)
             \<and> prefix out (request_frame (if ch = 49 then Login uid h else Register uid h))"
        then obtain h where h: "hash_password_sha256 ssl True (Some pw) = (True, h)"
            "prefix out (request_frame (if ch = 49 then Login uid h else Register uid h))" by blast
        have "entered (calm_sig c) PW_PLAIN_SIZE [] k2 pw" using entered_signal [OF k2(3)] calm2(1) by blast
        then have "asks ssl (calm_sig c) (ch # k1 @ k2) (if ch = 49 then Login uid h else Register uid h)"
          unfolding asks_def using k1(3) h(1) \<open>ch = 49 \<or> ch = 50\<close>
          by (intro exI [of _ ch] exI [of _ k1] exI [of _ k2] exI [of _ uid] exI [of _ pw] exI [of _ h]) auto
        then show ?thesis unfolding asked_piece_def using h(2) by auto
      qed (simp add: asked_piece_def)
      have "cl_keys c0 = (ch # k1 @ k2) @ ks @ cl_keys c'"
        using assms(2) k1(2) k2(2) m2(2) m4(2) ks by simp
      moreover have "net_out (cl_net c') = net_out (cl_net c0) @ out"
        using out(1) u4 assms(3) by (simp add: ui_move_def)
      moreover have "calm_sig c0 = calm_sig c" using assms(3) by (simp add: calm_sig_def)
      ultimately show ?thesis unfolding sends_asked_def using piece sg calm2(2)
        by (intro conjI exI [of _ "[(ch # k1 @ k2, out), (ks, [])]"]) (auto simp: asked_piece_def)
    qed
  qed
qed

text \<open>No part of the menu puts keys back.\<close>

definition takes_keys :: "client \<Rightarrow> client \<Rightarrow> bool" where
  "takes_keys c c' \<longleftrightarrow> suffix (cl_keys c') (cl_keys c)"

interpretation taking: act_relation takes_keys
  by unfold_locales (auto simp: takes_keys_def ui_move_def intro: suffix_order.trans)

lemma taking_request: "keeps takes_keys (request_call f)"
  by (auto simp: keeps_def takes_keys_def request_call_def Let_def split: call.splits)

lemma taking_input: "keeps takes_keys (input_plain label n)" "keeps takes_keys (input_password label n)"
  using input_entered unfolding keeps_def takes_keys_def ui_move_def by blast+

lemma taking_unless_sigint: "keeps takes_keys m \<Longrightarrow> keeps takes_keys (unless_sigint m)"
  unfolding unless_sigint_def by (intro taking.keeps_seq taking.keeps_if) (auto intro: taking.keeps_ui ui_acts)

lemma taking_submit: "keeps takes_keys (auth_submit ssl login uid pw)"
  using auth_submit_sends by (fastforce simp: keeps_def takes_keys_def sends_request_def)

lemma auth_choice_keys: "auth_choice ssl ch c = Done r c' \<Longrightarrow> suffix (cl_keys c') (cl_keys c)"
proof -
  have "keeps takes_keys (auth_choice ssl ch)"
    unfolding auth_choice_def status_def
    by (intro taking.keeps_seq taking.keeps_if taking_unless_sigint taking_input taking_submit; rule taking.keeps_ui, rule ui_acts)
  then show "auth_choice ssl ch c = Done r c' \<Longrightarrow> suffix (cl_keys c') (cl_keys c)" by (auto simp: keeps_def takes_keys_def)
qed

lemma auth_round_sends: "keeps (sends_asked ssl) (auth_round ssl)"
proof -
  have "sends_asked ssl c c'" if "auth_round ssl c = Done r c'" for c r c'
  proof -
    note run = that
    obtain g c1 where g: "read_sigint c = Done g c1"
      and rest: "(if g then give (Return AUTH_UI_EXIT_SIGNAL []) else seq (draw draw_auth_menu) (\<lambda>_. seq getch (auth_choice ssl))) c1 = Done r c'"
      using run unfolding auth_round_def unless_sigint_def by (rule seq_DoneE)
    have m: "ui_move c c1" using keeps_read_sigint g by (auto simp: keeps_def)
    show ?thesis
    proof (cases g)
      case True
      then show ?thesis using rest m sends.of_ui by (auto simp: give_def)
    next
      case False
      let ?c1 = "c1\<lparr>cl_draws := cl_draws c1 @ draw_auth_menu\<rparr>"
      obtain ch c2 where ch: "getch ?c1 = Done ch c2" "auth_choice ssl ch c2 = Done r c'"
        using rest False by (auto elim!: seq_DoneE)
      have "cl_keys ?c1 = ch # cl_keys c2" "cl_net ?c1 = cl_net c2" using ch(1) by (auto simp: getch_def split: list.splits)
      from auth_choice_sends [OF ch(2) this] have "sends_asked ssl ?c1 c'" .
      moreover have "ui_move c ?c1" using m by (simp add: ui_move_def)
      ultimately show ?thesis using sends.of_ui sends.rel_trans by blast
    qed
  qed
  then show ?thesis by (simp add: keeps_def)
qed

lemma auth_loop_sends: "keeps (sends_asked ssl) (auth_loop ssl n)"
proof (induction n)
  case (Suc n)
  have "keeps (sends_asked ssl) (case r of Again \<Rightarrow> auth_loop ssl n | Return code user \<Rightarrow> give (code, user))" for r
    using Suc by (cases r) (auto intro: sends.keeps_ui ui_acts)
  then show ?case by (simp add: sends.keeps_seq auth_round_sends)
qed (simp add: keeps_def)

text \<open>A round that goes round again has taken a key, so that more rounds than there are keys change nothing.\<close>

lemma auth_round_takes_key:
  assumes "auth_round ssl c = Done r c'" "\<And>u. r \<noteq> Return AUTH_UI_EXIT_SIGNAL u"
  shows "length (cl_keys c') < length (cl_keys c)"
proof -
  obtain g c1 where g: "read_sigint c = Done g c1"
    by (cases "sigint_received (cl_net c)") (auto simp: read_sigint_def)
  have k1: "length (cl_keys c1) \<le> length (cl_keys c)" using keeps_read_sigint g ui_move_keys by (auto simp: keeps_def)
  have "\<not> g" using assms(1) assms(2) [of "[]"] g by (auto simp: auth_round_def unless_sigint_def seq_def [of read_sigint] g give_def)
  then obtain ch c2 where ch: "getch (c1\<lparr>cl_draws := cl_draws c1 @ draw_auth_menu\<rparr>) = Done ch c2" "auth_choice ssl ch c2 = Done r c'"
    using assms(1) g by (auto simp: auth_round_def unless_sigint_def seq_def [of read_sigint] g elim!: seq_DoneE)
  then have "length (cl_keys c2) < length (cl_keys c1)" by (auto simp: getch_def split: list.splits)
  moreover have "length (cl_keys c') \<le> length (cl_keys c2)"
    using auth_choice_keys [OF ch(2)] by (rule suffix_length_le)
  ultimately show ?thesis using k1 by simp
qed

lemma auth_loop_enough:
  "length (cl_keys c) < n \<Longrightarrow> n \<le> m \<Longrightarrow> auth_loop ssl m c = auth_loop ssl n c"
proof (induction n arbitrary: m c)
  case (Suc n)
  then obtain m' where m: "m = Suc m'" "n \<le> m'" by (cases m) auto
  show ?case
  proof (cases "auth_round ssl c")
    case (Done r c')
    then show ?thesis using Suc.IH [of c' m'] Suc.prems auth_round_takes_key [of ssl c r c'] m
      by (cases r) (simp_all add: seq_Done)
  qed (simp_all add: m seq_def)
qed simp

lemma auth_loop_takes_key:
  "auth_loop ssl n c = Done (code, user) c' \<Longrightarrow> code \<noteq> AUTH_UI_EXIT_SIGNAL \<Longrightarrow> length (cl_keys c') < length (cl_keys c)"
proof (induction n arbitrary: c)
  case (Suc n)
  obtain r c1 where r: "auth_round ssl c = Done r c1"
    and run: "(case r of Again \<Rightarrow> auth_loop ssl n | Return code user \<Rightarrow> give (code, user)) c1 = Done (code, user) c'"
    using Suc.prems(1) by (auto elim: seq_DoneE)
  have "length (cl_keys c1) < length (cl_keys c)"
    by (rule auth_round_takes_key [OF r]) (use run Suc.prems(2) in \<open>auto simp: give_def\<close>)
  then show ?case using run Suc.IH [of c1] Suc.prems(2) by (cases r) (auto simp: give_def)
qed simp

lemma auth_ui_main_takes_key:
  assumes "auth_ui_main ssl c = Done (code, user) c'" "code \<noteq> AUTH_UI_EXIT_SIGNAL"
  shows "length (cl_keys c') < length (cl_keys c)"
proof -
  obtain c1 where i: "client_crypto_init c = Done True c1" and k: "cl_keys c1 = cl_keys c"
    by (auto simp: client_crypto_init_def crypto_init_def)
  have "auth_loop ssl (Suc (length (cl_keys c1))) c1 = Done (code, user) c'"
    using assms(1) by (simp add: auth_ui_main_def seq_def [of client_crypto_init] i del: auth_loop.simps)
  from auth_loop_takes_key [OF this assms(2)] show ?thesis by (simp add: k)
qed

text \<open>
  Claim C18. The menu before the login sends what was typed, and a password only as its hash. Whatever is typed, whatever the
  server answers and whenever a signal comes, when \<open>auth_ui_main\<close> returns, the keys it has taken fall into pieces,
  and what it has sent is, piece after piece, nothing or, from its start, a part of one frame: for the key \<open>1\<close> and the keys of two fields the login
  request, for the key \<open>2\<close> and those of two fields the registration request, each with the text of the first field as
  its name and the hash of the text of the second as its password.
\<close>

theorem only_hashes_are_sent:
  assumes "auth_ui_main ssl c = Done r c'"
  shows "\<exists>ds. cl_keys c = concat (map fst ds) @ cl_keys c' \<and> net_out (cl_net c') = net_out (cl_net c) @ concat (map snd ds)
    \<and> (\<forall>(ks, p) \<in> set ds. p = [] \<or> (\<exists>ch k1 k2 uid pw h. ks = ch # k1 @ k2
         \<and> entered (quiet (net_sig (cl_net c))) MAX_ID_LEN [] k1 uid \<and> entered (quiet (net_sig (cl_net c))) PW_PLAIN_SIZE [] k2 pw
         \<and> hash_password_sha256 ssl True (Some pw) = (True, h)
         \<and> (ch = 49 \<and> prefix p (request_frame (Login uid h)) \<or> ch = 50 \<and> prefix p (request_frame (Register uid h)))))"
proof -
  obtain ok c1 where i: "client_crypto_init c = Done ok c1" and ok: "ok" and m: "ui_move c c1"
    by (auto simp: client_crypto_init_def crypto_init_def ui_move_def)
  have "auth_loop ssl (Suc (length (cl_keys c1))) c1 = Done r c'"
    using assms ok by (simp add: auth_ui_main_def seq_def [of client_crypto_init] i)
  then have "sends_asked ssl c1 c'" using auth_loop_sends [of ssl "Suc (length (cl_keys c1))"]
    unfolding keeps_def by blast
  with m have "sends_asked ssl c c'" using sends.of_ui sends.rel_trans by blast
  then obtain ds where ds: "cl_keys c = concat (map fst ds) @ cl_keys c'" "net_out (cl_net c') = net_out (cl_net c) @ concat (map snd ds)"
      "\<forall>d \<in> set ds. asked_piece ssl (quiet (net_sig (cl_net c))) d"
    unfolding sends_asked_def calm_sig_def by blast
  from ds(3) show ?thesis using ds(1,2) unfolding asked_piece_def asks_def
    by (intro exI [of _ ds] conjI) (auto 0 4)
qed

section \<open>Typing\<close>

definition printable :: "char \<Rightarrow> bool" where
  "printable ch \<longleftrightarrow> 32 \<le> (of_char ch :: nat) \<and> (of_char ch :: nat) \<le> 126"

definition keys_of :: "string \<Rightarrow> int list" where
  "keys_of tx = map (\<lambda>ch. int (of_char ch)) tx"

lemma read_sigint_none: "net_sig (cl_net c) = [] \<Longrightarrow> read_sigint c = Done False c"
  by (simp add: read_sigint_def sigint_received_def)

lemma get_string_char:
  assumes "net_sig (cl_net c) = []" "printable ch" "length b < m - 1" "cl_keys c = int (of_char ch) # ks"
  shows "\<exists>ds. get_string_loop x m p b c = get_string_loop x m p (b @ [ch]) (c\<lparr>cl_keys := ks, cl_draws := cl_draws c @ ds\<rparr>)"
proof -
  define k where "k = (of_char ch :: nat)"
  have k: "32 \<le> k" "k \<le> 126" "char_of k = ch" using assms(2) by (auto simp: printable_def k_def)
  have "get_string_loop x m p b c = get_string_loop x m p (b @ [ch])
      (c\<lparr>cl_keys := ks, cl_draws := cl_draws c @ [Put Y_INPUT_FIELD (x + int (length b)) (if p then CHR ''*'' else ch)] @ [Refresh]\<rparr>)"
    using assms(3,4) k unfolding k_def [symmetric]
    by (simp add: get_string_loop.simps [of x m p b c] read_sigint_none [OF assms(1)] isprint_def k_def [symmetric])
  then show ?thesis by blast
qed

text \<open>A text that fits, and what follows when the field is full.\<close>

lemma get_string_typed:
  assumes "net_sig (cl_net c) = []" "\<forall>ch \<in> set tx. printable ch" "length b + length tx \<le> m - 1" "cl_keys c = keys_of tx @ ks"
  shows "\<exists>ds. get_string_loop x m p b c = get_string_loop x m p (b @ tx) (c\<lparr>cl_keys := ks, cl_draws := cl_draws c @ ds\<rparr>)"
  using assms
proof (induction tx arbitrary: b c)
  case Nil
  have "c\<lparr>cl_keys := ks, cl_draws := cl_draws c @ []\<rparr> = c" using Nil.prems(4) by (cases c) (simp add: keys_of_def)
  then show ?case by (intro exI [of _ "[]"]) simp
next
  case (Cons ch tx)
  obtain ds where ds: "get_string_loop x m p b c
      = get_string_loop x m p (b @ [ch]) (c\<lparr>cl_keys := keys_of tx @ ks, cl_draws := cl_draws c @ ds\<rparr>)"
    using get_string_char [of c ch b m "keys_of tx @ ks" x p] Cons.prems by (auto simp: keys_of_def)
  let ?c = "c\<lparr>cl_keys := keys_of tx @ ks, cl_draws := cl_draws c @ ds\<rparr>"
  obtain ds' where "get_string_loop x m p (b @ [ch]) ?c
      = get_string_loop x m p ((b @ [ch]) @ tx) (?c\<lparr>cl_keys := ks, cl_draws := cl_draws ?c @ ds'\<rparr>)"
    using Cons.IH [of ?c "b @ [ch]"] Cons.prems by auto
  then show ?case using ds by (intro exI [of _ "ds @ ds'"]) simp
qed

lemma get_string_enter:
  "net_sig (cl_net c) = [] \<Longrightarrow> length b < m - 1 \<Longrightarrow> cl_keys c = 10 # ks \<Longrightarrow>
   get_string_loop x m p b c = Done (False, b) (c\<lparr>cl_keys := ks\<rparr>)"
  by (simp add: get_string_loop.simps [of x m p b c] read_sigint_none)

lemma get_string_full: "m - 1 \<le> length b \<Longrightarrow> get_string_loop x m p b c = Done (False, b) c"
  by (simp add: get_string_loop.simps [of x m p b c])

text \<open>A field as a whole: the first \<open>m - 1\<close> characters are taken; the \<open>Enter\<close> only when the field is not full.\<close>

lemma custom_get_string_typed:
  assumes "net_sig (cl_net c) = []" "\<forall>ch \<in> set tx. printable ch" "cl_keys c = keys_of tx @ 10 # ks"
  shows "\<exists>ds. custom_get_string label m p c =
    (if length tx < m - 1 then Done (False, tx) (c\<lparr>cl_keys := ks, cl_draws := cl_draws c @ ds\<rparr>)
     else Done (False, take (m - 1) tx) (c\<lparr>cl_keys := keys_of (drop (m - 1) tx) @ 10 # ks, cl_draws := cl_draws c @ ds\<rparr>))"
proof -
  let ?x = "X_DEFAULT_POS + int (length label) + 2"
  define d0 where "d0 = (if p then [] else [Echo True]) @
      [Print Y_INPUT_FIELD X_DEFAULT_POS (label @ '': ''), Move Y_INPUT_FIELD ?x, Clrtoeol, Refresh]"
  let ?c = "c\<lparr>cl_draws := cl_draws c @ d0\<rparr>"
  let ?tx = "take (m - 1) tx"
  let ?ks = "keys_of (drop (m - 1) tx) @ 10 # ks"
  have keys: "cl_keys ?c = keys_of ?tx @ ?ks"
    using assms(3) by (metis (no_types) append.assoc append_take_drop_id client.ext_inject client.select_convs(2) client.surjective client.update_convs(3) keys_of_def map_append)
  obtain ds where ds: "get_string_loop ?x m p [] ?c
      = get_string_loop ?x m p ([] @ ?tx) (?c\<lparr>cl_keys := ?ks, cl_draws := cl_draws ?c @ ds\<rparr>)"
    using get_string_typed [of ?c ?tx "[]" m ?ks ?x p] keys assms(1,2) by (auto dest: in_set_takeD)
  let ?d = "?c\<lparr>cl_keys := ?ks, cl_draws := cl_draws ?c @ ds\<rparr>"
  have field: "get_string_loop ?x m p [] ?c = (if length tx < m - 1 then Done (False, tx) (?d\<lparr>cl_keys := ks\<rparr>) else Done (False, ?tx) ?d)"
    using ds get_string_enter [of ?d tx m ks ?x p] get_string_full [of m ?tx ?x p ?d] assms(1)
    by (auto simp: keys_of_def min_def)
  show ?thesis
  proof (cases "length tx < m - 1")
    case True
    then show ?thesis using field unfolding custom_get_string_def Let_def d0_def [symmetric]
      by (intro exI [of _ "d0 @ ds @ (if p then [] else [Echo False]) @ [Move Y_INPUT_FIELD (?x + int (length tx)), Clrtoeol, Refresh]"])
        (simp add: seq_Done give_def)
  next
    case False
    then show ?thesis using field unfolding custom_get_string_def Let_def d0_def [symmetric]
      by (intro exI [of _ "d0 @ ds @ (if p then [] else [Echo False]) @ [Move Y_INPUT_FIELD (?x + int (length ?tx)), Clrtoeol, Refresh]"])
        (simp add: seq_Done give_def)
  qed
qed

lemma input_typed:
  assumes "net_sig (cl_net c) = []" "\<forall>ch \<in> set tx. printable ch" "cl_keys c = keys_of tx @ 10 # ks"
  shows "\<exists>ds. input_plain label m c = (if length tx < m - 1 then Done tx (c\<lparr>cl_keys := ks, cl_draws := cl_draws c @ ds\<rparr>)
      else Done (take (m - 1) tx) (c\<lparr>cl_keys := keys_of (drop (m - 1) tx) @ 10 # ks, cl_draws := cl_draws c @ ds\<rparr>))"
    and "\<exists>ds. input_password label m c = (if length tx < m - 1 then Done tx (c\<lparr>cl_keys := ks, cl_draws := cl_draws c @ ds\<rparr>)
      else Done (take (m - 1) tx) (c\<lparr>cl_keys := keys_of (drop (m - 1) tx) @ 10 # ks, cl_draws := cl_draws c @ ds\<rparr>))"
  using custom_get_string_typed [OF assms, of label m False] custom_get_string_typed [OF assms, of label m True]
  by (auto simp: input_plain_def input_password_def seq_Done give_def split: if_splits)

lemma unless_sigint_none: "net_sig (cl_net c) = [] \<Longrightarrow> unless_sigint m c = m c"
  by (simp add: unless_sigint_def seq_def read_sigint_none)

text \<open>The dialogue: both fields, and the first field too long for its buffer.\<close>

lemma typed_credentials:
  assumes "net_sig (cl_net c) = []" "ch = 49 \<or> ch = 50" "\<forall>k \<in> set (u @ pw). printable k"
    and "cl_keys c = keys_of u @ 10 # rest"
    and "if length u < 31 then rest = keys_of pw @ 10 # ks \<and> length pw < 63 \<and> name = u
         else pw = drop 31 u \<and> length pw < 63 \<and> name = take 31 u \<and> rest = ks"
  shows "\<exists>ds. auth_choice ssl ch c = auth_submit ssl (ch = 49) name pw (c\<lparr>cl_keys := ks, cl_draws := cl_draws c @ ds\<rparr>)"
proof -
  define d where "d = [Clear, Print Y_TITLE X_DEFAULT_POS (if ch = 49 then ''=== LOGIN ==='' else ''=== REGISTER ==='')]"
  let ?c0 = "c\<lparr>cl_draws := cl_draws c @ d\<rparr>"
  have u: "\<forall>k \<in> set u. printable k" "\<forall>k \<in> set pw. printable k" using assms(3) by auto
  let ?ks = "keys_of pw @ 10 # ks"
  obtain d1 where d1: "input_plain ''ID'' MAX_ID_LEN ?c0 = Done name (?c0\<lparr>cl_keys := ?ks, cl_draws := cl_draws ?c0 @ d1\<rparr>)"
    using input_typed(1) [of ?c0 u rest "''ID''" MAX_ID_LEN] assms(1,4,5) u(1)
    by (cases "length u < 31") auto
  let ?c1 = "?c0\<lparr>cl_keys := ?ks, cl_draws := cl_draws ?c0 @ d1\<rparr>"
  have short: "length pw < 63" using assms(5) by (auto split: if_splits)
  obtain d2 where d2: "input_password ''PW'' PW_PLAIN_SIZE ?c1 = Done pw (?c1\<lparr>cl_keys := ks, cl_draws := cl_draws ?c1 @ d2\<rparr>)"
    using input_typed(2) [of ?c1 pw ks "''PW''" PW_PLAIN_SIZE] assms(1) u(2) short by auto
  have "auth_choice ssl ch c = auth_submit ssl (ch = 49) name pw (?c1\<lparr>cl_keys := ks, cl_draws := cl_draws ?c1 @ d2\<rparr>)"
    using assms(1,2) d1 d2 unfolding auth_choice_def d_def [symmetric]
    by (auto simp: seq_Done unless_sigint_none)
  then show ?thesis by (intro exI [of _ "d @ d1 @ d2"]) simp
qed

text \<open>
  Claim C38. A name that is too long runs into the password: the ID field is left as soon as it holds 31 characters,
  without waiting for \<open>Enter\<close>; the characters that follow, up to the \<open>Enter\<close>, are taken as the password, and the
  request is made with them, before the user has typed the password.
\<close>

theorem long_name_runs_into_password:
  assumes "net_sig (cl_net c) = []" "ch = 49 \<or> ch = 50" "\<forall>k \<in> set u. printable k" "31 \<le> length u" "length u < 94"
    and "cl_keys c = keys_of u @ 10 # ks"
  shows "\<exists>c'. auth_choice ssl ch c = auth_submit ssl (ch = 49) (take 31 u) (drop 31 u) c' \<and> cl_keys c' = ks
    \<and> cl_net c' = cl_net c"
proof -
  have short: "length u - 31 < 63" using assms(5) by simp
  have "\<forall>k \<in> set (u @ drop 31 u). printable k" using assms(3) by (auto dest: in_set_dropD)
  from typed_credentials [OF assms(1,2) this assms(6), of ks "take 31 u" ssl]
  obtain ds where "auth_choice ssl ch c = auth_submit ssl (ch = 49) (take 31 u) (drop 31 u) (c\<lparr>cl_keys := ks, cl_draws := cl_draws c @ ds\<rparr>)"
    using assms(4) short by auto
  then show ?thesis by (intro exI [of _ "c\<lparr>cl_keys := ks, cl_draws := cl_draws c @ ds\<rparr>"]) simp
qed

text \<open>
  A function key in an input field is undefined behaviour: with \<open>keypad\<close> on, \<open>getch\<close> gives codes above 255
  for arrows, resizing and the like, and \<open>custom_get_string\<close> passes every code but those of \<open>Backspace\<close> and \<open>Enter\<close> to
  \<open>isprint\<close>, whose argument must be a byte.
\<close>

theorem function_key_is_undefined:
  assumes "net_sig (cl_net c) = []" "\<forall>ch \<in> set tx. printable ch" "length tx < m - 1"
    and "cl_keys c = keys_of tx @ k # ks" "255 < k" "k \<noteq> KEY_BACKSPACE" "k \<noteq> KEY_ENTER"
  shows "custom_get_string label m p c = Undef"
proof -
  have undef: "get_string_loop x m p [] d = Undef" if "net_sig (cl_net d) = []" "cl_keys d = keys_of tx @ k # ks" for x d
  proof -
    note state = that
    obtain ds where ds: "get_string_loop x m p [] d = get_string_loop x m p tx (d\<lparr>cl_keys := k # ks, cl_draws := cl_draws d @ ds\<rparr>)"
      using get_string_typed [of d tx "[]" m "k # ks" x p] state assms(2,3) by auto
    let ?e = "d\<lparr>cl_keys := k # ks, cl_draws := cl_draws d @ ds\<rparr>"
    have "read_sigint ?e = Done False ?e" using that(1) by (simp add: read_sigint_none)
    then have "get_string_loop x m p tx ?e = Undef"
      using assms(3,5-7) by (subst get_string_loop.simps) (simp add: isprint_def)
    then show ?thesis using ds by simp
  qed
  show ?thesis using assms(1,4) by (simp add: custom_get_string_def Let_def seq_def [of "get_string_loop x m b []" for x m b] undef)
qed

section \<open>From the keys to the session\<close>

lemma read_sigint_quiet:
  assumes "quiet (net_sig (cl_net c))"
  shows "\<exists>n. read_sigint c = Done False (c\<lparr>cl_net := n\<rparr>) \<and> quiet (net_sig n) \<and> net_out n = net_out (cl_net c)"
proof -
  have "c\<lparr>cl_net := cl_net c\<rparr> = c" by simp
  then show ?thesis
    using assms by (intro exI [of _ "(cl_net c)\<lparr>net_sig := tl (net_sig (cl_net c))\<rparr>"])
      (cases "net_sig (cl_net c)"; cases "cl_net c"; cases c; auto simp: read_sigint_def sigint_received_def quiet_def)
qed

lemma wait_one_key:
  assumes "quiet (net_sig (cl_net c))" "\<not> cl_exit c" "cl_sigs c = []" "cl_keys c = k # ks" "k \<noteq> KEY_ERR"
  shows "\<exists>ds n. wait_for_key_or_signal y x prompt c = Done () (c\<lparr>cl_net := n, cl_keys := ks, cl_draws := cl_draws c @ ds\<rparr>)
    \<and> quiet (net_sig n) \<and> net_out n = net_out (cl_net c)"
proof -
  let ?ds = "[Print y x prompt, Clrtoeol, Refresh]"
  let ?c = "c\<lparr>cl_draws := cl_draws c @ ?ds\<rparr>"
  have e: "read_game_exit ?c = Done False ?c" using assms(2,3) by (cases c) (simp add: read_game_exit_def)
  obtain n where n: "read_sigint ?c = Done False (?c\<lparr>cl_net := n\<rparr>)" "quiet (net_sig n)" "net_out n = net_out (cl_net c)"
    using read_sigint_quiet [of ?c] assms(1) by auto
  have "wait_loop ?c = Done () (?c\<lparr>cl_net := n, cl_keys := ks\<rparr>)"
    using assms(4,5) e n(1) by (subst wait_loop.simps) simp
  then have "wait_for_key_or_signal y x prompt c = Done () (c\<lparr>cl_net := n, cl_keys := ks, cl_draws := cl_draws c @ ?ds\<rparr>)"
    by (simp add: wait_for_key_or_signal_def seq_Done)
  then show ?thesis using n(2,3) by blast
qed

text \<open>A response that tells the outcome has a message that can be shown.\<close>

lemma tells_message: "tells ok rb \<Longrightarrow> response_success rb = (if ok then 1 else 0) \<and> (\<exists>m. message_of rb = Some m)"
  by (auto simp: tells_def message_of_def)

text \<open>The login request and the screens around it, once the fields are filled in.\<close>

lemma submit_login:
  assumes "hash_password_sha256 ssl True (Some pw) = (True, h)"
    and "net_connected (cl_net c)" "net_sig (cl_net c) = []" "\<not> cl_exit c" "cl_sigs c = []" "cl_keys c = k # ks" "k \<noteq> KEY_ERR"
    and "MAX_BODY \<le> cap" "net_send (cl_net c) = taking cap (enc_credentials u h) @ evs" "length u < MAX_ID_LEN"
    and "stream (net_recv (cl_net c)) = frame MSG_TYPE_LOGIN_RESP rb @ rest" "length rb = RESPONSE_SIZE"
    and "response_success rb = 1" "message_of rb = Some msg"
  shows "\<exists>c'. auth_submit ssl True u pw c = Done (Return AUTH_UI_LOGIN_SUCCESS u) c' \<and> cl_keys c' = ks
    \<and> net_out (cl_net c') = net_out (cl_net c) @ request_frame (Login u h)"
proof -
  let ?c1 = "c\<lparr>cl_draws := cl_draws c @ [Print Y_STATUS_MSG X_DEFAULT_POS ''Processing...'', Clrtoeol, Refresh]\<rparr>"
  let ?c2 = "?c1\<lparr>cl_crypto := True\<rparr>"
  have hash: "hash_user_password ssl pw ?c1 = Done (Some h) ?c2"
    using assms(1) by (simp add: hash_user_password_def client_crypto_init_def crypto_init_def seq_def give_def)
  have ask: "\<exists>n. client_request ej (Login u h) rs (cl_net ?c2) = Returns 0 rb n
      \<and> net_out n = net_out (cl_net c) @ request_frame (Login u h) \<and> quiet (net_sig n)" for ej rs
    using client_understands [OF assms(2) _ assms(8), of "Login u h" evs MSG_TYPE_LOGIN_RESP rb rest ej rs] assms(3,9,11,12)
    by (auto simp: quiet_def body_bytes_def reply_shape_def)
  obtain n where call: "request_call (\<lambda>ejunk. send_login_request ejunk u h) ?c2 = Done (0, rb) (?c2\<lparr>cl_net := n, cl_stack := tl (tl (cl_stack ?c2))\<rparr>)"
      and n: "net_out n = net_out (cl_net c) @ request_frame (Login u h)" "quiet (net_sig n)"
    using request_returns [OF ask, of "\<lambda>ejunk. send_login_request ejunk u h"] by auto
  let ?c3 = "?c2\<lparr>cl_net := n, cl_stack := tl (tl (cl_stack ?c2))\<rparr>"
  obtain n4 where n4: "read_sigint ?c3 = Done False (?c3\<lparr>cl_net := n4\<rparr>)" "quiet (net_sig n4)" "net_out n4 = net_out n"
    using read_sigint_quiet [of ?c3] n(2) by auto
  let ?line = "snprintf_str (2 * MAX_MSG_LEN) (''Login Success! '' @ msg)"
  let ?c4 = "?c3\<lparr>cl_net := n4\<rparr>"
  let ?c5 = "?c4\<lparr>cl_draws := cl_draws ?c4 @ [Print Y_STATUS_MSG X_DEFAULT_POS ?line, Clrtoeol]\<rparr>"
  obtain ds n6 where w: "wait_for_key_or_signal (Y_STATUS_MSG + Y_MSG_OFFSET1) X_DEFAULT_POS ''Press any key...'' ?c5
      = Done () (?c5\<lparr>cl_net := n6, cl_keys := ks, cl_draws := cl_draws ?c5 @ ds\<rparr>)" "quiet (net_sig n6)" "net_out n6 = net_out n4"
    using wait_one_key [of ?c5 k ks "Y_STATUS_MSG + Y_MSG_OFFSET1" X_DEFAULT_POS "''Press any key...''"] n4(2) assms(4-7) by auto
  let ?c6 = "?c5\<lparr>cl_net := n6, cl_keys := ks, cl_draws := cl_draws ?c5 @ ds\<rparr>"
  obtain n7 where n7: "read_sigint ?c6 = Done False (?c6\<lparr>cl_net := n7\<rparr>)" "net_out n7 = net_out n6"
    using read_sigint_quiet [of ?c6] w(2) by auto
  let ?fin = "seq read_sigint (\<lambda>s. give (Return (if s then AUTH_UI_EXIT_SIGNAL else AUTH_UI_LOGIN_SUCCESS) (strncpy_str MAX_ID_LEN u)))"
  let ?wait = "wait_for_key_or_signal (Y_STATUS_MSG + Y_MSG_OFFSET1) X_DEFAULT_POS ''Press any key...''"
  have e1: "?fin ?c6 = Done (Return AUTH_UI_LOGIN_SUCCESS u) (?c6\<lparr>cl_net := n7\<rparr>)"
    using n7(1) assms(10) by (simp add: seq_def give_def)
  have e2: "seq ?wait (\<lambda>_. ?fin) ?c5 = Done (Return AUTH_UI_LOGIN_SUCCESS u) (?c6\<lparr>cl_net := n7\<rparr>)"
    using seq_Done [of ?wait ?c5, OF w(1)] e1 by metis
  have e3: "seq (status ?line) (\<lambda>_. seq ?wait (\<lambda>_. ?fin)) ?c4 = Done (Return AUTH_UI_LOGIN_SUCCESS u) (?c6\<lparr>cl_net := n7\<rparr>)"
    using e2 unfolding status_def act_simps(2) .
  have succ: "0 = (0 :: int) \<and> response_success rb \<noteq> 0" using assms(13) by simp
  have "auth_login u h ?c2 = Done (Return AUTH_UI_LOGIN_SUCCESS u) (?c6\<lparr>cl_net := n7\<rparr>)"
    unfolding auth_login_def seq_Done [where m = "request_call (\<lambda>ejunk. send_login_request ejunk u h)" and c = ?c2, OF call]
      prod.case unless_sigint_def seq_Done [where m = read_sigint and c = ?c3, OF n4(1)] if_False if_P [OF succ]
      assms(14) option.case by (rule e3)
  then have "auth_submit ssl True u pw c = Done (Return AUTH_UI_LOGIN_SUCCESS u) (?c6\<lparr>cl_net := n7\<rparr>)"
    using hash by (simp add: auth_submit_def seq_Done)
  then show ?thesis using n(1) n4(3) w(3) n7(2) by simp
qed

text \<open>The dialogue of a login as a whole, with the server that it reaches.\<close>

lemma typed_login:
  assumes "service_rel s v" "env_works env" "accounts v u = Some h" "u \<notin> online v" "card (online v) < MAX_LOGGED_IN_USERS"
    and "hash_password_sha256 ssl True (Some pw) = (True, h)"
    and "\<forall>ch \<in> set (u @ pw). printable ch" "length u < 31" "length pw < 63"
    and "cl_keys c = 49 # keys_of u @ 10 # keys_of pw @ 10 # k # ks" "k \<noteq> KEY_ERR"
    and "net_connected (cl_net c)" "net_sig (cl_net c) = []" "\<not> cl_exit c" "cl_sigs c = []"
    and "MAX_BODY \<le> cap" "net_send (cl_net c) = taking cap (enc_credentials u h) @ evs"
  shows "\<exists>rb s'. handle_message env sock (msg_code MSG_TYPE_LOGIN_REQ) (Some (enc_credentials u h)) [] s
        = Some ((MSG_TYPE_LOGIN_RESP, rb), u, s')
    \<and> service_rel s' (v\<lparr>online := insert u (online v)\<rparr>)
    \<and> (\<forall>rest. stream (net_recv (cl_net c)) = frame MSG_TYPE_LOGIN_RESP rb @ rest \<longrightarrow>
         (\<exists>c'. auth_ui_main ssl c = Done (AUTH_UI_LOGIN_SUCCESS, u) c' \<and> cl_keys c' = ks
            \<and> net_out (cl_net c') = net_out (cl_net c) @ request_frame (Login u h)))"
proof -
  have "\<exists>d. h = bytes_to_hex d \<and> length d = 32" using assms(6) by (rule hash_success) blast
  then have h: "nul_free h" "length h < MAX_PW_LEN" by auto
  have "\<not> printable NUL" by (simp add: printable_def)
  then have "NUL \<notin> set u" using assms(7) by auto
  then have req: "request_ok (Login u h)" using h assms(8) by (simp add: nul_free_def)
  have sess: "session_rel v []" by (simp add: session_rel_def)
  have step: "service_step (Login u h) [] v = (True, u, v\<lparr>online := insert u (online v)\<rparr>)" using assms(3-5) by simp
  from handler_refines [OF assms(1) sess req assms(2) step, of sock]
  obtain rb s' where hm: "handle_message env sock (msg_code MSG_TYPE_LOGIN_REQ) (Some (enc_credentials u h)) [] s
        = Some ((MSG_TYPE_LOGIN_RESP, rb), u, s')" and says: "tells True rb"
      and rel: "service_rel s' (v\<lparr>online := insert u (online v)\<rparr>)"
    by (auto simp: reply_shape_def)
  have "words_ok s" using assms(1) by (simp add: service_rel_def)
  from message_reply_shape [OF hm this] have len: "length rb = RESPONSE_SIZE" by (simp add: reply_shape_def)
  obtain msg where msg: "message_of rb = Some msg" "response_success rb = 1" using tells_message [OF says] by auto
  have "\<exists>c'. auth_ui_main ssl c = Done (AUTH_UI_LOGIN_SUCCESS, u) c' \<and> cl_keys c' = ks
            \<and> net_out (cl_net c') = net_out (cl_net c) @ request_frame (Login u h)"
    if str: "stream (net_recv (cl_net c)) = frame MSG_TYPE_LOGIN_RESP rb @ rest" for rest
  proof -
    let ?c1 = "c\<lparr>cl_crypto := True\<rparr>"
    let ?c2 = "?c1\<lparr>cl_draws := cl_draws ?c1 @ draw_auth_menu, cl_keys := keys_of u @ 10 # keys_of pw @ 10 # k # ks\<rparr>"
    have init: "client_crypto_init c = Done True ?c1" by (simp add: client_crypto_init_def crypto_init_def)
    obtain ds where ds: "auth_choice ssl 49 ?c2 = auth_submit ssl True u pw (?c2\<lparr>cl_keys := k # ks, cl_draws := cl_draws ?c2 @ ds\<rparr>)"
      using typed_credentials [of ?c2 49 u pw "keys_of pw @ 10 # k # ks" "k # ks" u ssl] assms(7-9,13) by auto
    let ?c3 = "?c2\<lparr>cl_keys := k # ks, cl_draws := cl_draws ?c2 @ ds\<rparr>"
    obtain c' where c': "auth_submit ssl True u pw ?c3 = Done (Return AUTH_UI_LOGIN_SUCCESS u) c'" "cl_keys c' = ks"
        "net_out (cl_net c') = net_out (cl_net c) @ request_frame (Login u h)"
      using submit_login [OF assms(6), of ?c3 k ks cap u evs rb rest msg] assms(8,11-17) str len msg by auto
    have "auth_round ssl ?c1 = Done (Return AUTH_UI_LOGIN_SUCCESS u) c'"
      using assms(10,13) ds c'(1) by (simp add: auth_round_def unless_sigint_none seq_def getch_def draw_def)
    then have "auth_loop ssl (Suc n) ?c1 = Done (AUTH_UI_LOGIN_SUCCESS, u) c'" for n
      by (simp add: seq_def give_def)
    then have "auth_ui_main ssl c = Done (AUTH_UI_LOGIN_SUCCESS, u) c'"
      using init by (simp add: auth_ui_main_def seq_def del: auth_loop.simps)
    then show ?thesis using c'(2,3) by blast
  qed
  then show ?thesis using hm rel by blast
qed

text \<open>
  Claim C6. From the keys to the session: on the menu, the key \<open>1\<close>, a name, \<open>Enter\<close>, a password, \<open>Enter\<close> and one more key
  log in a registered user. The client sends exactly the login request with the hash of the password; the server
  that gets it, if it implements a service with this account, room, and no such session, opens the session; and
  when its reply comes back, \<open>auth_ui_main\<close> returns success for that user and leaves the further keys.
\<close>

theorem typed_login_opens_session:
  assumes "service_rel s v" "env_works env" "accounts v u = Some h" "u \<notin> online v" "card (online v) < MAX_LOGGED_IN_USERS"
    and "hash_password_sha256 ssl True (Some pw) = (True, h)"
    and "\<forall>ch \<in> set (u @ pw). printable ch" "length u < 31" "length pw < 63"
    and "cl_keys c = 49 # keys_of u @ 10 # keys_of pw @ 10 # k # ks" "k \<noteq> KEY_ERR"
    and "net_connected (cl_net c)" "net_sig (cl_net c) = []" "\<not> cl_exit c" "cl_sigs c = []"
    and "MAX_BODY \<le> cap" "net_send (cl_net c) = taking cap (enc_credentials u h) @ evs"
  shows "\<exists>rb s'. handle_message env sock (msg_code MSG_TYPE_LOGIN_REQ) (Some (enc_credentials u h)) [] s
        = Some ((MSG_TYPE_LOGIN_RESP, rb), u, s')
    \<and> service_rel s' (v\<lparr>online := insert u (online v)\<rparr>)
    \<and> (\<forall>rest. stream (net_recv (cl_net c)) = frame MSG_TYPE_LOGIN_RESP rb @ rest \<longrightarrow>
         (\<exists>c'. auth_ui_main ssl c = Done (AUTH_UI_LOGIN_SUCCESS, u) c' \<and> cl_keys c' = ks
            \<and> net_out (cl_net c') = net_out (cl_net c) @ request_frame (Login u h)))"
  using typed_login [OF assms] .

section \<open>Concrete runs\<close>

text \<open>A client with a connection and keys waiting.\<close>

definition idle_client :: "int list \<Rightarrow> recv_event list \<Rightarrow> send_event list \<Rightarrow> client" where
  "idle_client keys revs sevs =
     \<lparr>cl_net = \<lparr>net_connected = True, net_sig = [], net_recv = revs, net_send = sevs, net_out = []\<rparr>,
      cl_keys = keys, cl_draws = [], cl_stack = [], cl_crypto = True, cl_exit = False, cl_running = False, cl_sigs = [],
      cl_game = no_game, cl_mutex = Uninitialised, cl_games = [],
      cl_conns = [], cl_misuse = False, cl_nodelay = False, cl_lines = 24, cl_cols = 80\<rparr>"

lemma idle_client_simps [simp]:
  "cl_keys (idle_client keys revs sevs) = keys" "net_sig (cl_net (idle_client keys revs sevs)) = []"
  "net_connected (cl_net (idle_client keys revs sevs))" "\<not> cl_exit (idle_client keys revs sevs)"
  "cl_sigs (idle_client keys revs sevs) = []" "net_send (cl_net (idle_client keys revs sevs)) = sevs"
  "net_recv (cl_net (idle_client keys revs sevs)) = revs" "net_out (cl_net (idle_client keys revs sevs)) = []"
  by (simp_all add: idle_client_def)

definition secret_hash :: string where
  "secret_hash = bytes_to_hex (take 32 (''secret'' @ replicate 32 CHR 0xAB))"

lemma secret_hash: "hash_password_sha256 toy_evp True (Some ''secret'') = (True, secret_hash)"
  by (simp add: hash_password_sha256_def toy_evp_def secret_hash_def)

lemma secret_hash_ok: "user_ok (''bob'', secret_hash)" "secret_hash \<noteq> []"
proof -
  obtain d where d: "secret_hash = bytes_to_hex d" "length d = 32"
    using secret_hash by (rule hash_success)
  show "user_ok (''bob'', secret_hash)" using d(2) by (simp add: user_ok_def d(1))
  show "secret_hash \<noteq> []" using d by (cases d) auto
qed

text \<open>Bob, with the password \<open>secret\<close>, types his login; the server's reply comes back, whatever reads it.\<close>

definition bob_keys :: "int list" where
  "bob_keys = 49 # keys_of ''bob'' @ 10 # keys_of ''secret'' @ 10 # 32 # []"

abbreviation bob_client :: "recv_event list \<Rightarrow> client" where
  "bob_client revs \<equiv> idle_client bob_keys revs (taking 20000 (enc_credentials ''bob'' secret_hash) @ [])"

lemma bob_service:
  obtains s where "service_rel s (fresh_service\<lparr>accounts := [''bob'' \<mapsto> secret_hash]\<rparr>)"
proof -
  have sess: "session_rel v []" for v by (simp add: session_rel_def)
  have "service_step (Register ''bob'' secret_hash) [] fresh_service
      = (True, [], fresh_service\<lparr>accounts := [''bob'' \<mapsto> secret_hash]\<rparr>)" by (simp add: fresh_service_def)
  then show thesis
    using that handler_refines [OF fresh_rel sess _ sample_env_works, of "Register ''bob'' secret_hash" _ _ _ 4] secret_hash_ok by auto
qed

lemma bob_account:
  "accounts (fresh_service\<lparr>accounts := [''bob'' \<mapsto> secret_hash]\<rparr>) ''bob'' = Some secret_hash"
  "''bob'' \<notin> online (fresh_service\<lparr>accounts := [''bob'' \<mapsto> secret_hash]\<rparr>)"
  "card (online (fresh_service\<lparr>accounts := [''bob'' \<mapsto> secret_hash]\<rparr>)) < MAX_LOGGED_IN_USERS"
  by (simp_all add: fresh_service_def)

lemma bob_printable: "\<forall>ch \<in> set (''bob'' @ ''secret''). printable ch"
  by (simp add: printable_def)

text \<open>The frame that Bob's client sends is the one of the piece of keys \<open>1\<close>, the name and the password.\<close>

theorem only_hashes_are_sent_witness:
  "\<exists>revs c' ds. auth_ui_main toy_evp (bob_client revs) = Done (AUTH_UI_LOGIN_SUCCESS, ''bob'') c'
     \<and> net_out (cl_net c') = request_frame (Login ''bob'' secret_hash) \<and> concat (map snd ds) = net_out (cl_net c')
     \<and> concat (map fst ds) = bob_keys \<and> (\<exists>ks p uid pw h k1 k2. (ks, p) \<in> set ds \<and> p \<noteq> [] \<and> tl ks = k1 @ k2
          \<and> entered True MAX_ID_LEN [] k1 uid \<and> entered True PW_PLAIN_SIZE [] k2 pw
          \<and> hash_password_sha256 toy_evp True (Some pw) = (True, h)
          \<and> (prefix p (request_frame (Login uid h)) \<or> prefix p (request_frame (Register uid h))))"
proof -
  obtain s where s: "service_rel s (fresh_service\<lparr>accounts := [''bob'' \<mapsto> secret_hash]\<rparr>)" by (rule bob_service)
  note login = typed_login [OF s sample_env_works bob_account secret_hash bob_printable, where cap = 20000 and evs = "[]" and k = 32
      and ks = "[]" and sock = 4 and c = "bob_client revs" for revs]
  obtain rb s' where hm: "handle_message sample_env 4 (msg_code MSG_TYPE_LOGIN_REQ) (Some (enc_credentials ''bob'' secret_hash)) [] s
      = Some ((MSG_TYPE_LOGIN_RESP, rb), ''bob'', s')"
    using login [of "[]"] by (auto simp: bob_keys_def)
  let ?c = "bob_client [Chunk (frame MSG_TYPE_LOGIN_RESP rb)]"
  have "stream [Chunk (frame MSG_TYPE_LOGIN_RESP rb)] = frame MSG_TYPE_LOGIN_RESP rb @ []" by (simp add: frame_def)
  then obtain c' where c': "auth_ui_main toy_evp ?c = Done (AUTH_UI_LOGIN_SUCCESS, ''bob'') c'" "cl_keys c' = []"
      "net_out (cl_net c') = request_frame (Login ''bob'' secret_hash)"
    using login [of "[Chunk (frame MSG_TYPE_LOGIN_RESP rb)]"] hm by (auto simp: bob_keys_def)
  obtain ds where ds: "cl_keys ?c = concat (map fst ds) @ cl_keys c'" "net_out (cl_net c') = net_out (cl_net ?c) @ concat (map snd ds)"
    "\<forall>(ks, p) \<in> set ds. p = [] \<or> (\<exists>ch k1 k2 uid pw h. ks = ch # k1 @ k2
         \<and> entered (quiet (net_sig (cl_net ?c))) MAX_ID_LEN [] k1 uid \<and> entered (quiet (net_sig (cl_net ?c))) PW_PLAIN_SIZE [] k2 pw
         \<and> hash_password_sha256 toy_evp True (Some pw) = (True, h)
         \<and> (ch = 49 \<and> prefix p (request_frame (Login uid h)) \<or> ch = 50 \<and> prefix p (request_frame (Register uid h))))"
    using only_hashes_are_sent [OF c'(1)] by blast
  have "quiet (net_sig (cl_net ?c)) = True" by (simp add: quiet_def)
  note ds = ds [unfolded this]
  have out: "concat (map snd ds) = request_frame (Login ''bob'' secret_hash)" using ds(2) c'(3) by simp
  moreover have "request_frame (Login ''bob'' secret_hash) \<noteq> []" by (simp add: request_frame_def frame_def)
  ultimately have "concat (map snd ds) \<noteq> []" by simp
  then obtain ks p where kp: "(ks, p) \<in> set ds" "p \<noteq> []" by auto
  then have "\<exists>ks p uid pw h k1 k2. (ks, p) \<in> set ds \<and> p \<noteq> [] \<and> tl ks = k1 @ k2 \<and> entered True MAX_ID_LEN [] k1 uid \<and> entered True PW_PLAIN_SIZE [] k2 pw
      \<and> hash_password_sha256 toy_evp True (Some pw) = (True, h)
      \<and> (prefix p (request_frame (Login uid h)) \<or> prefix p (request_frame (Register uid h)))"
    using ds(3) by fastforce
  moreover have "concat (map snd ds) = net_out (cl_net c')" using out c'(3) by simp
  moreover have "concat (map fst ds) = bob_keys" using ds(1) c'(2) by simp
  ultimately show ?thesis using c'(1,3)
    by (intro exI [of _ "[Chunk (frame MSG_TYPE_LOGIN_RESP rb)]"] exI [of _ c'] exI [of _ ds] conjI)
qed

theorem long_name_runs_into_password_witness:
  "\<exists>c c'. auth_choice toy_evp 49 c = auth_submit toy_evp True (replicate 31 CHR ''a'') ''bc'' c' \<and> cl_keys c' = keys_of ''secret''"
proof -
  let ?u = "replicate 31 CHR ''a'' @ ''bc''"
  have "\<forall>k \<in> set ?u. printable k" by (simp add: printable_def)
  then show ?thesis
    using long_name_runs_into_password [of "idle_client (keys_of ?u @ 10 # keys_of ''secret'') [] []" 49 ?u "keys_of ''secret''" toy_evp]
    by auto
qed

theorem function_key_is_undefined_witness:
  "custom_get_string ''ID'' MAX_ID_LEN False (idle_client [97, 98, 259] [] []) = Undef"
  by (rule function_key_is_undefined [of _ "''ab''" _ 259 "[]"]) (simp_all add: printable_def keys_of_def)

theorem typed_login_opens_session_witness:
  "\<exists>s rb s' c c'. handle_message sample_env 4 (msg_code MSG_TYPE_LOGIN_REQ) (Some (enc_credentials ''bob'' secret_hash)) [] s
       = Some ((MSG_TYPE_LOGIN_RESP, rb), ''bob'', s')
     \<and> auth_ui_main toy_evp c = Done (AUTH_UI_LOGIN_SUCCESS, ''bob'') c' \<and> cl_keys c' = []"
proof -
  let ?login = "Some (enc_credentials ''bob'' secret_hash)"
  obtain s where s: "service_rel s (fresh_service\<lparr>accounts := [''bob'' \<mapsto> secret_hash]\<rparr>)" by (rule bob_service)
  note login = typed_login_opens_session [OF s sample_env_works bob_account secret_hash bob_printable, where cap = 20000 and evs = "[]"
      and k = 32 and ks = "[]" and sock = 4]
  have run: "\<exists>rb s'. handle_message sample_env 4 (msg_code MSG_TYPE_LOGIN_REQ) ?login [] s = Some ((MSG_TYPE_LOGIN_RESP, rb), ''bob'', s')
    \<and> (\<forall>rest. stream revs = frame MSG_TYPE_LOGIN_RESP rb @ rest \<longrightarrow>
         (\<exists>c'. auth_ui_main toy_evp (bob_client revs) = Done (AUTH_UI_LOGIN_SUCCESS, ''bob'') c' \<and> cl_keys c' = []))" for revs
    using login [of "bob_client revs"] by (auto simp: bob_keys_def)
  obtain rb s' where hm: "handle_message sample_env 4 (msg_code MSG_TYPE_LOGIN_REQ) ?login [] s = Some ((MSG_TYPE_LOGIN_RESP, rb), ''bob'', s')"
    using run [of "[]"] by blast
  let ?revs = "[Chunk (frame MSG_TYPE_LOGIN_RESP rb)]"
  have "stream ?revs = frame MSG_TYPE_LOGIN_RESP rb @ []" by (simp add: frame_def)
  then obtain c' where "auth_ui_main toy_evp (bob_client ?revs) = Done (AUTH_UI_LOGIN_SUCCESS, ''bob'') c'" "cl_keys c' = []"
    using run [of ?revs] hm by auto
  then show ?thesis using hm by blast
qed

end
