(* ===== verification/Info_UI.thy ===== *)
theory Info_UI
  imports Auth_UI
begin

text \<open>
  The two screens that only show something: \<^verbatim>\<open>client/src/leaderboard_ui.c\<close> and
  \<^verbatim>\<open>client/src/how_to_play_ui.c\<close>.
\<close>

section \<open>The leaderboard\<close>

definition leaderboard_error :: "int \<Rightarrow> string" where
  "leaderboard_error ret =
     (if ret = -1 then ''Not connected to server''
      else if ret = -2 then ''Failed to send request''
      else if ret = -3 then ''Failed to receive response''
      else if ret = -4 then ''Server returned error''
      else if ret = -5 then ''Unexpected response type from server''
      else if ret = -6 then ''Response data too large''
      else if ret = -10 then ''Interrupted by user''
      else ''Unknown network error'')"

text \<open>The conversions \<open>%2d\<close>, \<open>%5d\<close> and \<open>%-15s\<close>.\<close>

definition pad_left :: "nat \<Rightarrow> string \<Rightarrow> string" where
  "pad_left n s = replicate (n - length s) CHR '' '' @ s"

definition pad_right :: "nat \<Rightarrow> string \<Rightarrow> string" where
  "pad_right n s = s @ replicate (n - length s) CHR '' ''"

definition username_display :: "string \<Rightarrow> string" where
  "username_display name = (if 15 < length name then take 12 name @ ''...'' else name)"

definition entry_line :: "nat \<Rightarrow> string \<Rightarrow> int \<Rightarrow> string" where
  "entry_line i name score =
     pad_left 2 (show_int (int i + 1)) @ ''    '' @ pad_right 15 (username_display name) @ ''  '' @ pad_left 5 (show_int score)"

text \<open>
  The loop over the entries of the response; \<open>None\<close> when a name is not terminated before the end of the struct.
\<close>

primrec leaderboard_lines :: "bytes \<Rightarrow> nat list \<Rightarrow> draw list option" where
  "leaderboard_lines res [] = Some []"
| "leaderboard_lines res (i # is) =
     (let display_line = Y_OPTIONS_START + 2 + int i in
      if Y_STATUS_MSG - 1 \<le> display_line
      then Some [Print display_line X_DEFAULT_POS (''... and '' @ show_int (leaderboard_count res - int i) @ '' more entries'')]
      else do {
        name \<leftarrow> deref (ptr_at (Some res) (4 + ENTRY_SIZE * i));
        score \<leftarrow> int_at (Some res) (4 + ENTRY_SIZE * i + MAX_ID_LEN);
        rest \<leftarrow> leaderboard_lines res is;
        Some (Print display_line X_DEFAULT_POS (entry_line i name score) # rest)
      })"

definition leaderboard_screen :: "bytes \<Rightarrow> draw list option" where
  "leaderboard_screen res =
     (let display_count = (if leaderboard_count res < int MAX_LEADERBOARD_ENTRIES then leaderboard_count res
                           else int MAX_LEADERBOARD_ENTRIES);
          max_display_lines = Y_STATUS_MSG - Y_OPTIONS_START - 3;
          display_count = (if max_display_lines < display_count then max_display_lines else display_count)
      in map_option (\<lambda>entries.
           [Print Y_TITLE X_DEFAULT_POS ''=== LEADERBOARD ==='',
            Print Y_OPTIONS_START X_DEFAULT_POS ''Rank  Username         Score'',
            Print (Y_OPTIONS_START + 1) X_DEFAULT_POS ''----  --------         -----''] @ entries @
           (if 0 < leaderboard_count res
            then [Print (Y_STATUS_MSG - 1) X_DEFAULT_POS (''Total players: '' @ show_int (leaderboard_count res))] else []) @
           [Refresh])
         (leaderboard_lines res [0..<nat display_count]))"

definition show_leaderboard_ui :: "client \<Rightarrow> unit outcome" where
  "show_leaderboard_ui =
     seq (request_call send_leaderboard_request) (\<lambda>(ret, res).
     seq (draw [Clear]) (\<lambda>_.
       if ret < 0
       then seq (draw [Print Y_STATUS_MSG X_DEFAULT_POS (''Failed to get leaderboard: '' @ leaderboard_error ret @ '' (code: '' @ show_int ret @ '')''),
                       Print (Y_STATUS_MSG + Y_MSG_OFFSET1) X_DEFAULT_POS ''Please check your connection and try again.'']) (\<lambda>_.
            wait_for_key_or_signal (Y_STATUS_MSG + Y_MSG_OFFSET2) X_DEFAULT_POS ''Press any key to return...'')
       else if leaderboard_count res = 0
       then seq (draw [Print Y_TITLE X_DEFAULT_POS ''=== LEADERBOARD ==='',
                       Print Y_OPTIONS_START X_DEFAULT_POS ''No scores available yet.'',
                       Print (Y_OPTIONS_START + 1) X_DEFAULT_POS ''Be the first to play and set a record!'', Refresh]) (\<lambda>_.
            wait_for_key_or_signal (Y_STATUS_MSG + Y_MSG_OFFSET2) X_DEFAULT_POS ''Press any key to return...'')
       else (case leaderboard_screen res of
           None \<Rightarrow> (\<lambda>_. Undef)
         | Some ds \<Rightarrow> seq (draw ds) (\<lambda>_.
             wait_for_key_or_signal (Y_STATUS_MSG + Y_MSG_OFFSET2) X_DEFAULT_POS ''Press any key to return...''))))"

section \<open>How to play\<close>

text \<open>A page: its lines (with their indentation), the empty lines, and the colours switched on and off between them.\<close>

datatype page_item = Line int string | Blank | On nat | Off nat

fun page_lines :: "int \<Rightarrow> page_item list \<Rightarrow> draw list" where
  "page_lines current_line [] = []"
| "page_lines current_line (Line indent s # is) =
     Print current_line (X_DEFAULT_POS + indent) s # page_lines (current_line + 1) is"
| "page_lines current_line (Blank # is) = page_lines (current_line + 1) is"
| "page_lines current_line (On n # is) = Attron n # page_lines current_line is"
| "page_lines current_line (Off n # is) = Attroff n # page_lines current_line is"

definition page_1 :: "bool \<Rightarrow> draw list" where
  "page_1 has_colors =
     [Clear, Print Y_TITLE X_DEFAULT_POS ''=== Rain Typing Game - How to Play (1/2) ===''] @
     page_lines Y_OPTIONS_START
       ([Line 0 ''GAME OBJECTIVE:'',
         Line 2 ''- Type falling words to destroy them before they hit the bottom'',
         Line 2 ''- Survive as long as possible and achieve the highest score'',
         Blank,
         Line 0 ''GAMEPLAY:'',
         Line 2 ''- Words fall from top to bottom of the screen'',
         Line 2 ''- Type the complete word and press ENTER or SPACE'',
         Line 2 ''- Use BACKSPACE to correct typing mistakes'',
         Line 2 ''- You start with 5 lives'',
         Line 2 ''- Lose a life when a word reaches the bottom'',
         Blank,
         Line 0 ''WORD TYPES:''] @
        (if has_colors
         then [On COLOR_PAIR_KILL, Line 2 ''- RED WORDS: DANGER! End game immediately'', Off COLOR_PAIR_KILL,
               On COLOR_PAIR_BONUS, Line 2 ''- BLUE WORDS: BONUS! +50 points + word length'', Off COLOR_PAIR_BONUS,
               Line 2 ''- WHITE WORDS: Normal, score = word length'']
         else [Line 2 ''- KILL WORDS: End game immediately'',
               Line 2 ''- BONUS WORDS: +50 points + word length'',
               Line 2 ''- NORMAL WORDS: Score = word length''])) @
     [Refresh]"

definition page_2 :: "draw list" where
  "page_2 =
     [Clear, Print Y_TITLE X_DEFAULT_POS ''=== Rain Typing Game - How to Play (2/2) ===''] @
     page_lines Y_OPTIONS_START
       [Line 0 ''LEVEL SYSTEM:'',
        Line 2 ''- Level 1: 0-49 pts (Slow)    Level 2: 50-99 pts (Medium)'',
        Line 2 ''- Level 3: 100-149 pts (Fast) Level 4: 150-199 pts (V.Fast)'',
        Line 2 ''- Level 5: 200+ pts (Maximum speed)'',
        Blank,
        Line 0 ''CONTROLS:'',
        Line 2 ''- Type letters to spell words'',
        Line 2 ''- ENTER or SPACE: Submit typed word'',
        Line 2 ''- BACKSPACE: Delete last character'',
        Line 2 ''- Ctrl+C: Exit game (return to menu)'',
        Blank,
        Line 0 ''STRATEGY TIPS:'',
        Line 2 ''- Focus on words closest to the bottom first'',
        Line 2 ''- Avoid RED words at all costs!'',
        Line 2 ''- Prioritize BLUE bonus words when safe'',
        Line 2 ''- Speed increases with score - stay alert!'',
        Line 2 ''- Practice typing accuracy over speed''] @
     [Refresh]"

definition show_page_1 :: "bool \<Rightarrow> client \<Rightarrow> unit outcome" where
  "show_page_1 has_colors = seq (draw (page_1 has_colors)) (\<lambda>_.
     wait_for_key_or_signal (Y_STATUS_MSG + Y_MSG_OFFSET2) X_DEFAULT_POS ''Press any key for next page (2/2)...'')"

definition show_page_2 :: "client \<Rightarrow> unit outcome" where
  "show_page_2 = seq (draw page_2) (\<lambda>_.
     wait_for_key_or_signal (Y_STATUS_MSG + Y_MSG_OFFSET2) X_DEFAULT_POS ''Press any key to return to the main menu...'')"

definition show_how_to_play_ui :: "bool \<Rightarrow> client \<Rightarrow> unit outcome" where
  "show_how_to_play_ui has_colors =
     seq (show_page_1 has_colors) (\<lambda>_. seq read_sigint (\<lambda>s. if s then give () else show_page_2))"

section \<open>What is shown\<close>

text \<open>The row and column of a command that writes text.\<close>

fun printed :: "draw \<Rightarrow> (int \<times> int \<times> string) option" where
  "printed (Print y x s) = Some (y, x, s)"
| "printed _ = None"

lemma cstr_take: "NUL \<in> set (take n b) \<Longrightarrow> cstr (take n b) = cstr b"
  using takeWhile_append1 [of NUL "take n b" "\<lambda>c. c \<noteq> NUL" "drop n b"] by (simp add: cstr_def)

lemma leaderboard_lines_ok:
  assumes "\<forall>i \<in> set is. i < 6 \<and> NUL \<in> set (take MAX_ID_LEN (drop (4 + ENTRY_SIZE * i) res))" "length res = LEADERBOARD_SIZE"
  shows "leaderboard_lines res is = Some (map (\<lambda>i. Print (Y_OPTIONS_START + 2 + int i) X_DEFAULT_POS
     (entry_line i (fst (leaderboard_entry res i)) (snd (leaderboard_entry res i)))) is)"
  using assms(1)
proof (induction "is")
  case (Cons i "is")
  let ?b = "drop (4 + ENTRY_SIZE * i) res"
  have i: "i < 6" "NUL \<in> set (take MAX_ID_LEN ?b)" using Cons.prems by auto
  then have nul: "NUL \<in> set ?b" by (auto dest: in_set_takeD)
  have "cstr ?b = cstr (take MAX_ID_LEN ?b)"
    using cstr_take [OF i(2)] by (rule sym)
  then have name: "deref (ptr_at (Some res) (4 + ENTRY_SIZE * i)) = Some (fst (leaderboard_entry res i))"
    using nul unfolding leaderboard_entry_def dec_entry_def ptr_at.simps by (simp only: if_True deref.simps fst_conv)
  have len: "4 + ENTRY_SIZE * i + MAX_ID_LEN + 4 \<le> length res" using i(1) assms(2) by simp
  have "drop MAX_ID_LEN ?b = drop (4 + ENTRY_SIZE * i + MAX_ID_LEN) res" by (simp only: drop_drop add.commute)
  then have score: "int_at (Some res) (4 + ENTRY_SIZE * i + MAX_ID_LEN) = Some (snd (leaderboard_entry res i))"
    using len unfolding leaderboard_entry_def dec_entry_def int_at.simps by (simp only: if_True snd_conv)
  have row: "\<not> Y_STATUS_MSG - 1 \<le> Y_OPTIONS_START + 2 + int i" using i(1) by simp
  have IH: "leaderboard_lines res is = Some (map (\<lambda>i. Print (Y_OPTIONS_START + 2 + int i) X_DEFAULT_POS
     (entry_line i (fst (leaderboard_entry res i)) (snd (leaderboard_entry res i)))) is)" using Cons by simp
  show ?case unfolding leaderboard_lines.simps Let_def if_not_P [OF row] name score IH by simp
qed simp

text \<open>
  Claim C39. Of a leaderboard of \<open>n\<close> players the screen shows the first six at most, each with its rank, its name cut to
  15 characters and its score, and the number of all players: with seven to ten players the rest is dropped
  without the line \<open>... and more entries\<close>, which is never printed.
\<close>

theorem leaderboard_shows_six:
  assumes "length res = LEADERBOARD_SIZE" "leaderboard_count res = int n" "0 < n" "n \<le> MAX_LEADERBOARD_ENTRIES"
    and "\<forall>i < n. NUL \<in> set (take MAX_ID_LEN (drop (4 + ENTRY_SIZE * i) res))"
  shows "\<exists>ds. leaderboard_screen res = Some ds
    \<and> List.map_filter printed ds =
       [(2, 10, ''=== LEADERBOARD ===''), (4, 10, ''Rank  Username         Score''), (5, 10, ''----  --------         -----'')] @
       map (\<lambda>i. (6 + int i, 10, entry_line i (fst (leaderboard_entry res i)) (snd (leaderboard_entry res i)))) [0..<min n 6] @
       [(12, 10, ''Total players: '' @ show_int (int n))]"
proof -
  let ?line = "\<lambda>i. Print (Y_OPTIONS_START + 2 + int i) X_DEFAULT_POS (entry_line i (fst (leaderboard_entry res i)) (snd (leaderboard_entry res i)))"
  have "leaderboard_lines res [0..<min n 6] = Some (map ?line [0..<min n 6])"
    by (rule leaderboard_lines_ok) (use assms(1,5) in auto)
  then have "leaderboard_screen res = Some (
       [Print Y_TITLE X_DEFAULT_POS ''=== LEADERBOARD ==='',
        Print Y_OPTIONS_START X_DEFAULT_POS ''Rank  Username         Score'',
        Print (Y_OPTIONS_START + 1) X_DEFAULT_POS ''----  --------         -----''] @ map ?line [0..<min n 6] @
       [Print (Y_STATUS_MSG - 1) X_DEFAULT_POS (''Total players: '' @ show_int (int n))] @ [Refresh])"
    using assms(2-4) by (cases "6 < n"; cases "n < 10") (simp_all add: leaderboard_screen_def Let_def min_def)
  then show ?thesis by (simp add: List.map_filter_def comp_def)
qed

theorem leaderboard_shows_six_witness:
  "\<exists>ds. leaderboard_screen (enc_int 1 @ replicate (LEADERBOARD_SIZE - 4) NUL) = Some ds
     \<and> (12, 10, ''Total players: '' @ show_int 1) \<in> set (List.map_filter printed ds)"
proof -
  let ?res = "enc_int 1 @ replicate (LEADERBOARD_SIZE - 4) NUL"
  have n: "leaderboard_count ?res = int 1" by (simp add: leaderboard_count_def in_int32_def)
  have nul: "\<forall>i < 1. NUL \<in> set (take MAX_ID_LEN (drop (4 + ENTRY_SIZE * i) ?res))" by simp
  have len: "length ?res = LEADERBOARD_SIZE" by simp
  obtain ds where ds: "leaderboard_screen ?res = Some ds"
    "List.map_filter printed ds =
       [(2, 10, ''=== LEADERBOARD ===''), (4, 10, ''Rank  Username         Score''), (5, 10, ''----  --------         -----'')] @
       map (\<lambda>i. (6 + int i, 10, entry_line i (fst (leaderboard_entry ?res i)) (snd (leaderboard_entry ?res i)))) [0..<min 1 6] @
       [(12, 10, ''Total players: '' @ show_int (int 1))]"
    using leaderboard_shows_six [OF len n _ _ nul] by auto
  have "(12, 10, ''Total players: '' @ show_int 1) \<in> set (List.map_filter printed ds)" unfolding ds(2) by simp
  then show ?thesis using ds(1) by blast
qed

text \<open>
  On both pages of the help the prompt at the bottom is printed over a heading of the page, in the same row
  and column, and the rest of that row is cleared.
\<close>

theorem help_prompt_hides_heading:
  assumes "net_sig (cl_net c) = []" "\<not> cl_exit c" "cl_sigs c = []" "cl_keys c = k # ks" "k \<noteq> KEY_ERR"
  shows "\<exists>c1 c2 ds. show_page_1 col c = Done () c1
    \<and> cl_draws c1 = cl_draws c @ page_1 col @ Print 15 10 ''Press any key for next page (2/2)...'' # Clrtoeol # ds
    \<and> Print 15 10 ''WORD TYPES:'' \<in> set (page_1 col)
    \<and> show_page_2 c = Done () c2
    \<and> Print 15 10 ''STRATEGY TIPS:'' \<in> set page_2
    \<and> cl_draws c2 = cl_draws c @ page_2 @ Print 15 10 ''Press any key to return to the main menu...'' # Clrtoeol # ds"
proof -
  have wait: "\<exists>c'. wait_for_key_or_signal 15 10 prompt d = Done () c' \<and> cl_draws c' = cl_draws d @ [Print 15 10 prompt, Clrtoeol, Refresh]"
    if "net_sig (cl_net d) = []" "\<not> cl_exit d" "cl_sigs d = []" "cl_keys d = k # ks" for d prompt
  proof -
    let ?d = "d\<lparr>cl_draws := cl_draws d @ [Print 15 10 prompt, Clrtoeol, Refresh]\<rparr>"
    have "read_game_exit ?d = Done False ?d" using that by (cases d) (simp add: read_game_exit_def)
    moreover have "read_sigint ?d = Done False ?d" using that by (simp add: read_sigint_none)
    ultimately have "wait_loop ?d = Done () (?d\<lparr>cl_keys := ks\<rparr>)"
      using that(4) assms(5) by (subst wait_loop.simps) simp
    then show ?thesis by (simp add: wait_for_key_or_signal_def)
  qed
  obtain c1 where "wait_for_key_or_signal 15 10 ''Press any key for next page (2/2)...'' (c\<lparr>cl_draws := cl_draws c @ page_1 col\<rparr>) = Done () c1"
      "cl_draws c1 = (cl_draws c @ page_1 col) @ [Print 15 10 ''Press any key for next page (2/2)...'', Clrtoeol, Refresh]"
    using wait [of "c\<lparr>cl_draws := cl_draws c @ page_1 col\<rparr>"] assms(1-4) by fastforce
  moreover obtain c2 where "wait_for_key_or_signal 15 10 ''Press any key to return to the main menu...'' (c\<lparr>cl_draws := cl_draws c @ page_2\<rparr>) = Done () c2"
      "cl_draws c2 = (cl_draws c @ page_2) @ [Print 15 10 ''Press any key to return to the main menu...'', Clrtoeol, Refresh]"
    using wait [of "c\<lparr>cl_draws := cl_draws c @ page_2\<rparr>"] assms(1-4) by fastforce
  moreover have "Print 15 10 ''WORD TYPES:'' \<in> set (page_1 col)" "Print 15 10 ''STRATEGY TIPS:'' \<in> set page_2"
    by (simp_all add: page_1_def page_2_def)
  ultimately show ?thesis by (intro exI [of _ c1] exI [of _ c2] exI [of _ "[Refresh]"]) (simp add: show_page_1_def show_page_2_def)
qed

theorem help_prompt_hides_heading_witness:
  "\<exists>c1. show_page_1 True (idle_client [32] [] []) = Done () c1 \<and> Print 15 10 ''WORD TYPES:'' \<in> set (page_1 True)"
  using help_prompt_hides_heading [of "idle_client [32] [] []" 32 "[]" True] by auto

end
