(* ===== verification/Game_Threads.thy ===== *)
theory Game_Threads
  imports Game_Logic
begin

text \<open>
  The game as its threads run it: the main thread and one thread per word interleave at the sections
  under \<open>words_mutex\<close> and \<open>game_state_mutex\<close>. What holds of every run, how the threads end, what goes
  wrong when a word's thread ends late, and the locking of \<open>safe_game_cleanup\<close>.
\<close>

section \<open>The step relations\<close>

text \<open>
  Where a word's thread stands in its loop: at the top; behind the look at the signal flags; with the value
  of \<open>active\<close> it read; about to look at the clock; with the answer whether a drop is due and the time it
  read; about to take its last section; past it.
\<close>

datatype thread_pc =
    Not_started | Loop_top | Flags_read | Active_read bool | Clock | Due bool int | Leaving | Ended

text \<open>The main thread: in its loop; about to look for the submitted word; between a hit and its award; about to spawn.\<close>

datatype main_pc = Main_loop | Main_submit | Main_award word_type string | Main_spawn

record play =
  pl_game :: game
  pl_pc :: "nat \<Rightarrow> thread_pc"
  pl_last :: "nat \<Rightarrow> int"
  pl_main :: main_pc

definition set_pc :: "nat \<Rightarrow> thread_pc \<Rightarrow> play \<Rightarrow> play" where
  "set_pc i pc P = P\<lparr>pl_pc := (pl_pc P)(i := pc)\<rparr>"

definition set_game :: "game \<Rightarrow> play \<Rightarrow> play" where
  "set_game g P = P\<lparr>pl_game := g\<rparr>"

definition set_main :: "main_pc \<Rightarrow> play \<Rightarrow> play" where
  "set_main m P = P\<lparr>pl_main := m\<rparr>"

inductive word_step :: "nat \<Rightarrow> play \<Rightarrow> play \<Rightarrow> bool" where
  w_flags: "pl_pc P i = Loop_top \<Longrightarrow>
    word_step i P (set_pc i Flags_read (set_game (if sig then (pl_game P)\<lparr>g_over := True\<rparr> else pl_game P) P))"
| w_active: "pl_pc P i = Flags_read \<Longrightarrow>
    word_step i P (set_pc i (Active_read (w_active (g_words (pl_game P) ! i))) P)"
| w_over: "pl_pc P i = Active_read b \<Longrightarrow>
    word_step i P (set_pc i (if \<not> b \<or> g_over (pl_game P) then Leaving else Clock) P)"
| w_clock: "pl_pc P i = Clock \<Longrightarrow>
    word_step i P (set_pc i (Due (drop_interval (w_type (g_words (pl_game P) ! i)) (pl_game P) \<le> now - pl_last P i) now) P)"
| w_drop: "pl_pc P i = Due True now \<Longrightarrow>
    word_step i P (set_pc i Loop_top (set_game (drop_word i (pl_game P)) P)\<lparr>pl_last := (pl_last P)(i := now)\<rparr>)"
| w_wait: "pl_pc P i = Due False now \<Longrightarrow> word_step i P (set_pc i Loop_top P)"
| w_finish: "pl_pc P i = Leaving \<Longrightarrow>
    word_step i P (set_pc i Ended (set_game (finish_word i (pl_game P)) P))"

text \<open>
  The main thread. \<open>m_reap\<close> is \<open>cleanup_finished_threads\<close>: every thread it joins has ended or is about to
  return. A key that submits is looked up in a section of its own (\<open>m_miss\<close> or \<open>m_hit\<close>), and a hit is
  awarded in another (\<open>m_award\<close>).
\<close>

definition submits :: "int \<Rightarrow> game \<Rightarrow> bool" where
  "submits ch g \<longleftrightarrow> \<not> g_over g \<and> (ch = 10 \<or> ch = 32) \<and> g_input g \<noteq> []"

inductive main_step :: "play \<Rightarrow> play \<Rightarrow> bool" where
  m_signal: "pl_main P = Main_loop \<Longrightarrow> main_step P (set_game ((pl_game P)\<lparr>g_over := True\<rparr>) P)"
| m_key: "pl_main P = Main_loop \<Longrightarrow> \<not> submits ch (pl_game P) \<Longrightarrow>
    main_step P (set_game (process_game_input ch (pl_game P)) P)"
| m_submit: "pl_main P = Main_loop \<Longrightarrow> submits ch (pl_game P) \<Longrightarrow> main_step P (set_main Main_submit P)"
| m_miss: "pl_main P = Main_submit \<Longrightarrow>
    pick_target (g_input (pl_game P)) 0 3 (-1) None (g_words (pl_game P)) = None \<Longrightarrow>
    main_step P (set_main Main_loop (set_game ((pl_game P)\<lparr>g_input := []\<rparr>) P))"
| m_hit: "pl_main P = Main_submit \<Longrightarrow>
    pick_target (g_input (pl_game P)) 0 3 (-1) None (g_words (pl_game P)) = Some i \<Longrightarrow>
    main_step P (set_main (Main_award (w_type (g_words (pl_game P) ! i)) (w_text (g_words (pl_game P) ! i)))
      (set_game (hit_word i (pl_game P)) P))"
| m_award: "pl_main P = Main_award t tx \<Longrightarrow>
    main_step P (set_main Main_loop (set_game ((award t tx (pl_game P))\<lparr>g_input := []\<rparr>) P))"
| m_can_spawn: "pl_main P = Main_loop \<Longrightarrow> \<not> g_over (pl_game P) \<Longrightarrow> main_step P (set_main Main_spawn P)"
| m_spawn: "pl_main P = Main_spawn \<Longrightarrow> spawn_word rs m c (pl_game P) = (slot, g) \<Longrightarrow>
    main_step P (set_main Main_loop (set_game g
      (case slot of None \<Rightarrow> P | Some i \<Rightarrow> (set_pc i Loop_top P)\<lparr>pl_last := (pl_last P)(i := now)\<rparr>)))"
| m_reap: "pl_main P = Main_loop \<Longrightarrow>
    main_step P (set_game (cleanup_finished_threads (pl_game P))
      (P\<lparr>pl_pc := (\<lambda>i. if i < MAX_WORDS \<and> w_thread (g_words (pl_game P) ! i) \<and> w_to_remove (g_words (pl_game P) ! i)
                     then Not_started else pl_pc P i)\<rparr>))"

inductive_cases main_stepE: "main_step P Q"
inductive_cases word_stepE: "word_step i P Q"

definition play_step :: "play \<Rightarrow> play \<Rightarrow> bool" where
  "play_step P Q \<longleftrightarrow> main_step P Q \<or> (\<exists>i < MAX_WORDS. word_step i P Q)"

definition start_play :: "int \<Rightarrow> int \<Rightarrow> game \<Rightarrow> play" where
  "start_play sh sw g = \<lparr>pl_game = start_game sh sw g, pl_pc = (\<lambda>_. Not_started), pl_last = (\<lambda>_. 0), pl_main = Main_loop\<rparr>"

lemma play_simps [simp]:
  "pl_game (set_pc i pc P) = pl_game P" "pl_pc (set_pc i pc P) = (pl_pc P)(i := pc)"
  "pl_main (set_pc i pc P) = pl_main P" "pl_last (set_pc i pc P) = pl_last P"
  "pl_game (set_game g P) = g" "pl_pc (set_game g P) = pl_pc P" "pl_main (set_game g P) = pl_main P"
  "pl_last (set_game g P) = pl_last P"
  "pl_game (set_main m P) = pl_game P" "pl_pc (set_main m P) = pl_pc P" "pl_main (set_main m P) = m"
  "pl_last (set_main m P) = pl_last P"
  by (simp_all add: set_pc_def set_game_def set_main_def)

section \<open>The invariant of every run\<close>

definition running :: "thread_pc \<Rightarrow> bool" where
  "running pc \<longleftrightarrow> pc \<noteq> Not_started \<and> pc \<noteq> Ended"

text \<open>A slot has a live thread exactly while its thread runs, and a thread to be joined has ended.\<close>

definition thread_ok :: "word \<Rightarrow> thread_pc \<Rightarrow> bool" where
  "thread_ok w pc \<longleftrightarrow> (w_thread w \<and> \<not> w_to_remove w \<longleftrightarrow> running pc)
     \<and> (w_thread w \<and> w_to_remove w \<longrightarrow> pc = Ended)"

definition play_inv :: "play \<Rightarrow> bool" where
  "play_inv P \<longleftrightarrow> game_inv (pl_game P)
     \<and> (\<forall>i < MAX_WORDS. thread_ok (g_words (pl_game P) ! i) (pl_pc P i))"

lemma play_inv_len: "play_inv P \<Longrightarrow> length (g_words (pl_game P)) = MAX_WORDS"
  by (simp add: play_inv_def game_inv_def)

text \<open>Operations on one slot keep the other slots, and the thread and mark of their own as said.\<close>

lemma drop_word_slots:
  assumes "i < length (g_words g)"
  shows "w_thread (g_words (drop_word i g) ! j) = w_thread (g_words g ! j)"
    and "w_to_remove (g_words (drop_word i g) ! j) = w_to_remove (g_words g ! j)"
  using assms by (cases "j = i"; simp add: drop_word_def Let_def)+

lemma hit_word_slots:
  assumes "i < length (g_words g)"
  shows "w_thread (g_words (hit_word i g) ! j) = w_thread (g_words g ! j)"
    and "w_to_remove (g_words (hit_word i g) ! j) = w_to_remove (g_words g ! j)"
  using assms by (cases "j = i"; simp add: hit_word_def)+

lemma finish_word_slots:
  assumes "i < length (g_words g)"
  shows "w_thread (g_words (finish_word i g) ! j) = w_thread (g_words g ! j)"
    and "w_to_remove (g_words (finish_word i g) ! j) = (j = i \<or> w_to_remove (g_words g ! j))"
  using assms by (cases "j = i"; simp add: finish_word_def Let_def)+

lemma thread_ok_cong:
  "thread_ok w pc \<Longrightarrow> w_thread w' = w_thread w \<Longrightarrow> w_to_remove w' = w_to_remove w \<Longrightarrow>
   running pc' = running pc \<Longrightarrow> (pc = Ended \<longrightarrow> pc' = Ended) \<Longrightarrow> thread_ok w' pc'"
  by (simp add: thread_ok_def)

lemma spawn_word_place:
  assumes "spawn_word rs m c g = (slot, g')"
    "wm_is_initialized (g_manager g)" "wm_words (g_manager g) \<noteq> []" "free_slot_from 0 (g_words g) = Some i"
  obtains w where "slot = (if c then Some i else None)" "g_words g' = (g_words g)[i := w]"
    "w_thread w = c" "\<not> w_to_remove w"
proof -
  obtain pick n where p: "pick_word rs (wm_words (g_manager g)) (g_table g) 0 = (pick, n)" by fastforce
  obtain x n' where x: "(if int (length (strncpy_str MAX_WORD_LEN pick)) < g_width g
      then (int (rs n) mod (g_width g - int (length (strncpy_str MAX_WORD_LEN pick)) + 1), Suc n) else (0, n)) = (x, n')"
    by fastforce
  show thesis
    by (rule that [of "\<lparr>w_text = strncpy_str MAX_WORD_LEN pick, w_x = x, w_y = 0, w_active = c, w_to_remove = False,
          w_type = spawn_type (rs n') (rs (Suc n')), w_thread = c\<rparr>"];
        use assms p x in \<open>auto simp: spawn_word_def Let_def split: if_splits\<close>)
qed

lemma spawn_word_slots:
  assumes "spawn_word rs m c g = (slot, g')" "length (g_words g) = MAX_WORDS"
  shows "(slot = None \<and> g' = g) \<or>
    (\<exists>i < MAX_WORDS. (\<not> w_thread (g_words g ! i) \<or> w_to_remove (g_words g ! i)) \<and>
       (\<exists>w. slot = (if c then Some i else None) \<and> g_words g' = (g_words g)[i := w] \<and> w_thread w = c \<and> \<not> w_to_remove w))"
proof (cases "\<not> wm_is_initialized (g_manager g) \<or> wm_words (g_manager g) = [] \<or> free_slot_from 0 (g_words g) = None")
  case True
  then have "spawn_word rs m c g = (None, g)" by (auto simp: spawn_word_def)
  then show ?thesis using assms(1) by simp
next
  case False
  then obtain i where i: "free_slot_from 0 (g_words g) = Some i"
    and m: "wm_is_initialized (g_manager g)" "wm_words (g_manager g) \<noteq> []" by auto
  have "i < MAX_WORDS" "\<not> w_thread (g_words g ! i) \<or> w_to_remove (g_words g ! i)"
    using free_slot_from_Some [OF i] assms(2) by auto
  moreover obtain w where "slot = (if c then Some i else None)" "g_words g' = (g_words g)[i := w]"
    "w_thread w = c" "\<not> w_to_remove w" by (rule spawn_word_place [OF assms(1) m i])
  ultimately show ?thesis by blast
qed

lemma cleanup_finished_slots:
  assumes "length (g_words g) = MAX_WORDS" "i < MAX_WORDS"
  shows "g_words (cleanup_finished_threads g) ! i = reaped (g_words g ! i)"
  using assms by (simp add: cleanup_finished_threads_def)

lemma process_game_input_slots:
  assumes "\<not> submits ch g"
  shows "g_words (process_game_input ch g) = g_words g" "g_over (process_game_input ch g) = g_over g"
    "g_table (process_game_input ch g) = g_table g"
  using assms by (auto simp: process_game_input_def submits_def edit_input_def)

lemma word_step_inv:
  assumes "word_step i P Q" "play_inv P" "i < MAX_WORDS"
  shows "play_inv Q"
proof -
  have g: "game_inv (pl_game P)" and t: "\<And>j. j < MAX_WORDS \<Longrightarrow> thread_ok (g_words (pl_game P) ! j) (pl_pc P j)"
    and len: "i < length (g_words (pl_game P))"
    using assms(2,3) play_inv_len [OF assms(2)] by (auto simp: play_inv_def)
  from assms(1) show ?thesis
  proof cases
    case (w_flags sig)
    then show ?thesis using g t [of i] t by (auto simp: play_inv_def thread_ok_def running_def game_inv_score)
  next
    case (w_drop now)
    then show ?thesis using drop_word_inv [OF g assms(3)] t [of i] t
      by (auto simp: play_inv_def thread_ok_def running_def drop_word_slots [OF len])
  next
    case w_finish
    then show ?thesis using finish_word_inv [OF g assms(3)] t [of i] t
      by (auto simp: play_inv_def thread_ok_def running_def finish_word_slots [OF len])
  qed (use g t [of i] t in \<open>auto simp: play_inv_def thread_ok_def running_def\<close>)
qed

lemma main_step_inv:
  assumes "main_step P Q" "play_inv P"
  shows "play_inv Q"
proof -
  have g: "game_inv (pl_game P)" and t: "\<And>j. j < MAX_WORDS \<Longrightarrow> thread_ok (g_words (pl_game P) ! j) (pl_pc P j)"
    and len: "length (g_words (pl_game P)) = MAX_WORDS"
    using assms(2) play_inv_len [OF assms(2)] by (auto simp: play_inv_def)
  from assms(1) show ?thesis
  proof cases
    case m_signal
    then show ?thesis using g t by (auto simp: play_inv_def game_inv_score)
  next
    case (m_key ch)
    then show ?thesis using process_game_input_inv [OF g] t
      by (auto simp: play_inv_def process_game_input_slots)
  next
    case m_miss
    then show ?thesis using game_inv_typing [OF g, of "[]"] t by (auto simp: play_inv_def)
  next
    case (m_hit i)
    then have i: "i < MAX_WORDS" using pick_target_Some [of _ 0] len by fastforce
    then show ?thesis using m_hit hit_word_inv [OF g i] t len
      by (auto simp: play_inv_def thread_ok_def hit_word_slots)
  next
    case (m_award t' tx)
    then show ?thesis using game_inv_typing [OF award_inv [OF g], of "[]"] t by (auto simp: play_inv_def)
  next
    case (m_spawn rs m c slot g' now)
    have g': "game_inv g'" using spawn_word_inv [OF g, of rs m c] m_spawn by simp
    from spawn_word_slots [OF m_spawn(3) len] show ?thesis
    proof
      assume "slot = None \<and> g' = pl_game P"
      then show ?thesis using m_spawn(1) g t by (auto simp: play_inv_def)
    next
      assume "\<exists>i < MAX_WORDS. (\<not> w_thread (g_words (pl_game P) ! i) \<or> w_to_remove (g_words (pl_game P) ! i)) \<and>
        (\<exists>w. slot = (if c then Some i else None) \<and> g_words g' = (g_words (pl_game P))[i := w] \<and> w_thread w = c \<and> \<not> w_to_remove w)"
      then obtain i w where w: "i < MAX_WORDS" "\<not> w_thread (g_words (pl_game P) ! i) \<or> w_to_remove (g_words (pl_game P) ! i)"
        "slot = (if c then Some i else None)" "g_words g' = (g_words (pl_game P))[i := w]" "w_thread w = c" "\<not> w_to_remove w" by blast
      have "thread_ok (g_words g' ! j) (pl_pc Q j)" if "j < MAX_WORDS" for j
        using t [OF that] w len m_spawn(1) by (cases c; cases "j = i") (auto simp: thread_ok_def running_def)
      then show ?thesis using g' m_spawn(1) by (cases slot) (auto simp: play_inv_def)
    qed
  next
    case m_reap
    have "thread_ok (g_words (pl_game Q) ! j) (pl_pc Q j)" if "j < MAX_WORDS" for j
      using t [OF that] that len unfolding m_reap
      by (auto simp: cleanup_finished_slots thread_ok_def reaped_def running_def)
    then show ?thesis using cleanup_inv [OF g] m_reap(1) by (auto simp: play_inv_def)
  qed (use g t in \<open>auto simp: play_inv_def\<close>)
qed

interpretation played: preserved play_step play_inv
  by unfold_locales (auto simp: play_step_def intro: main_step_inv word_step_inv)

lemma start_play_inv:
  assumes "0 < fst (game_area sh sw)"
  shows "play_inv (start_play sh sw g)"
proof -
  have "g_words (start_game sh sw g) = replicate MAX_WORDS empty_slot"
    by (simp add: start_game_def split: prod.splits)
  then show ?thesis using start_game_inv [OF assms]
    by (simp add: play_inv_def start_play_def thread_ok_def running_def empty_slot_def)
qed

section \<open>The size of the field during a game\<close>

lemma word_step_size: "word_step i P Q \<Longrightarrow> g_height (pl_game Q) = g_height (pl_game P) \<and> g_width (pl_game Q) = g_width (pl_game P)"
  by (cases rule: word_step.cases) (auto simp: drop_word_def finish_word_def Let_def)

lemma process_game_input_size:
  "g_height (process_game_input ch g) = g_height g \<and> g_width (process_game_input ch g) = g_width g"
  by (simp add: process_game_input_def edit_input_def award_def hit_word_def split: option.split)

lemma spawn_word_size:
  "g_height (snd (spawn_word rs m c g)) = g_height g \<and> g_width (snd (spawn_word rs m c g)) = g_width g"
  by (simp add: spawn_word_def Let_def split: option.split prod.split)

lemma main_step_size:
  assumes "main_step P Q"
  shows "g_height (pl_game Q) = g_height (pl_game P) \<and> g_width (pl_game Q) = g_width (pl_game P)"
  using assms
proof cases
  case (m_spawn rs m c slot g now)
  then show ?thesis using spawn_word_size [of rs m c "pl_game P"] by simp
qed (auto simp: process_game_input_size award_def hit_word_def cleanup_finished_threads_def)

definition size_inv :: "int \<Rightarrow> int \<Rightarrow> play \<Rightarrow> bool" where
  "size_inv sh sw P \<longleftrightarrow> (g_height (pl_game P), g_width (pl_game P)) = game_area sh sw"

interpretation sized: preserved play_step "size_inv sh sw" for sh sw
  by unfold_locales (auto simp: play_step_def size_inv_def dest: main_step_size word_step_size)

lemma start_play_size: "size_inv sh sw (start_play sh sw g)"
  by (simp add: size_inv_def start_play_def start_game_def split: prod.split)

text \<open>
  Claim C5. However the main thread and the word threads interleave, in every state of a game on a screen that is
  high enough the lives are between 0 and 5 and are used up only when the game is over, the score is not
  negative, every word on the screen is within the field (in a row of it, starting in a column of it, and, if
  the field is as wide as the word, also ending in one) and has a running thread of its own, and the table
  of active words names only words that are on the screen.
\<close>

theorem every_interleaving_keeps_game:
  assumes "0 < fst (game_area sh sw)" "play_step\<^sup>*\<^sup>* (start_play sh sw g) P"
  shows "0 \<le> g_lives (pl_game P) \<and> g_lives (pl_game P) \<le> INITIAL_LIVES
    \<and> (g_lives (pl_game P) = 0 \<longrightarrow> g_over (pl_game P)) \<and> 0 \<le> g_score (pl_game P)
    \<and> (\<forall>i < MAX_WORDS. w_active (g_words (pl_game P) ! i) \<longrightarrow>
       0 \<le> w_y (g_words (pl_game P) ! i) \<and> w_y (g_words (pl_game P) ! i) < fst (game_area sh sw)
       \<and> 0 \<le> w_x (g_words (pl_game P) ! i)
       \<and> (int (length (w_text (g_words (pl_game P) ! i))) \<le> snd (game_area sh sw) \<longrightarrow>
            w_x (g_words (pl_game P) ! i) + int (length (w_text (g_words (pl_game P) ! i))) \<le> snd (game_area sh sw))
       \<and> running (pl_pc P i))
    \<and> (\<forall>tx. is_word_in_active_table (Some tx) (g_table (pl_game P)) \<longrightarrow> tx \<in> texts_on_screen (pl_game P))"
proof (intro conjI)
  have inv: "play_inv P" by (rule played.inv_steps [OF assms(2) start_play_inv [OF assms(1)]])
  then have g: "game_inv (pl_game P)" by (simp add: play_inv_def)
  have "size_inv sh sw P" by (rule sized.inv_steps [OF assms(2) start_play_size])
  then have size: "g_height (pl_game P) = fst (game_area sh sw)" "g_width (pl_game P) = snd (game_area sh sw)"
    by (simp_all add: size_inv_def prod_eq_iff)
  show "0 \<le> g_lives (pl_game P)" "g_lives (pl_game P) \<le> INITIAL_LIVES"
    "g_lives (pl_game P) = 0 \<longrightarrow> g_over (pl_game P)" "0 \<le> g_score (pl_game P)"
    using g by (simp_all add: game_inv_def)
  show "\<forall>i < MAX_WORDS. w_active (g_words (pl_game P) ! i) \<longrightarrow>
       0 \<le> w_y (g_words (pl_game P) ! i) \<and> w_y (g_words (pl_game P) ! i) < fst (game_area sh sw)
       \<and> 0 \<le> w_x (g_words (pl_game P) ! i)
       \<and> (int (length (w_text (g_words (pl_game P) ! i))) \<le> snd (game_area sh sw) \<longrightarrow>
            w_x (g_words (pl_game P) ! i) + int (length (w_text (g_words (pl_game P) ! i))) \<le> snd (game_area sh sw))
       \<and> running (pl_pc P i)"
    using inv game_inv_slot [OF g, unfolded size] by (auto simp: play_inv_def thread_ok_def slot_ok_def)
  show "\<forall>tx. is_word_in_active_table (Some tx) (g_table (pl_game P)) \<longrightarrow> tx \<in> texts_on_screen (pl_game P)"
    using g by (auto simp: game_inv_def is_word_iff)
qed

section \<open>The threads end\<close>

text \<open>How many steps of its own a thread can still take once the game is over.\<close>

fun rank :: "thread_pc \<Rightarrow> nat" where
  "rank Clock = 6"
| "rank (Due b now) = 5"
| "rank Loop_top = 4"
| "rank Flags_read = 3"
| "rank (Active_read b) = 2"
| "rank Leaving = 1"
| "rank Ended = 0"
| "rank Not_started = 0"

lemma rank_running: "rank pc = 0 \<longleftrightarrow> \<not> running pc" and rank_le: "rank pc \<le> 6"
  by (cases pc; simp add: running_def)+

text \<open>A run with the steps labelled: \<open>Some i\<close> the thread of slot \<open>i\<close>, \<open>None\<close> the main thread.\<close>

inductive play_run :: "nat option list \<Rightarrow> play \<Rightarrow> play \<Rightarrow> bool" where
  r_stop: "play_run [] P P"
| r_main: "main_step P Q \<Longrightarrow> play_run ls Q R \<Longrightarrow> play_run (None # ls) P R"
| r_word: "i < MAX_WORDS \<Longrightarrow> word_step i P Q \<Longrightarrow> play_run ls Q R \<Longrightarrow> play_run (Some i # ls) P R"

lemma drop_word_over: "g_over g \<Longrightarrow> g_over (drop_word i g)"
  by (simp add: drop_word_def Let_def)

lemma finish_word_over [simp]: "g_over (finish_word i g) = g_over g"
  by (simp add: finish_word_def Let_def)

lemma word_step_over: "word_step i P Q \<Longrightarrow> g_over (pl_game P) \<Longrightarrow> g_over (pl_game Q) \<and> pl_main Q = pl_main P"
  by (cases rule: word_step.cases) (auto simp: drop_word_over)

lemma word_step_rank:
  "word_step i P Q \<Longrightarrow> g_over (pl_game P) \<Longrightarrow> Suc (rank (pl_pc Q i)) \<le> rank (pl_pc P i)"
  by (cases rule: word_step.cases) auto

lemma word_step_other: "word_step i P Q \<Longrightarrow> j \<noteq> i \<Longrightarrow> pl_pc Q j = pl_pc P j"
  by (cases rule: word_step.cases) auto

lemma running_can_move: "running (pl_pc P i) \<Longrightarrow> \<exists>Q. word_step i P Q"
proof (cases "pl_pc P i")
  case (Due b now)
  then show ?thesis by (cases b) (auto intro: word_step.intros)
qed (auto simp: running_def intro: word_step.intros)

lemma main_step_over:
  assumes "main_step P Q" "g_over (pl_game P)" "pl_main P \<noteq> Main_spawn" "play_inv P" "i < MAX_WORDS"
  shows "g_over (pl_game Q)" "pl_main Q \<noteq> Main_spawn" "rank (pl_pc Q i) = rank (pl_pc P i)"
proof -
  have t: "thread_ok (g_words (pl_game P) ! i) (pl_pc P i)" using assms(4,5) by (simp add: play_inv_def)
  show "g_over (pl_game Q)" using assms(1)
    by cases (use assms(2,3) in \<open>auto simp: process_game_input_def hit_word_def award_def cleanup_finished_threads_def\<close>)
  show "pl_main Q \<noteq> Main_spawn" using assms(1) by cases (use assms(2,3) in auto)
  show "rank (pl_pc Q i) = rank (pl_pc P i)" using assms(1)
    by cases (use assms(2,3) t in \<open>auto simp: thread_ok_def\<close>)
qed

lemma run_bounds_rank:
  assumes "play_run ls P Q" "g_over (pl_game P)" "pl_main P \<noteq> Main_spawn" "play_inv P" "i < MAX_WORDS"
  shows "count_list ls (Some i) + rank (pl_pc Q i) \<le> rank (pl_pc P i)"
  using assms
proof (induction rule: play_run.induct)
  case (r_main P Q ls R)
  then show ?case using main_step_over [OF r_main(1)] main_step_inv [OF r_main(1)] by simp
next
  case (r_word k P Q ls R)
  have "count_list ls (Some i) + rank (pl_pc R i) \<le> rank (pl_pc Q i)"
    using r_word word_step_over [OF r_word(2)] word_step_inv [OF r_word(2)] by simp
  then show ?case using word_step_rank [OF r_word(2)] word_step_other [OF r_word(2)] r_word.prems
    by (cases "k = i") auto
qed simp

text \<open>
  Claim C19. Once the game is over and no spawn is under way, every word thread ends: whatever the other threads
  do, the thread of a slot takes at most six more steps of its own, and as long as it has not ended it can take
  the next one (it waits for no condition but the two mutexes).\<close>

theorem threads_end_after_game_over:
  assumes "0 < fst (game_area sh sw)" "play_step\<^sup>*\<^sup>* (start_play sh sw g) P"
    "g_over (pl_game P)" "pl_main P \<noteq> Main_spawn" "i < MAX_WORDS" "play_run ls P Q"
  shows "count_list ls (Some i) + rank (pl_pc Q i) \<le> rank (pl_pc P i) \<and> rank (pl_pc P i) \<le> 6
    \<and> (rank (pl_pc Q i) \<noteq> 0 \<longleftrightarrow> (\<exists>R. word_step i Q R)) \<and> (rank (pl_pc Q i) = 0 \<longleftrightarrow> \<not> running (pl_pc Q i))"
proof (intro conjI)
  have inv: "play_inv P" by (rule played.inv_steps [OF assms(2) start_play_inv [OF assms(1)]])
  show "count_list ls (Some i) + rank (pl_pc Q i) \<le> rank (pl_pc P i)"
    by (rule run_bounds_rank [OF assms(6,3,4) inv assms(5)])
  show "rank (pl_pc Q i) \<noteq> 0 \<longleftrightarrow> (\<exists>R. word_step i Q R)"
    using running_can_move by (auto simp: rank_running running_def elim: word_stepE)
qed (fact rank_le rank_running)+

section \<open>Runs\<close>

lemma run_main: "play_step\<^sup>*\<^sup>* A P \<Longrightarrow> main_step P Q \<Longrightarrow> play_step\<^sup>*\<^sup>* A Q"
  by (rule rtranclp.rtrancl_into_rtrancl) (auto simp: play_step_def)

lemma run_word: "play_step\<^sup>*\<^sup>* A P \<Longrightarrow> i < MAX_WORDS \<Longrightarrow> word_step i P Q \<Longrightarrow> play_step\<^sup>*\<^sup>* A Q"
  by (rule rtranclp.rtrancl_into_rtrancl) (auto simp: play_step_def)

lemma run_spawn:
  assumes "play_step\<^sup>*\<^sup>* A P" "pl_main P = Main_loop" "\<not> g_over (pl_game P)" "fst (spawn_word rs m c (pl_game P)) = Some i"
  shows "\<exists>Q. play_step\<^sup>*\<^sup>* A Q \<and> pl_game Q = snd (spawn_word rs m c (pl_game P)) \<and> pl_main Q = Main_loop
    \<and> pl_pc Q = (pl_pc P)(i := Loop_top)"
proof -
  let ?Q = "set_main Main_loop (set_game (snd (spawn_word rs m c (pl_game P)))
      ((set_pc i Loop_top (set_main Main_spawn P))\<lparr>pl_last := (pl_last P)(i := 0)\<rparr>))"
  have "main_step (set_main Main_spawn P) ?Q"
    using m_spawn [of "set_main Main_spawn P" rs m c "Some i" "snd (spawn_word rs m c (pl_game P))" 0] assms(4)
    by (auto simp: prod_eq_iff)
  then have "play_step\<^sup>*\<^sup>* A ?Q" by (rule run_main [OF run_main [OF assms(1) m_can_spawn [OF assms(2,3)]]])
  then show ?thesis by (intro exI [of _ ?Q]) simp
qed

lemma run_keys:
  assumes "play_step\<^sup>*\<^sup>* A P" "pl_main P = Main_loop" "\<forall>ch \<in> set chs. ch \<noteq> 10 \<and> ch \<noteq> 32"
  shows "\<exists>Q. play_step\<^sup>*\<^sup>* A Q \<and> pl_game Q = fold process_game_input chs (pl_game P) \<and> pl_main Q = Main_loop \<and> pl_pc Q = pl_pc P"
  using assms
proof (induction chs arbitrary: P)
  case (Cons ch chs)
  let ?Q = "set_game (process_game_input ch (pl_game P)) P"
  have "main_step P ?Q" using Cons.prems by (intro m_key) (auto simp: submits_def)
  then have "play_step\<^sup>*\<^sup>* A ?Q" by (rule run_main [OF Cons.prems(1)])
  then show ?case using Cons.IH [of ?Q] Cons.prems by simp
qed auto

lemma run_submit:
  assumes "play_step\<^sup>*\<^sup>* A P" "pl_main P = Main_loop" "submits 10 (pl_game P)"
    "pick_target (g_input (pl_game P)) 0 3 (-1) None (g_words (pl_game P)) = Some i"
  shows "\<exists>Q. play_step\<^sup>*\<^sup>* A Q \<and> pl_game Q = process_game_input 10 (pl_game P) \<and> pl_main Q = Main_loop \<and> pl_pc Q = pl_pc P"
proof -
  let ?Q = "set_main Main_submit P"
  let ?R = "set_main (Main_award (w_type (g_words (pl_game P) ! i)) (w_text (g_words (pl_game P) ! i)))
      (set_game (hit_word i (pl_game P)) ?Q)"
  have "play_step\<^sup>*\<^sup>* A ?Q" by (rule run_main [OF assms(1) m_submit [OF assms(2,3)]])
  moreover have "main_step ?Q ?R" using m_hit [of ?Q i] assms(4) by simp
  ultimately have "play_step\<^sup>*\<^sup>* A ?R" by (rule run_main)
  from run_main [OF this m_award] have "play_step\<^sup>*\<^sup>* A (set_main Main_loop (set_game ((award (w_type (g_words (pl_game P) ! i))
      (w_text (g_words (pl_game P) ! i)) (pl_game ?R))\<lparr>g_input := []\<rparr>) ?R))" by simp
  moreover have "process_game_input 10 (pl_game P) = (award (w_type (g_words (pl_game P) ! i))
      (w_text (g_words (pl_game P) ! i)) (hit_word i (pl_game P)))\<lparr>g_input := []\<rparr>"
    using assms(3,4) by (simp add: process_game_input_def submits_def)
  ultimately show ?thesis by fastforce
qed

text \<open>The thread of a word that was hit comes to its last section.\<close>

lemma run_leaving:
  assumes "play_step\<^sup>*\<^sup>* A P" "i < MAX_WORDS" "pl_pc P i = Loop_top" "\<not> w_active (g_words (pl_game P) ! i)"
  shows "play_step\<^sup>*\<^sup>* A (set_pc i Leaving P)"
proof -
  let ?P1 = "set_pc i Flags_read (set_game (pl_game P) P)"
  let ?P2 = "set_pc i (Active_read False) ?P1"
  let ?P3 = "set_pc i Leaving ?P2"
  have "word_step i P ?P1" using w_flags [of P i False] assms(3) by simp
  with assms(1,2) have "play_step\<^sup>*\<^sup>* A ?P1" by (rule run_word)
  moreover have "word_step i ?P1 ?P2" using w_active [of ?P1 i] assms(4) by simp
  ultimately have "play_step\<^sup>*\<^sup>* A ?P2" using assms(2) run_word by blast
  moreover have "word_step i ?P2 ?P3" using w_over [of ?P2 i False] by simp
  ultimately have "play_step\<^sup>*\<^sup>* A ?P3" using assms(2) run_word by blast
  moreover have "?P3 = set_pc i Leaving P" by (simp add: set_pc_def set_game_def)
  ultimately show ?thesis by simp
qed

text \<open>Concrete values: a stock of two words, and random numbers that pick the first word, and the second one if that is refused.\<close>

definition two_words :: game where
  "two_words = no_game\<lparr>g_manager := \<lparr>wm_words = [''rain'', ''snow''], wm_capacity = 100, wm_is_initialized = True\<rparr>\<rparr>"

definition first_word :: "nat \<Rightarrow> nat" where
  "first_word n = (if n = 0 then 0 else 41)"

abbreviation spawn_first :: "game \<Rightarrow> nat option \<times> game" where
  "spawn_first \<equiv> spawn_word first_word True True"

definition new_word :: "string \<Rightarrow> word" where
  "new_word tx = \<lparr>w_text = tx, w_x = 41, w_y = 0, w_active = True, w_to_remove = False, w_type = WORD_NORMAL, w_thread = True\<rparr>"

lemma new_word_simps [simp]:
  "w_text (new_word tx) = tx" "w_active (new_word tx)" "\<not> w_to_remove (new_word tx)" "w_thread (new_word tx)"
  "w_type (new_word tx) = WORD_NORMAL"
  by (simp_all add: new_word_def)

lemma spawn_first_eq:
  assumes "g_manager g = g_manager two_words" "g_width g = 78" "active_inv (g_table g)" "free_slot_from 0 (g_words g) = Some i"
    and "active_words (g_table g) \<subseteq> {''rain''}" "tx = (if ''rain'' \<in> active_words (g_table g) then ''snow'' else ''rain'')"
  shows "spawn_first g = (Some i, g\<lparr>g_words := (g_words g)[i := new_word tx],
    g_table := snd (add_active_word True (Some tx) (g_table g))\<rparr>)"
proof -
  have m: "(41 :: nat) mod Suc (Suc 0) = Suc 0" by (simp flip: numeral_2_eq_2)
  have pick: "pick_word first_word [''rain'', ''snow''] (g_table g) 0 = (tx, if ''rain'' \<in> active_words (g_table g) then 2 else 1)"
    using assms(3,5,6) by (auto simp: pick_word.simps [of _ _ _ 0] pick_word.simps [of _ _ _ "Suc 0"] is_word_iff first_word_def Let_def m)
  show ?thesis using assms(1,2,4,6) pick
    by (auto simp: spawn_word_def two_words_def Let_def spawn_type_def first_word_def new_word_def)
qed

lemma empty_slot_simps [simp]: "\<not> w_active empty_slot" "\<not> w_thread empty_slot" "\<not> w_to_remove empty_slot"
  by (simp_all add: empty_slot_def)

lemma start_words: "g_words (start_game 24 80 g) = empty_slot # empty_slot # empty_slot # replicate 17 empty_slot"
  by (simp add: start_game_def game_area_24_80 numeral_eq_Suc)

lemma start_fields [simp]:
  "g_manager (start_game 24 80 g) = g_manager g" "g_width (start_game 24 80 g) = 78" "\<not> g_over (start_game 24 80 g)"
  "g_input (start_game 24 80 g) = []" "active_inv (g_table (start_game 24 80 g))" "active_words (g_table (start_game 24 80 g)) = {}"
  by (simp_all add: start_game_def game_area_24_80)

text \<open>The run: a word falls, is typed and hit, and falls again in the next slot before the thread of its first slot ends.\<close>

lemma respawn_run:
  obtains P where "play_step\<^sup>*\<^sup>* (start_play 24 80 two_words) P" "pl_main P = Main_loop" "pl_pc P 0 = Leaving" "g_manager (pl_game P) = g_manager two_words"
    "g_width (pl_game P) = 78" "active_inv (g_table (pl_game P))" "active_words (g_table (pl_game P)) = {''rain''}"
    "g_words (pl_game P) = (new_word ''rain'')\<lparr>w_active := False\<rparr> # new_word ''rain'' # empty_slot # replicate 17 empty_slot"
proof -
  let ?P0 = "start_play 24 80 two_words"
  let ?r = "new_word ''rain''"
  let ?ws = "empty_slot # empty_slot # replicate 17 empty_slot"
  let ?g0 = "pl_game ?P0"
  have g0: "?g0 = start_game 24 80 two_words" "pl_main ?P0 = Main_loop" by (simp_all add: start_play_def)
  have s0: "spawn_first ?g0 = (Some 0, ?g0\<lparr>g_words := (g_words ?g0)[0 := ?r], g_table := snd (add_active_word True (Some ''rain'') (g_table ?g0))\<rparr>)"
    by (rule spawn_first_eq) (simp_all add: g0 start_words)
  obtain P1 where P1: "play_step\<^sup>*\<^sup>* ?P0 P1" "pl_game P1 = snd (spawn_first ?g0)" "pl_main P1 = Main_loop" "pl_pc P1 0 = Loop_top"
    using run_spawn [of ?P0 ?P0 first_word True True 0] s0 g0 by auto
  have g1: "g_words (pl_game P1) = ?r # ?ws" "g_manager (pl_game P1) = g_manager two_words" "g_width (pl_game P1) = 78"
      "\<not> g_over (pl_game P1)" "g_input (pl_game P1) = []" "active_inv (g_table (pl_game P1))" "active_words (g_table (pl_game P1)) = {''rain''}"
    unfolding P1(2) s0 by (simp_all add: g0 start_words add_active)
  have "\<forall>c \<in> set ''rain''. typable c" by (simp add: typable_def)
  then have f: "fold process_game_input (map (\<lambda>c. int (of_char c)) ''rain'') (pl_game P1) = (pl_game P1)\<lparr>g_input := ''rain''\<rparr>"
    using g1(4,5) by (intro typing_fills_buffer) auto
  obtain P2 where P2: "play_step\<^sup>*\<^sup>* ?P0 P2" "pl_game P2 = (pl_game P1)\<lparr>g_input := ''rain''\<rparr>" "pl_main P2 = Main_loop" "pl_pc P2 0 = Loop_top"
    using run_keys [OF P1(1,3), of "map (\<lambda>c. int (of_char c)) ''rain''"] P1(4) unfolding f by auto
  have pick: "pick_target (g_input (pl_game P2)) 0 3 (-1) None (g_words (pl_game P2)) = Some 0"
    by (simp add: P2(2) g1 pick_target_inactive priority_def pick_target.simps)
  have sub: "submits 10 (pl_game P2)" by (simp add: submits_def P2(2) g1)
  obtain P3 where P3: "play_step\<^sup>*\<^sup>* ?P0 P3" "pl_game P3 = process_game_input 10 (pl_game P2)" "pl_main P3 = Main_loop" "pl_pc P3 0 = Loop_top"
    using run_submit [OF P2(1,3) sub pick] P2(4) by auto
  have g3: "g_words (pl_game P3) = ?r\<lparr>w_active := False\<rparr> # ?ws" "g_manager (pl_game P3) = g_manager two_words" "g_width (pl_game P3) = 78"
      "\<not> g_over (pl_game P3)" "active_inv (g_table (pl_game P3))" "active_words (g_table (pl_game P3)) = {}"
    using pick unfolding P3(2)
    by (simp_all add: process_game_input_def P2(2) g1 hit_word_def award_def remove_active)
  have s3: "spawn_first (pl_game P3) = (Some 1, (pl_game P3)\<lparr>g_words := (g_words (pl_game P3))[1 := ?r],
      g_table := snd (add_active_word True (Some ''rain'') (g_table (pl_game P3)))\<rparr>)"
    by (rule spawn_first_eq) (simp_all add: g3)
  obtain P4 where P4: "play_step\<^sup>*\<^sup>* ?P0 P4" "pl_game P4 = snd (spawn_first (pl_game P3))" "pl_main P4 = Main_loop" "pl_pc P4 0 = Loop_top"
    using run_spawn [OF P3(1,3) g3(4), of first_word True True 1] s3 P3(4) by auto
  have g4: "g_words (pl_game P4) = ?r\<lparr>w_active := False\<rparr> # ?r # empty_slot # replicate 17 empty_slot" "g_manager (pl_game P4) = g_manager two_words"
      "g_width (pl_game P4) = 78" "active_inv (g_table (pl_game P4))" "active_words (g_table (pl_game P4)) = {''rain''}"
    unfolding P4(2) s3 by (simp_all add: g3 add_active)
  have "play_step\<^sup>*\<^sup>* ?P0 (set_pc 0 Leaving P4)" by (rule run_leaving [OF P4(1)]) (simp_all add: P4(4) g4)
  then show thesis using that [of "set_pc 0 Leaving P4"] g4 P4(3) by simp
qed

text \<open>
  Claim C36. A word's thread that ends late takes the entry of another slot out of the table of active words: a game reaches
  a state where \<open>rain\<close> falls in slot 1 and is in the table, while the thread of slot 0, where \<open>rain\<close> was hit
  before, is about to end. Its last section removes the entry of slot 1. Random numbers that make the next spawn
  pick \<open>snow\<close> before that section make it drop a second \<open>rain\<close> after it.\<close>

theorem late_end_removes_respawned_word:
  "\<exists>P Q. play_step\<^sup>*\<^sup>* (start_play 24 80 two_words) P \<and> word_step 0 P Q
     \<and> g_words (pl_game Q) ! 1 = g_words (pl_game P) ! 1
     \<and> w_active (g_words (pl_game P) ! 1) \<and> w_text (g_words (pl_game P) ! 1) = ''rain''
     \<and> is_word_in_active_table (Some ''rain'') (g_table (pl_game P))
     \<and> \<not> is_word_in_active_table (Some ''rain'') (g_table (pl_game Q))
     \<and> (\<exists>i g. spawn_first (pl_game P) = (Some i, g) \<and> w_text (g_words g ! i) = ''snow'')
     \<and> (\<exists>i g. spawn_first (pl_game Q) = (Some i, g) \<and> w_text (g_words g ! i) = ''rain'' \<and> i \<noteq> 1)"
proof -
  obtain P where P: "play_step\<^sup>*\<^sup>* (start_play 24 80 two_words) P" "pl_pc P 0 = Leaving" "g_manager (pl_game P) = g_manager two_words"
    "g_width (pl_game P) = 78" "active_inv (g_table (pl_game P))" "active_words (g_table (pl_game P)) = {''rain''}"
    "g_words (pl_game P) = (new_word ''rain'')\<lparr>w_active := False\<rparr> # new_word ''rain'' # empty_slot # replicate 17 empty_slot"
    by (rule respawn_run)
  let ?Q = "set_pc 0 Ended (set_game (finish_word 0 (pl_game P)) P)"
  have step: "word_step 0 P ?Q" by (rule w_finish [OF P(2)])
  have Q: "g_manager (pl_game ?Q) = g_manager two_words" "g_width (pl_game ?Q) = 78" "active_inv (g_table (pl_game ?Q))"
      "active_words (g_table (pl_game ?Q)) = {}"
      "g_words (pl_game ?Q) = (new_word ''rain'')\<lparr>w_active := False, w_to_remove := True\<rparr> # new_word ''rain'' # empty_slot # replicate 17 empty_slot"
    using P(3-7) by (simp_all add: finish_word_def remove_active)
  have "spawn_first (pl_game P) = (Some 2, (pl_game P)\<lparr>g_words := (g_words (pl_game P))[2 := new_word ''snow''],
      g_table := snd (add_active_word True (Some ''snow'') (g_table (pl_game P)))\<rparr>)"
    by (rule spawn_first_eq) (simp_all add: P)
  moreover have "spawn_first (pl_game ?Q) = (Some 0, (pl_game ?Q)\<lparr>g_words := (g_words (pl_game ?Q))[0 := new_word ''rain''],
      g_table := snd (add_active_word True (Some ''rain'') (g_table (pl_game ?Q)))\<rparr>)"
    by (rule spawn_first_eq) (simp_all add: Q del: play_simps)
  ultimately show ?thesis
    using P(1) step by (intro exI [of _ P] exI [of _ ?Q]) (simp add: P(5-7) Q is_word_iff del: play_simps)
qed

theorem every_interleaving_keeps_game_witness:
  "\<exists>P. play_step\<^sup>*\<^sup>* (start_play 24 80 two_words) P \<and> w_active (g_words (pl_game P) ! 1)
     \<and> w_text (g_words (pl_game P) ! 1) = ''rain''
     \<and> w_y (g_words (pl_game P) ! 1) < fst (game_area 24 80) \<and> 0 \<le> w_x (g_words (pl_game P) ! 1)
     \<and> w_x (g_words (pl_game P) ! 1) + 4 \<le> snd (game_area 24 80) \<and> running (pl_pc P 1)"
proof -
  obtain P where P: "play_step\<^sup>*\<^sup>* (start_play 24 80 two_words) P"
    "g_words (pl_game P) = (new_word ''rain'')\<lparr>w_active := False\<rparr> # new_word ''rain'' # empty_slot # replicate 17 empty_slot"
    by (rule respawn_run)
  have a: "0 < fst (game_area 24 80)" by (simp add: game_area_24_80)
  have w: "w_active (g_words (pl_game P) ! 1)" "w_text (g_words (pl_game P) ! 1) = ''rain''" using P(2) by simp_all
  note all = every_interleaving_keeps_game [OF a P(1), THEN conjunct2, THEN conjunct2, THEN conjunct2, THEN conjunct2,
      THEN conjunct1, rule_format, of 1, OF _ w(1)]
  have "w_y (g_words (pl_game P) ! 1) < fst (game_area 24 80) \<and> 0 \<le> w_x (g_words (pl_game P) ! 1)
      \<and> w_x (g_words (pl_game P) ! 1) + 4 \<le> snd (game_area 24 80) \<and> running (pl_pc P 1)"
    using all w(2) by (simp add: game_area_24_80)
  then show ?thesis using P(1) w by blast
qed

theorem threads_end_after_game_over_witness:
  "\<exists>P Q. play_step\<^sup>*\<^sup>* (start_play 24 80 two_words) P \<and> g_over (pl_game P) \<and> running (pl_pc P 0)
     \<and> play_run [Some 0] P Q \<and> \<not> running (pl_pc Q 0)"
proof -
  obtain P where P: "play_step\<^sup>*\<^sup>* (start_play 24 80 two_words) P" "pl_main P = Main_loop" "pl_pc P 0 = Leaving"
    by (rule respawn_run)
  let ?P = "set_game ((pl_game P)\<lparr>g_over := True\<rparr>) P"
  let ?Q = "set_pc 0 Ended (set_game (finish_word 0 (pl_game ?P)) ?P)"
  have run: "play_step\<^sup>*\<^sup>* (start_play 24 80 two_words) ?P" by (rule run_main [OF P(1) m_signal [OF P(2)]])
  have a: "0 < fst (game_area 24 80)" by (simp add: game_area_24_80)
  have "word_step 0 ?P ?Q" by (rule w_finish) (simp add: P(3))
  then have r: "play_run [Some 0] ?P ?Q" using r_word [OF _ _ r_stop, of 0] by simp
  have "count_list [Some 0] (Some (0 :: nat)) + rank (pl_pc ?Q 0) \<le> rank (pl_pc ?P 0)"
    "rank (pl_pc ?Q 0) = 0 \<longleftrightarrow> \<not> running (pl_pc ?Q 0)"
    using threads_end_after_game_over [OF a run _ _ _ r, of 0] P(2) by simp_all
  then have "\<not> running (pl_pc ?Q 0)" using P(3) by simp
  then show ?thesis using run r P(3) by (intro exI [of _ ?P] exI [of _ ?Q]) (simp add: running_def)
qed

section \<open>The locking of the clean-up\<close>

text \<open>
  \<open>safe_game_cleanup\<close> as its own steps. It marks every slot with a thread under \<open>words_mutex\<close>; then it takes
  \<open>words_mutex\<close> again and, holding it, goes over the slots and joins the marked ones; then it destroys the mutexes
  and frees the stores. \<open>Cl_join k\<close>: the mutex is held and slot \<open>k\<close> is next.
\<close>

datatype closing_pc = Cl_mark | Cl_lock | Cl_join nat | Cl_done

record closing =
  cl_play :: play
  cl_main :: closing_pc

text \<open>The steps of a word's thread that take \<open>words_mutex\<close>.\<close>

fun takes_words_mutex :: "thread_pc \<Rightarrow> bool" where
  "takes_words_mutex Flags_read = True"
| "takes_words_mutex (Due b now) = b"
| "takes_words_mutex Leaving = True"
| "takes_words_mutex _ = False"

definition marked :: "word \<Rightarrow> word" where
  "marked w = (if w_thread w then w\<lparr>w_to_remove := True\<rparr> else w)"

definition to_join :: "nat \<Rightarrow> play \<Rightarrow> bool" where
  "to_join k P \<longleftrightarrow> w_thread (g_words (pl_game P) ! k) \<and> w_to_remove (g_words (pl_game P) ! k)"

definition map_words :: "(word list \<Rightarrow> word list) \<Rightarrow> play \<Rightarrow> play" where
  "map_words f P = set_game ((pl_game P)\<lparr>g_words := f (g_words (pl_game P))\<rparr>) P"

definition free_stores :: "game \<Rightarrow> game" where
  "free_stores g = g\<lparr>g_manager := cleanup_word_manager (g_manager g), g_table := cleanup_active_word_table (g_table g)\<rparr>"

inductive closing_step :: "closing \<Rightarrow> closing \<Rightarrow> bool" where
  c_mark: "cl_main C = Cl_mark \<Longrightarrow>
    closing_step C (C\<lparr>cl_play := map_words (map marked) (cl_play C), cl_main := Cl_lock\<rparr>)"
| c_lock: "cl_main C = Cl_lock \<Longrightarrow> closing_step C (C\<lparr>cl_main := Cl_join 0\<rparr>)"
| c_skip: "cl_main C = Cl_join k \<Longrightarrow> k < MAX_WORDS \<Longrightarrow> \<not> to_join k (cl_play C) \<Longrightarrow>
    closing_step C (C\<lparr>cl_main := Cl_join (Suc k)\<rparr>)"
| c_join: "cl_main C = Cl_join k \<Longrightarrow> k < MAX_WORDS \<Longrightarrow> to_join k (cl_play C) \<Longrightarrow> pl_pc (cl_play C) k = Ended \<Longrightarrow>
    closing_step C (C\<lparr>cl_play := map_words (\<lambda>ws. ws[k := reaped (ws ! k)]) (cl_play C), cl_main := Cl_join (Suc k)\<rparr>)"
| c_free: "cl_main C = Cl_join MAX_WORDS \<Longrightarrow>
    closing_step C (C\<lparr>cl_play := set_game (free_stores (pl_game (cl_play C))) (cl_play C), cl_main := Cl_done\<rparr>)"
| c_word: "i < MAX_WORDS \<Longrightarrow> word_step i (cl_play C) P \<Longrightarrow>
    takes_words_mutex (pl_pc (cl_play C) i) \<longrightarrow> (\<forall>k. cl_main C \<noteq> Cl_join k) \<Longrightarrow>
    closing_step C (C\<lparr>cl_play := P\<rparr>)"

text \<open>The clean-up cannot end any more: a thread that it has yet to join needs the mutex that it holds.\<close>

definition stuck :: "closing \<Rightarrow> bool" where
  "stuck C \<longleftrightarrow> (\<exists>k j. cl_main C = Cl_join k \<and> k \<le> j \<and> j < MAX_WORDS
     \<and> to_join j (cl_play C) \<and> pl_pc (cl_play C) j \<noteq> Ended)"

lemma free_step:
  assumes "word_step i P Q" "\<not> takes_words_mutex (pl_pc P i)"
  shows "g_words (pl_game Q) = g_words (pl_game P)" "pl_pc P i \<noteq> Ended" "pl_pc Q i \<noteq> Ended"
  using assms by (cases rule: word_step.cases; auto)+

lemma stuck_step:
  assumes "stuck C" "closing_step C C'"
  shows "stuck C'"
proof -
  obtain k j where kj: "cl_main C = Cl_join k" "k \<le> j" "j < MAX_WORDS" "to_join j (cl_play C)" "pl_pc (cl_play C) j \<noteq> Ended"
    using assms(1) by (auto simp: stuck_def)
  from assms(2) show ?thesis
  proof cases
    case (c_skip k')
    then have "k \<noteq> j" using kj by auto
    then show ?thesis using kj c_skip unfolding stuck_def by (intro exI [of _ "Suc k"] exI [of _ j]) auto
  next
    case (c_join k')
    then have "k \<noteq> j" using kj by auto
    then show ?thesis using kj c_join unfolding stuck_def
      by (intro exI [of _ "Suc k"] exI [of _ j]) (auto simp: to_join_def map_words_def)
  next
    case (c_word i P)
    then have "\<not> takes_words_mutex (pl_pc (cl_play C) i)" using kj(1) by auto
    then show ?thesis using kj free_step [OF c_word(3)] word_step_other [OF c_word(3), of j] c_word(1)
      unfolding stuck_def by (intro exI [of _ k] exI [of _ j]) (cases "i = j"; auto simp: to_join_def)
  qed (use kj in auto)
qed

interpretation deadlock: preserved closing_step stuck
  by unfold_locales (rule stuck_step)

definition start_closing :: "play \<Rightarrow> closing" where
  "start_closing P = \<lparr>cl_play = P, cl_main = Cl_mark\<rparr>"

text \<open>The clean-up after the first \<open>k\<close> slots.\<close>

definition swept :: "nat \<Rightarrow> play \<Rightarrow> closing" where
  "swept k P = \<lparr>cl_play = map_words (\<lambda>ws. map reaped (take k ws) @ drop k ws) P, cl_main = Cl_join k\<rparr>"

lemma sweep_slot:
  assumes "k < length ws"
  shows "(map reaped (take k ws) @ drop k ws)[k := reaped (ws ! k)] = map reaped (take (Suc k) ws) @ drop (Suc k) ws"
    and "(map reaped (take k ws) @ drop k ws) ! k = ws ! k"
  using assms by (simp_all add: take_Suc_conv_app_nth nth_append list_update_append Cons_nth_drop_Suc [symmetric] min_def)

lemma map_words_comp [simp]: "map_words f (map_words h P) = map_words (\<lambda>ws. f (h ws)) P"
  by (simp add: map_words_def set_game_def)

lemma map_words_game [simp]:
  "g_words (pl_game (map_words f P)) = f (g_words (pl_game P))"
  by (simp add: map_words_def)

lemma map_words_cong: "f (g_words (pl_game P)) = h (g_words (pl_game P)) \<Longrightarrow> map_words f P = map_words h P"
  by (simp add: map_words_def)

lemma map_words_pc [simp]: "pl_pc (map_words f P) = pl_pc P"
  by (simp add: map_words_def)

lemma sweep_step:
  assumes "length (g_words (pl_game P)) = MAX_WORDS" "k < MAX_WORDS" "to_join k P \<longrightarrow> pl_pc P k = Ended"
  shows "closing_step (swept k P) (swept (Suc k) P)"
proof (cases "to_join k P")
  case True
  have "to_join k (cl_play (swept k P))"
    using True sweep_slot(2) [of k "g_words (pl_game P)"] assms(1,2) by (simp add: swept_def to_join_def)
  from c_join [OF _ assms(2) this] have "closing_step (swept k P) ((swept k P)\<lparr>
      cl_play := map_words (\<lambda>ws. ws[k := reaped (ws ! k)]) (cl_play (swept k P)), cl_main := Cl_join (Suc k)\<rparr>)"
    using True assms(3) by (simp add: swept_def)
  moreover have "map_words (\<lambda>ws. ws[k := reaped (ws ! k)]) (cl_play (swept k P)) = cl_play (swept (Suc k) P)"
    unfolding swept_def closing.select_convs map_words_comp
    by (rule map_words_cong) (simp add: sweep_slot assms(1,2))
  ultimately show ?thesis by (simp add: swept_def)
next
  case False
  have "\<not> to_join k (cl_play (swept k P))"
    using False sweep_slot(2) [of k "g_words (pl_game P)"] assms(1,2) by (simp add: swept_def to_join_def)
  from c_skip [OF _ assms(2) this] have "closing_step (swept k P) ((swept k P)\<lparr>cl_main := Cl_join (Suc k)\<rparr>)"
    by (simp add: swept_def)
  moreover have "reaped (g_words (pl_game P) ! k) = g_words (pl_game P) ! k"
    using False by (auto simp: to_join_def reaped_def)
  then have "map reaped (take (Suc k) (g_words (pl_game P))) @ drop (Suc k) (g_words (pl_game P))
      = map reaped (take k (g_words (pl_game P))) @ drop k (g_words (pl_game P))"
    using sweep_slot [of k "g_words (pl_game P)"] assms(1,2) by (metis list_update_id)
  then have "(swept k P)\<lparr>cl_main := Cl_join (Suc k)\<rparr> = swept (Suc k) P"
    by (simp add: swept_def map_words_cong [of "\<lambda>ws. map reaped (take (Suc k) ws) @ drop (Suc k) ws"])
  ultimately show ?thesis by simp
qed

lemma sweep_all:
  assumes "length (g_words (pl_game P)) = MAX_WORDS" "\<forall>j < MAX_WORDS. to_join j P \<longrightarrow> pl_pc P j = Ended" "k \<le> MAX_WORDS"
  shows "closing_step\<^sup>*\<^sup>* (swept 0 P) (swept k P)"
  using assms(3)
proof (induction k)
  case (Suc k)
  then show ?case using sweep_step [OF assms(1), of k] assms(2) by (auto intro: rtranclp.rtrancl_into_rtrancl)
qed simp

text \<open>The state of the clean-up when it takes \<open>words_mutex\<close> for the joins, no thread having moved since the marks.\<close>

definition sweep_start :: "play \<Rightarrow> closing" where
  "sweep_start P = swept 0 (map_words (map marked) P)"

lemma reach_sweep_start: "closing_step\<^sup>*\<^sup>* (start_closing P) (sweep_start P)"
proof -
  let ?C = "\<lparr>cl_play = map_words (map marked) P, cl_main = Cl_lock\<rparr>"
  have "closing_step (start_closing P) ?C" using c_mark [of "start_closing P"] by (simp add: start_closing_def)
  moreover have "closing_step ?C (sweep_start P)" using c_lock [of ?C] by (simp add: sweep_start_def swept_def)
  ultimately show ?thesis by (meson rtranclp.simps)
qed

lemma to_join_marked:
  "length (g_words (pl_game P)) = MAX_WORDS \<Longrightarrow> j < MAX_WORDS \<Longrightarrow>
   to_join j (map_words (map marked) P) \<longleftrightarrow> w_thread (g_words (pl_game P) ! j)"
  by (auto simp: to_join_def marked_def)

lemma safe_game_cleanup_swept:
  "safe_game_cleanup g = free_stores (g\<lparr>g_words := map reaped (map marked (g_words g))\<rparr>)"
  by (simp add: safe_game_cleanup_def free_stores_def Let_def marked_def [abs_def])

text \<open>
  Claim C17. The clean-up after a game, step by step: it can always come to the joins. If by then every word's
  thread has ended, it returns with the state that the function-level model of \<open>safe_game_cleanup\<close> gives; if a
  thread has not ended, it never returns, whatever the threads do, for it joins the thread while it holds the
  mutex that the thread needs for its last section. (The bound of 100 attempts around the joins does not help.)\<close>

theorem cleanup_returns_iff_threads_ended:
  assumes "length (g_words (pl_game P)) = MAX_WORDS"
  shows "closing_step\<^sup>*\<^sup>* (start_closing P) (sweep_start P)
    \<and> (if \<forall>j < MAX_WORDS. w_thread (g_words (pl_game P) ! j) \<longrightarrow> pl_pc P j = Ended
       then closing_step\<^sup>*\<^sup>* (sweep_start P) \<lparr>cl_play = set_game (safe_game_cleanup (pl_game P)) P, cl_main = Cl_done\<rparr>
       else \<forall>C. closing_step\<^sup>*\<^sup>* (sweep_start P) C \<longrightarrow> cl_main C \<noteq> Cl_done)"
proof (rule conjI [OF reach_sweep_start])
  let ?M = "map_words (map marked) P"
  have len: "length (g_words (pl_game ?M)) = MAX_WORDS" using assms by simp
  show "if \<forall>j < MAX_WORDS. w_thread (g_words (pl_game P) ! j) \<longrightarrow> pl_pc P j = Ended
       then closing_step\<^sup>*\<^sup>* (sweep_start P) \<lparr>cl_play = set_game (safe_game_cleanup (pl_game P)) P, cl_main = Cl_done\<rparr>
       else \<forall>C. closing_step\<^sup>*\<^sup>* (sweep_start P) C \<longrightarrow> cl_main C \<noteq> Cl_done"
  proof (cases "\<forall>j < MAX_WORDS. w_thread (g_words (pl_game P) ! j) \<longrightarrow> pl_pc P j = Ended")
    case True
    have "closing_step\<^sup>*\<^sup>* (sweep_start P) (swept MAX_WORDS ?M)"
      unfolding sweep_start_def by (rule sweep_all [OF len]) (use True to_join_marked [OF assms] in auto)
    moreover have "closing_step (swept MAX_WORDS ?M) \<lparr>cl_play = set_game (safe_game_cleanup (pl_game P)) P, cl_main = Cl_done\<rparr>"
      using c_free [of "swept MAX_WORDS ?M"] assms
      by (simp add: swept_def map_words_def set_game_def safe_game_cleanup_swept)
    ultimately have "closing_step\<^sup>*\<^sup>* (sweep_start P) \<lparr>cl_play = set_game (safe_game_cleanup (pl_game P)) P, cl_main = Cl_done\<rparr>"
      by (rule rtranclp.rtrancl_into_rtrancl)
    with True show ?thesis by simp
  next
    case False
    then obtain j where j: "j < MAX_WORDS" "w_thread (g_words (pl_game P) ! j)" "pl_pc P j \<noteq> Ended" by blast
    then have "to_join j ?M" using to_join_marked [OF assms] by blast
    then have "stuck (sweep_start P)"
      unfolding stuck_def sweep_start_def swept_def using j
      by (intro exI [of _ 0] exI [of _ j]) (simp add: to_join_def)
    then have "cl_main C \<noteq> Cl_done" if "closing_step\<^sup>*\<^sup>* (sweep_start P) C" for C
      using deadlock.inv_steps [OF that] by (auto simp: stuck_def)
    with False show ?thesis by auto
  qed
qed

text \<open>
  Claim C35. Such a deadlock is within reach of a game that a signal ends: the main loop of
  \<open>run_rain_typing_game\<close> leaves, skips the wait for a key, and the clean-up blocks for ever on the thread
  of a word that is still on the screen.\<close>

theorem cleanup_can_deadlock:
  "\<exists>P C. play_step\<^sup>*\<^sup>* (start_play 24 80 two_words) P \<and> pl_main P = Main_loop \<and> g_over (pl_game P)
     \<and> closing_step\<^sup>*\<^sup>* (start_closing P) C \<and> (\<forall>C'. closing_step\<^sup>*\<^sup>* C C' \<longrightarrow> cl_main C' \<noteq> Cl_done)"
proof -
  obtain P where P: "play_step\<^sup>*\<^sup>* (start_play 24 80 two_words) P" "pl_main P = Main_loop" "pl_pc P 0 = Leaving"
    "g_words (pl_game P) = (new_word ''rain'')\<lparr>w_active := False\<rparr> # new_word ''rain'' # empty_slot # replicate 17 empty_slot"
    by (rule respawn_run)
  let ?P = "set_game ((pl_game P)\<lparr>g_over := True\<rparr>) P"
  let ?M = "map_words (map marked) ?P"
  have run: "play_step\<^sup>*\<^sup>* (start_play 24 80 two_words) ?P" by (rule run_main [OF P(1) m_signal [OF P(2)]])
  have "to_join 0 ?M" using P(4) by (simp add: to_join_def marked_def)
  then have "stuck (sweep_start ?P)"
    unfolding stuck_def sweep_start_def swept_def using P(3)
    by (intro exI [of _ 0] exI [of _ 0]) (simp add: to_join_def)
  then have "cl_main C \<noteq> Cl_done" if "closing_step\<^sup>*\<^sup>* (sweep_start ?P) C" for C
    using deadlock.inv_steps [OF that] by (auto simp: stuck_def)
  then show ?thesis using run P(2) reach_sweep_start [of ?P]
    by (intro exI [of _ ?P] exI [of _ "sweep_start ?P"]) simp
qed

theorem cleanup_can_deadlock_witness:
  "\<exists>P C. play_step\<^sup>*\<^sup>* (start_play 24 80 two_words) P \<and> g_over (pl_game P)
     \<and> closing_step\<^sup>*\<^sup>* (start_closing P) C \<and> closing_step\<^sup>*\<^sup>* C C \<and> cl_main C \<noteq> Cl_done"
  using cleanup_can_deadlock by blast

theorem cleanup_returns_iff_threads_ended_witness:
  "closing_step\<^sup>*\<^sup>* (start_closing (start_play 24 80 two_words))
     \<lparr>cl_play = set_game (safe_game_cleanup (start_game 24 80 two_words)) (start_play 24 80 two_words), cl_main = Cl_done\<rparr>"
proof -
  let ?P = "start_play 24 80 two_words"
  have g: "pl_game ?P = start_game 24 80 two_words" by (simp add: start_play_def)
  have len: "length (g_words (pl_game ?P)) = MAX_WORDS" by (simp add: g start_words)
  have off: "\<not> w_thread (g_words (pl_game ?P) ! j)" if "j < MAX_WORDS" for j
    using that unfolding g by (simp add: start_game_def game_area_24_80)
  have "closing_step\<^sup>*\<^sup>* (start_closing ?P) (sweep_start ?P)
      \<and> closing_step\<^sup>*\<^sup>* (sweep_start ?P) \<lparr>cl_play = set_game (safe_game_cleanup (pl_game ?P)) ?P, cl_main = Cl_done\<rparr>"
    using cleanup_returns_iff_threads_ended [OF len] off by simp
  then show ?thesis unfolding g by (meson rtranclp_trans)
qed

end
