(* ===== verification/Game_Screen.thy ===== *)
theory Game_Screen
  imports Game_Threads Client_Screen
begin

text \<open>
  \<open>draw_game_screen\<close> of \<^verbatim>\<open>client/src/game_logic.c\<close>: what it draws for a state of the game, and that the words
  stay inside the frame.
\<close>

section \<open>The drawing\<close>

abbreviation FRAME_TOP_Y :: int where "FRAME_TOP_Y \<equiv> 1"
abbreviation GAME_AREA_START_Y :: int where "GAME_AREA_START_Y \<equiv> 2"
abbreviation GAME_AREA_START_X :: int where "GAME_AREA_START_X \<equiv> 1"

definition draw_frame :: "int \<Rightarrow> int \<Rightarrow> draw list" where
  "draw_frame screen_height screen_width =
     (let frame_bottom_y = screen_height - 3; frame_left_x = 0; frame_right_x = screen_width - 1 in
      [Border_hline FRAME_TOP_Y frame_left_x screen_width,
       Border_hline frame_bottom_y frame_left_x screen_width,
       Border_vline (FRAME_TOP_Y + 1) frame_left_x (frame_bottom_y - FRAME_TOP_Y - 1),
       Border_vline (FRAME_TOP_Y + 1) frame_right_x (frame_bottom_y - FRAME_TOP_Y - 1),
       Border_put FRAME_TOP_Y frame_left_x, Border_put FRAME_TOP_Y frame_right_x,
       Border_put frame_bottom_y frame_left_x, Border_put frame_bottom_y frame_right_x])"

definition draw_word :: "bool \<Rightarrow> word \<Rightarrow> draw list" where
  "draw_word has_colors w =
     (let attr = (case w_type w of WORD_KILL \<Rightarrow> [COLOR_PAIR_KILL] | WORD_BONUS \<Rightarrow> [COLOR_PAIR_BONUS] | WORD_NORMAL \<Rightarrow> []) in
      (if has_colors then map Attron attr else []) @
      [Print (GAME_AREA_START_Y + w_y w) (GAME_AREA_START_X + w_x w) (w_text w)] @
      (if has_colors then map Attroff attr else []))"

definition draw_words :: "bool \<Rightarrow> word list \<Rightarrow> draw list" where
  "draw_words has_colors ws = concat (map (draw_word has_colors) (filter w_active ws))"

text \<open>
  A message is centred by an expression of type \<open>size_t\<close>, since \<open>strlen\<close> is unsigned: the column is that
  64-bit value converted to \<open>int\<close>.
\<close>

definition centre_x :: "int \<Rightarrow> string \<Rightarrow> int" where
  "centre_x width msg =
     to_int32 ((GAME_AREA_START_X + ((width - int (length msg)) mod 2 ^ 64) div 2) mod 2 ^ 64)"

definition draw_over :: "bool \<Rightarrow> bool \<Rightarrow> int \<Rightarrow> int \<Rightarrow> draw list" where
  "draw_over sigint exit height width =
     (let msg = (if sigint then ''EXITING APPLICATION (Ctrl+C)'' else if exit then ''GAME EXITED (Ctrl+C)'' else ''GAME OVER!'');
          prompt = ''Press any key to continue...''
      in [Print (GAME_AREA_START_Y + height div 2) (centre_x width msg) msg,
          Print (GAME_AREA_START_Y + height div 2 + 1) (centre_x width prompt) prompt])"

definition draw_game_screen :: "bool \<Rightarrow> bool \<Rightarrow> bool \<Rightarrow> int \<Rightarrow> int \<Rightarrow> game \<Rightarrow> draw list" where
  "draw_game_screen has_colors sigint exit screen_height screen_width g =
     [Erase,
      Print 0 1 (''Score: '' @ show_int (g_score g) @ ''   Lives: '' @ show_int (g_lives g) @ ''   Level: ''
        @ show_int (get_current_level (g_score g))),
      Print 0 (screen_width div 2 - 8) ''Rain Typing Game'',
      Print (screen_height - 2) 1 ''Quit Game: Ctrl+C''] @
     draw_frame screen_height screen_width @
     draw_words has_colors (g_words g) @
     [Print (screen_height - 1) 1 (''Input: '' @ g_input g)] @
     (if g_over g then draw_over sigint exit (g_height g) (g_width g) else []) @
     [Refresh]"

section \<open>The words stay inside the frame\<close>

fun drawn_text :: "draw \<Rightarrow> (int \<times> int \<times> string) option" where
  "drawn_text (Print y x s) = Some (y, x, s)"
| "drawn_text _ = None"

lemma drawn_words:
  "set (List.map_filter drawn_text (draw_words col ws))
     = {(2 + w_y w, 1 + w_x w, w_text w) |w. w \<in> set ws \<and> w_active w}"
proof -
  have one: "List.map_filter drawn_text (draw_word col w) = [(2 + w_y w, 1 + w_x w, w_text w)]" for w
    by (cases "w_type w") (auto simp: draw_word_def List.map_filter_def Let_def)
  have "List.map_filter drawn_text (draw_words col ws) = map (\<lambda>w. (2 + w_y w, 1 + w_x w, w_text w)) (filter w_active ws)"
    unfolding draw_words_def using one
    by (induction ws) (simp_all add: List.map_filter_def comp_def)
  then show ?thesis by auto
qed

text \<open>
  Claim C40. In every state that a game can reach, whatever the threads did, the screen shows exactly the
  active words, each in a row between the two horizontal borders and to the right of the left border, and ending before the
  right border if the field is as wide as the word.
\<close>

theorem words_drawn_inside_frame:
  assumes "10 \<le> sh" "22 \<le> sw" "play_step\<^sup>*\<^sup>* (start_play sh sw g) P"
  shows "set (List.map_filter drawn_text (draw_words col (g_words (pl_game P))))
      = {(2 + w_y w, 1 + w_x w, w_text w) |w. w \<in> set (g_words (pl_game P)) \<and> w_active w}
    \<and> (\<forall>(y, x, tx) \<in> set (List.map_filter drawn_text (draw_words col (g_words (pl_game P)))).
         1 < y \<and> y < sh - 3 \<and> 0 < x \<and> (int (length tx) \<le> sw - 2 \<longrightarrow> x + int (length tx) \<le> sw - 1))"
proof -
  have "0 < fst (game_area sh sw)" using assms(1) by (simp add: game_area_def)
  then have "play_inv P" by (rule played.inv_steps [OF assms(3) start_play_inv])
  then have inv: "game_inv (pl_game P)" by (simp add: play_inv_def)
  have "size_inv sh sw P" by (rule sized.inv_steps [OF assms(3) start_play_size])
  then have size: "g_height (pl_game P) = sh - 5" "g_width (pl_game P) = sw - 2"
    by (auto simp: size_inv_def game_area_def)
  have "\<forall>w \<in> set (g_words (pl_game P)). slot_ok (sh - 5) (sw - 2) w" using inv size by (simp add: game_inv_def)
  then show ?thesis unfolding drawn_words by (fastforce simp: slot_ok_def)
qed

theorem words_drawn_inside_frame_witness:
  "\<exists>P. play_step\<^sup>*\<^sup>* (start_play 24 80 two_words) P
     \<and> (2 + w_y (new_word ''rain''), 1 + w_x (new_word ''rain''), ''rain'')
         \<in> set (List.map_filter drawn_text (draw_words True (g_words (pl_game P))))"
proof -
  obtain P where P: "play_step\<^sup>*\<^sup>* (start_play 24 80 two_words) P"
    "g_words (pl_game P) = (new_word ''rain'')\<lparr>w_active := False\<rparr> # new_word ''rain'' # empty_slot # replicate 17 empty_slot"
    by (rule respawn_run)
  have "set (List.map_filter drawn_text (draw_words True (g_words (pl_game P))))
      = {(2 + w_y w, 1 + w_x w, w_text w) |w. w \<in> set (g_words (pl_game P)) \<and> w_active w}"
    using words_drawn_inside_frame [OF _ _ P(1)] by simp
  moreover have "new_word ''rain'' \<in> set (g_words (pl_game P)) \<and> w_active (new_word ''rain'') \<and> w_text (new_word ''rain'') = ''rain''"
    using P(2) by simp
  ultimately have "(2 + w_y (new_word ''rain''), 1 + w_x (new_word ''rain''), ''rain'')
         \<in> set (List.map_filter drawn_text (draw_words True (g_words (pl_game P))))"
    by (auto intro!: exI [of _ "new_word ''rain''"])
  then show ?thesis using P(1) by blast
qed

end
