(* ===== verification/Client_Main.thy ===== *)
theory Client_Main
  imports Info_UI Game_Screen
begin

text \<open>
  \<^verbatim>\<open>client/src/client_main.c\<close>: loading the words, the menu after the login, the loop over connections, and the
  end of the program.
\<close>

section \<open>The parts\<close>

text \<open>
  The clean-up locks the mutex of the table of active words and destroys it. To lock a mutex that is not initialised,
  or was destroyed, is undefined in POSIX; \<open>cl_misuse\<close> records it.
\<close>

definition clean_table :: "client \<Rightarrow> client" where
  "clean_table c = c\<lparr>cl_game := (cl_game c)\<lparr>g_table := cleanup_active_word_table (g_table (cl_game c))\<rparr>,
     cl_misuse := (cl_misuse c \<or> cl_mutex c \<noteq> Live), cl_mutex := Destroyed\<rparr>"

definition perform_cleanup_and_exit :: "int \<Rightarrow> string \<Rightarrow> client \<Rightarrow> 'a outcome" where
  "perform_cleanup_and_exit code msg c =
     (let c1 = c\<lparr>cl_running := False,
                 cl_game := (cl_game c)\<lparr>g_manager := cleanup_word_manager (g_manager (cl_game c))\<rparr>\<rparr>;
          c2 = clean_table c1
      in Exited code msg (c2\<lparr>cl_net := disconnect_from_server (cl_net c2), cl_crypto := crypto_cleanup (cl_crypto c2)\<rparr>))"

text \<open>
  \<open>load_words_from_server\<close>: the response's \<open>count\<close> is used as it came, although \<open>words\<close> has 256 elements;
  each word is read up to its NUL.
\<close>

definition load_words_from_server :: "bool \<Rightarrow> load_env \<Rightarrow> client \<Rightarrow> bool outcome" where
  "load_words_from_server malloc_ok le =
     seq (request_call send_wordlist_request) (\<lambda>(ret, wresp).
       if ret \<noteq> 0 \<or> wordlist_count wresp \<le> 0 then give False
       else if \<not> malloc_ok then give False
       else if int MAX_WORDLIST_WORDS < wordlist_count wresp then (\<lambda>_. Undef)
       else case those (map (\<lambda>i. deref (ptr_at (Some wresp) (4 + MAX_WORD_STR_LEN * i))) [0..<nat (wordlist_count wresp)]) of
           None \<Rightarrow> (\<lambda>_. Undef)
         | Some ws \<Rightarrow> (\<lambda>c. let (ok, m) = load_words_from_response le ws (g_manager (cl_game c))
             in Done ok (c\<lparr>cl_game := (cl_game c)\<lparr>g_manager := m\<rparr>\<rparr>)))"

text \<open>
  \<open>run_rain_typing_game\<close> with what it does at the keyboard: a screen that is too small and a failure of the mutexes
  show a message and wait for a key, and so does the end of a game unless \<open>sigint_received\<close> is set. The two failures
  leave the keyboard in the mode that does not wait.
\<close>

definition play_game :: "client \<Rightarrow> int outcome" where
  "play_game c =
     (case cl_games c of
        [] \<Rightarrow> Playing
      | e # es \<Rightarrow>
          (case run_rain_typing_game (ge_table e) (ge_mutexes e) (ge_height e) (ge_width e) (ge_start e) (ge_rounds e) (cl_game c) of
             None \<Rightarrow> Playing
           | Some (code, g) \<Rightarrow>
               (let c1 = c\<lparr>cl_games := es, cl_game := g, cl_exit := (cl_exit c \<or> ge_exit e),
                           cl_mutex := (if ge_table e then Destroyed else cl_mutex c),
                           cl_nodelay := (if ge_table e then code < 0 else cl_nodelay c)\<rparr>;
                    message = (\<lambda>m. draw [Clear, Print (ge_height e div 2) (to_int32 (((ge_width e - int (length m)) mod 2 ^ 64) div 2)) m, Refresh])
                in if \<not> ge_table e then Done code c1
                   else if code = -1 then seq (message ''Screen too small.'') (\<lambda>_. seq getch (\<lambda>_. give code)) c1
                   else if code = -2 then seq (message ''Mutex init failed.'') (\<lambda>_. seq getch (\<lambda>_. give code)) c1
                   else seq read_sigint (\<lambda>s. if s then give code else seq getch (\<lambda>_. give code)) c1)))"

definition set_running :: "bool \<Rightarrow> client \<Rightarrow> unit outcome" where
  "set_running b c = Done () (c\<lparr>cl_running := b\<rparr>)"

definition clear_exit_request :: "client \<Rightarrow> unit outcome" where
  "clear_exit_request c = Done () (c\<lparr>cl_exit := False\<rparr>)"

definition words_missing :: "client \<Rightarrow> bool outcome" where
  "words_missing c =
     Done (\<not> wm_is_initialized (g_manager (cl_game c)) \<or> wm_words (g_manager (cl_game c)) = []) c"

section \<open>The menu\<close>

text \<open>Whether the menu stays and who is logged in after a round of it.\<close>

type_synonym menu_next = "bool \<times> string"

text \<open>The end of most choices: the menu is left when \<open>sigint_received\<close> is set.\<close>

definition stay_unless_sigint :: "string \<Rightarrow> client \<Rightarrow> menu_next outcome" where
  "stay_unless_sigint user = seq read_sigint (\<lambda>s. give (\<not> s, user))"

definition server_said :: "int \<Rightarrow> bytes \<Rightarrow> string option" where
  "server_said ret res = (if ret \<noteq> 0 then Some ''Network/Comm error'' else message_of res)"

definition show_text :: "int \<Rightarrow> string option \<Rightarrow> (unit \<Rightarrow> client \<Rightarrow> 'a outcome) \<Rightarrow> client \<Rightarrow> 'a outcome" where
  "show_text y msg f = (case msg of None \<Rightarrow> (\<lambda>_. Undef) | Some m \<Rightarrow> seq (draw [Print y X_DEFAULT_POS m]) f)"

definition back_to_menu :: "string \<Rightarrow> client \<Rightarrow> menu_next outcome" where
  "back_to_menu user =
     seq (wait_for_key_or_signal Y_STATUS_MSG X_DEFAULT_POS ''Press any key to return to the menu...'') (\<lambda>_.
       stay_unless_sigint user)"

text \<open>After the game: the score is submitted and the server's answer shown.\<close>

definition game_finished :: "string \<Rightarrow> int \<Rightarrow> client \<Rightarrow> menu_next outcome" where
  "game_finished user final_score =
     seq (set_running False) (\<lambda>_. seq read_sigint (\<lambda>s.
       if s then give (False, user)
       else seq (draw [Clear, Refresh]) (\<lambda>_.
         if final_score < 0
         then seq (draw [Print (Y_STATUS_MSG - 2) X_DEFAULT_POS
                (''Game could not start or was aborted. (Error: '' @ show_int final_score @ '')'')]) (\<lambda>_. back_to_menu user)
         else seq (draw [Print (Y_STATUS_MSG - 4) X_DEFAULT_POS (''Game Over! Your final score: '' @ show_int final_score)]) (\<lambda>_.
              seq (request_call (\<lambda>ejunk. send_score_submit_request ejunk final_score)) (\<lambda>(ret, res).
              seq read_sigint (\<lambda>s.
                if s then give (False, user)
                else show_text (Y_STATUS_MSG - 2)
                  (if ret = 0 \<and> response_success res \<noteq> 0
                   then map_option (\<lambda>m. ''Score submitted successfully! Server: '' @ m) (message_of res)
                   else map_option (\<lambda>m. ''Failed to submit score. Server: '' @ m @ '' (ret: '' @ show_int ret @ '')'') (server_said ret res))
                  (\<lambda>_. back_to_menu user)))))))"

definition choose_game :: "bool \<Rightarrow> load_env \<Rightarrow> string \<Rightarrow> client \<Rightarrow> menu_next outcome" where
  "choose_game malloc_ok le user =
     seq (set_running True) (\<lambda>_. seq (draw [Clear, Refresh]) (\<lambda>_.
     seq words_missing (\<lambda>missing. seq (if missing then load_words_from_server malloc_ok le else give True) (\<lambda>ok.
       if \<not> ok
       then seq (draw [Print Y_STATUS_MSG X_DEFAULT_POS ''Failed to load word list from server.'']) (\<lambda>_.
            seq (wait_for_key_or_signal (Y_STATUS_MSG + 2) X_DEFAULT_POS ''Press any key...'') (\<lambda>_.
            seq (set_running False) (\<lambda>_. give (True, user))))
       else seq (set_running True) (\<lambda>_. seq (draw [Clear, Refresh]) (\<lambda>_. seq play_game (game_finished user)))))))"

definition choose_logout :: "string \<Rightarrow> client \<Rightarrow> menu_next outcome" where
  "choose_logout user =
     seq (request_call send_logout_request) (\<lambda>(ret, res). seq read_sigint (\<lambda>s.
       if s then give (False, user)
       else seq (draw [Clear]) (\<lambda>_.
         let done = ret = 0 \<and> response_success res \<noteq> 0 in
         show_text Y_STATUS_MSG
           (if done then map_option (\<lambda>m. ''Logout successful. '' @ m) (message_of res)
            else map_option (\<lambda>m. ''Logout failed. Server: '' @ m @ '' (ret: '' @ show_int ret @ '')'') (server_said ret res))
           (\<lambda>_. seq (wait_for_key_or_signal (Y_STATUS_MSG + Y_MSG_OFFSET2) X_DEFAULT_POS ''Press any key to continue...'') (\<lambda>_.
              seq read_sigint (\<lambda>s. give (\<not> s \<and> \<not> done, if done then [] else user)))))))"

definition choose_exit :: "string \<Rightarrow> client \<Rightarrow> menu_next outcome" where
  "choose_exit user c =
     (let msg = ''Are you sure you want to exit? (y/n)'' in
      seq (draw [Clear, Print (cl_lines c div 2 - 1) (to_int32 (((cl_cols c - int (length msg)) mod 2 ^ 64) div 2)) msg, Refresh]) (\<lambda>_.
      seq getch (\<lambda>confirm.
        if confirm = 121 \<or> confirm = 89
        then perform_cleanup_and_exit 0 ''Exiting game by user's choice.''
        else stay_unless_sigint user)) c)"

definition menu_screen :: "string \<Rightarrow> draw list" where
  "menu_screen user =
     [Erase, Print Y_TITLE X_DEFAULT_POS (''Logged in as: '' @ user),
      Print Y_OPTIONS_START X_DEFAULT_POS ''1. Start Game'', Print (Y_OPTIONS_START + 1) X_DEFAULT_POS ''2. View Leaderboard'',
      Print (Y_OPTIONS_START + 2) X_DEFAULT_POS ''3. How to Play'', Print (Y_OPTIONS_START + 3) X_DEFAULT_POS ''4. Logout'',
      Print (Y_OPTIONS_START + 4) X_DEFAULT_POS ''5. Exit Game'', Print (Y_OPTIONS_START + 6) X_DEFAULT_POS ''Select an option: '',
      Refresh]"

text \<open>What the program meets apart from keys, signals, network and games: allocations, the crypto library, colours.\<close>

record main_env =
  me_ssl :: evp
  me_malloc :: bool
  me_load :: load_env
  me_init_words :: bool
  me_colors :: bool

definition menu_choice :: "main_env \<Rightarrow> string \<Rightarrow> int \<Rightarrow> client \<Rightarrow> menu_next outcome" where
  "menu_choice e user choice =
     (if choice = 49 then choose_game (me_malloc e) (me_load e) user
      else if choice = 50 then seq show_leaderboard_ui (\<lambda>_. stay_unless_sigint user)
      else if choice = 51 then seq (show_how_to_play_ui (me_colors e)) (\<lambda>_. stay_unless_sigint user)
      else if choice = 52 then choose_logout user
      else if choice = 53 then choose_exit user
      else seq (draw [Print Y_STATUS_MSG X_DEFAULT_POS ''Invalid option. Press any key to try again.'']) (\<lambda>_.
           seq (wait_for_key_or_signal (Y_STATUS_MSG + Y_MSG_OFFSET1) X_DEFAULT_POS []) (\<lambda>_. stay_unless_sigint user)))"

definition menu_round :: "main_env \<Rightarrow> string \<Rightarrow> client \<Rightarrow> menu_next outcome" where
  "menu_round e user =
     seq read_sigint (\<lambda>s. if s then give (False, user)
       else seq clear_exit_request (\<lambda>_. seq (draw (menu_screen user)) (\<lambda>_. seq getch (menu_choice e user))))"

text \<open>Each round of the menu takes a key; so does each round of the outer loop, in the menu before the login.\<close>

fun menu_loop :: "main_env \<Rightarrow> nat \<Rightarrow> string \<Rightarrow> client \<Rightarrow> string outcome" where
  "menu_loop e 0 user = Key_wait"
| "menu_loop e (Suc n) user = seq (menu_round e user) (\<lambda>(stay, user'). if stay then menu_loop e n user' else give user')"

section \<open>The program\<close>

definition connect_client :: "client \<Rightarrow> int outcome" where
  "connect_client c =
     (if net_connected (cl_net c) then Done (fst (connect_to_server True True (cl_net c))) c
      else case cl_conns c of
        [] \<Rightarrow> Peer_wait
      | (sock, conn, revs, sevs) # cs \<Rightarrow>
          (case connect_to_server sock conn (cl_net c) of (r, n) \<Rightarrow>
             Done r (c\<lparr>cl_net := n\<lparr>net_recv := revs, net_send := sevs\<rparr>, cl_conns := cs\<rparr>)))"

definition exit_if_sigint :: "string \<Rightarrow> (client \<Rightarrow> 'a outcome) \<Rightarrow> client \<Rightarrow> 'a outcome" where
  "exit_if_sigint msg m = seq read_sigint (\<lambda>s. if s then perform_cleanup_and_exit 0 msg else m)"

definition disconnect_client :: "client \<Rightarrow> unit outcome" where
  "disconnect_client c = Done () (c\<lparr>cl_net := disconnect_from_server (cl_net c)\<rparr>)"

definition connect_failed :: "client \<Rightarrow> unit outcome" where
  "connect_failed c =
     (let msg = ''Failed to connect to server. Press any key to exit.'' in
      seq (draw [Clear, Print (cl_lines c div 2) (to_int32 (((cl_cols c - int (length msg)) mod 2 ^ 64) div 2)) msg, Refresh]) (\<lambda>_.
      seq getch (\<lambda>_. perform_cleanup_and_exit 1 ''Server connection failed.'')) c)"

definition in_menu :: "main_env \<Rightarrow> string \<Rightarrow> client \<Rightarrow> unit outcome" where
  "in_menu e user =
     (if user \<noteq> []
      then seq (\<lambda>c. menu_loop e (Suc (length (cl_keys c))) user c) (\<lambda>_.
           exit_if_sigint ''Exiting due to Ctrl+C from main menu (application-wide)...'' (give ()))
      else give ())"

definition after_auth :: "main_env \<Rightarrow> int \<Rightarrow> string \<Rightarrow> client \<Rightarrow> unit outcome" where
  "after_auth e auth_result user =
     seq read_sigint (\<lambda>s.
       if s \<or> auth_result = AUTH_UI_EXIT_SIGNAL
       then perform_cleanup_and_exit 0 ''Exiting due to Ctrl+C during auth (application-wide)...''
       else if auth_result = AUTH_UI_EXIT_NORMAL
       then perform_cleanup_and_exit 0 ''Exiting game by user choice from auth menu.''
       else seq (in_menu e user) (\<lambda>_. disconnect_client))"

definition session_round :: "main_env \<Rightarrow> client \<Rightarrow> unit outcome" where
  "session_round e =
     exit_if_sigint ''Exiting due to Ctrl+C (application-wide)...'' (
     seq clear_exit_request (\<lambda>_. seq connect_client (\<lambda>r.
     seq (if r \<noteq> 0 then connect_failed else give ()) (\<lambda>_.
     exit_if_sigint ''Exiting due to Ctrl+C (application-wide)...'' (
     seq (auth_ui_main (me_ssl e)) (\<lambda>(auth_result, user). after_auth e auth_result user))))))"

fun session_loop :: "main_env \<Rightarrow> nat \<Rightarrow> client \<Rightarrow> unit outcome" where
  "session_loop e 0 = Key_wait"
| "session_loop e (Suc n) = seq (session_round e) (\<lambda>_. session_loop e n)"

definition client_main :: "main_env \<Rightarrow> client \<Rightarrow> unit outcome" where
  "client_main e =
     seq client_crypto_init (\<lambda>ok.
       if \<not> ok then perform_cleanup_and_exit 1 ''Failed to initialize cryptographic system.''
       else (\<lambda>c. case init_word_manager (me_init_words e) (g_manager (cl_game c)) of (ok, m) \<Rightarrow>
         (let c1 = c\<lparr>cl_game := (cl_game c)\<lparr>g_manager := m\<rparr>\<rparr> in
          if \<not> ok then perform_cleanup_and_exit 1 ''Failed to initialize word manager.'' c1
          else session_loop e (Suc (length (cl_keys c1))) c1)))"

section \<open>The loops and their keys\<close>

definition fewer_keys :: "client \<Rightarrow> client \<Rightarrow> bool" where
  "fewer_keys c c' \<longleftrightarrow> length (cl_keys c') \<le> length (cl_keys c)"

interpretation fewer: act_relation fewer_keys
  by unfold_locales (auto simp: fewer_keys_def dest: ui_move_keys)

lemma fewer_request: "keeps fewer_keys (request_call f)"
  by (auto simp: keeps_def request_call_def fewer_keys_def Let_def split: call.splits)

lemma fewer_simple:
  "keeps fewer_keys (set_running b)" "keeps fewer_keys clear_exit_request" "keeps fewer_keys words_missing"
  "keeps fewer_keys disconnect_client" "keeps fewer_keys connect_client" "keeps fewer_keys (perform_cleanup_and_exit code msg)"
  by (auto simp: keeps_def fewer_keys_def set_running_def clear_exit_request_def words_missing_def disconnect_client_def
      connect_client_def perform_cleanup_and_exit_def Let_def split: list.splits prod.splits if_splits)

lemma fewer_play: "keeps fewer_keys play_game"
  by (auto simp: keeps_def fewer_keys_def play_game_def Let_def seq_def draw_def getch_def read_sigint_def give_def
      split: list.splits option.splits prod.splits if_splits)

lemma fewer_load: "keeps fewer_keys (load_words_from_server m le)"
  unfolding load_words_from_server_def
  by (intro fewer.keeps_seq fewer_request fewer.keeps_pair fewer.keeps_if fewer.keeps_option fewer.keeps_Undef;
      (rule fewer.keeps_ui, rule ui_acts)?; (auto simp: keeps_def fewer_keys_def Let_def split: prod.splits)?)

lemmas fewer_rules = fewer.keeps_seq fewer.keeps_pair fewer.keeps_if fewer.keeps_option fewer.keeps_Undef
  fewer_request fewer_simple fewer_play fewer_load

lemma fewer_stay: "keeps fewer_keys (stay_unless_sigint user)"
  unfolding stay_unless_sigint_def by (intro fewer_rules; rule fewer.keeps_ui, rule ui_acts)

lemma fewer_show_text: "(\<And>u. keeps fewer_keys (f u)) \<Longrightarrow> keeps fewer_keys (show_text y msg f)"
  unfolding show_text_def by (intro fewer_rules; (rule fewer.keeps_ui, rule ui_acts)?)

lemma fewer_back: "keeps fewer_keys (back_to_menu user)"
  unfolding back_to_menu_def by (intro fewer_rules fewer_stay; rule fewer.keeps_ui, rule ui_acts)

lemma fewer_finished: "keeps fewer_keys (game_finished user score)"
  unfolding game_finished_def
  by (intro fewer_rules fewer_show_text fewer_back; rule fewer.keeps_ui, rule ui_acts)

lemma fewer_choices:
  "keeps fewer_keys (choose_game m le user)" "keeps fewer_keys (choose_logout user)" "keeps fewer_keys (choose_exit user)"
  "keeps fewer_keys show_leaderboard_ui" "keeps fewer_keys (show_how_to_play_ui col)"
proof -
  show "keeps fewer_keys (choose_game m le user)" unfolding choose_game_def
    by (intro fewer_rules fewer_finished; rule fewer.keeps_ui, rule ui_acts)
  show "keeps fewer_keys (choose_logout user)" unfolding choose_logout_def Let_def
    by (intro fewer_rules fewer_show_text; rule fewer.keeps_ui, rule ui_acts)
  have "keeps fewer_keys (\<lambda>c. seq (draw (ds c)) (\<lambda>_. seq getch (\<lambda>confirm. if confirm = 121 \<or> confirm = 89
      then perform_cleanup_and_exit 0 ''Exiting game by user's choice.'' else stay_unless_sigint user)) c)" for ds :: "client \<Rightarrow> draw list"
  proof -
    have "keeps fewer_keys (seq (draw d) (\<lambda>_. seq getch (\<lambda>confirm. if confirm = 121 \<or> confirm = 89
      then perform_cleanup_and_exit 0 ''Exiting game by user's choice.'' else stay_unless_sigint user)))" for d
      by (intro fewer_rules fewer_stay; rule fewer.keeps_ui, rule ui_acts)
    then show ?thesis by (simp add: keeps_def)
  qed
  then show "keeps fewer_keys (choose_exit user)" unfolding choose_exit_def [abs_def] Let_def .
  show "keeps fewer_keys show_leaderboard_ui" unfolding show_leaderboard_ui_def
    by (intro fewer_rules; rule fewer.keeps_ui, rule ui_acts)
  show "keeps fewer_keys (show_how_to_play_ui col)" unfolding show_how_to_play_ui_def show_page_1_def show_page_2_def
    by (intro fewer_rules; rule fewer.keeps_ui, rule ui_acts)
qed

lemma fewer_choice: "keeps fewer_keys (menu_choice e user choice)"
  unfolding menu_choice_def
  by (intro fewer_rules fewer_choices fewer_stay; rule fewer.keeps_ui, rule ui_acts)

lemma menu_round_takes_key:
  assumes "menu_round e user c = Done (True, user') c'"
  shows "length (cl_keys c') < length (cl_keys c)"
proof -
  obtain g c1 where g: "read_sigint c = Done g c1"
    by (cases "sigint_received (cl_net c)") (auto simp: read_sigint_def)
  have k1: "length (cl_keys c1) \<le> length (cl_keys c)" using keeps_read_sigint g ui_move_keys by (auto simp: keeps_def)
  have "\<not> g" using assms g by (auto simp: menu_round_def seq_def [of read_sigint] give_def)
  then obtain ch c2 where ch: "getch (c1\<lparr>cl_exit := False, cl_draws := cl_draws c1 @ menu_screen user\<rparr>) = Done ch c2"
      "menu_choice e user ch c2 = Done (True, user') c'"
    using assms g by (auto simp: menu_round_def seq_def [of read_sigint] seq_def [of clear_exit_request] clear_exit_request_def elim!: seq_DoneE)
  then have "length (cl_keys c2) < length (cl_keys c1)" by (auto simp: getch_def split: list.splits)
  moreover have "length (cl_keys c') \<le> length (cl_keys c2)"
    using fewer_choice [of e user ch] ch(2) by (auto simp: keeps_def fewer_keys_def)
  ultimately show ?thesis using k1 by simp
qed

lemma menu_loop_enough:
  "length (cl_keys c) < n \<Longrightarrow> n \<le> m \<Longrightarrow> menu_loop e m user c = menu_loop e n user c"
proof (induction n arbitrary: m c user)
  case (Suc n)
  then obtain m' where m: "m = Suc m'" "n \<le> m'" by (cases m) auto
  show ?case
  proof (cases "menu_round e user c")
    case (Done r c')
    obtain stay user' where r: "r = (stay, user')" by (cases r)
    show ?thesis using Suc.IH [of c' m' user'] Suc.prems menu_round_takes_key [of e user c user' c'] Done m r
      by (cases stay) (simp_all add: seq_Done)
  qed (simp_all add: m seq_def)
qed simp

lemma fewer_ui: "keeps ui_move m \<Longrightarrow> keeps fewer_keys m"
  by (rule fewer.keeps_ui)

lemma fewer_menu_loop: "keeps fewer_keys (menu_loop e n user)"
proof (induction n arbitrary: user)
  case (Suc n)
  have round: "keeps fewer_keys (menu_round e user)" unfolding menu_round_def
    by (intro fewer_rules fewer_choice; rule fewer.keeps_ui, rule ui_acts)
  show ?case unfolding menu_loop.simps
    by (intro fewer_rules round Suc fewer_ui [OF keeps_give])
qed (simp add: keeps_def)

lemma fewer_exit_if: "keeps fewer_keys m \<Longrightarrow> keeps fewer_keys (exit_if_sigint msg m)"
  unfolding exit_if_sigint_def by (intro fewer_rules fewer_ui [OF keeps_read_sigint])

lemma never_Done: "perform_cleanup_and_exit code msg c \<noteq> Done a c'"
  by (simp add: perform_cleanup_and_exit_def Let_def)

lemma connect_failed_never_Done: "connect_failed c \<noteq> Done () c'"
  by (auto simp: connect_failed_def Let_def never_Done elim!: seq_DoneE)

text \<open>A part that returns only after it has taken a key.\<close>

definition takes_key :: "(client \<Rightarrow> 'a outcome) \<Rightarrow> bool" where
  "takes_key m \<longleftrightarrow> (\<forall>c a c'. m c = Done a c' \<longrightarrow> length (cl_keys c') < length (cl_keys c))"

lemma takes_key_seq: "keeps fewer_keys m \<Longrightarrow> (\<And>a. takes_key (f a)) \<Longrightarrow> takes_key (seq m f)"
  unfolding takes_key_def keeps_def fewer_keys_def by (blast elim: seq_DoneE intro: less_le_trans)

lemma takes_key_exit_if: "takes_key m \<Longrightarrow> takes_key (exit_if_sigint msg m)"
  unfolding exit_if_sigint_def
  by (rule takes_key_seq [OF fewer_ui [OF keeps_read_sigint]]) (simp add: takes_key_def never_Done)

lemma fewer_after_auth: "keeps fewer_keys (after_auth e r user)"
proof -
  have "keeps fewer_keys (\<lambda>c. menu_loop e (Suc (length (cl_keys c))) user c)"
    using fewer_menu_loop [of e _ user] unfolding keeps_def by blast
  then show ?thesis unfolding after_auth_def in_menu_def
    by (intro fewer_rules fewer_exit_if fewer_ui [OF keeps_give] fewer_ui [OF keeps_read_sigint])
qed

lemma session_round_takes_key: "takes_key (session_round e)"
proof -
  have auth: "takes_key (seq (auth_ui_main ssl) (\<lambda>(auth_result, user). after_auth e auth_result user))" for ssl
    unfolding takes_key_def
  proof (intro allI impI)
    fix c a c' assume "seq (auth_ui_main ssl) (\<lambda>(auth_result, user). after_auth e auth_result user) c = Done a c'"
    then obtain r user c1 where r: "auth_ui_main ssl c = Done (r, user) c1" and rest: "after_auth e r user c1 = Done a c'"
      by (auto elim!: seq_DoneE)
    have "r \<noteq> AUTH_UI_EXIT_SIGNAL" using rest by (auto simp: after_auth_def never_Done elim!: seq_DoneE)
    from auth_ui_main_takes_key [OF r this] show "length (cl_keys c') < length (cl_keys c)"
      using fewer_after_auth [of e r user] rest unfolding keeps_def fewer_keys_def by (blast intro: le_less_trans)
  qed
  have "keeps fewer_keys (if r \<noteq> 0 then connect_failed else give ())" for r :: int
    using fewer_ui [OF keeps_give, of "()"] by (auto simp: keeps_def connect_failed_never_Done)
  then show ?thesis unfolding session_round_def
    by (intro takes_key_exit_if takes_key_seq fewer_simple auth)
qed

lemma session_loop_enough:
  "length (cl_keys c) < n \<Longrightarrow> n \<le> m \<Longrightarrow> session_loop e m c = session_loop e n c"
proof (induction n arbitrary: m c)
  case (Suc n)
  then obtain m' where m: "m = Suc m'" "n \<le> m'" by (cases m) auto
  show ?case
  proof (cases "session_round e c")
    case (Done r c')
    then have "length (cl_keys c') < length (cl_keys c)" using session_round_takes_key [of e] by (auto simp: takes_key_def)
    then show ?thesis using Suc.IH [of c' m'] Suc.prems Done m by (simp add: seq_Done)
  qed (simp_all add: m seq_def)
qed simp

section \<open>Every end of the program\<close>

text \<open>The state that the program leaves: nothing connected or allocated; and the mutex was locked when it was not live.\<close>

definition cleaned :: "client \<Rightarrow> bool" where
  "cleaned c \<longleftrightarrow> \<not> net_connected (cl_net c) \<and> \<not> cl_crypto c \<and> \<not> wm_is_initialized (g_manager (cl_game c))
     \<and> active_words (g_table (cl_game c)) = {} \<and> \<not> cl_running c \<and> cl_misuse c"

definition ends_clean :: "(client \<Rightarrow> 'a outcome) \<Rightarrow> bool" where
  "ends_clean m \<longleftrightarrow> (\<forall>c. cl_mutex c \<noteq> Live \<longrightarrow> (case m c of
     Done a c' \<Rightarrow> cl_mutex c' \<noteq> Live
   | Exited code msg c' \<Rightarrow> cleaned c' \<and> (code = 0 \<or> code = 1)
   | _ \<Rightarrow> True))"

definition never_exits :: "(client \<Rightarrow> 'a outcome) \<Rightarrow> bool" where
  "never_exits m \<longleftrightarrow> (\<forall>c code msg c'. m c \<noteq> Exited code msg c')"

named_theorems calm_acts

lemma ends_seq: "ends_clean m \<Longrightarrow> (\<And>a. ends_clean (f a)) \<Longrightarrow> ends_clean (seq m f)"
  unfolding ends_clean_def seq_def by (fastforce split: outcome.splits)

lemma ends_if: "(b \<Longrightarrow> ends_clean m) \<Longrightarrow> (\<not> b \<Longrightarrow> ends_clean m') \<Longrightarrow> ends_clean (if b then m else m')"
  by simp

lemma ends_option: "ends_clean m \<Longrightarrow> (\<And>a. ends_clean (f a)) \<Longrightarrow> ends_clean (case x of None \<Rightarrow> m | Some a \<Rightarrow> f a)"
  by (cases x) simp_all

lemma ends_pair: "(\<And>a b. ends_clean (f a b)) \<Longrightarrow> ends_clean (case p of (a, b) \<Rightarrow> f a b)"
  by (cases p) simp

lemma ends_Undef: "ends_clean (\<lambda>_. Undef)"
  by (simp add: ends_clean_def)

lemma ends_ui: "keeps ui_move m \<Longrightarrow> never_exits m \<Longrightarrow> ends_clean m"
  by (auto simp: ends_clean_def keeps_def never_exits_def ui_move_def split: outcome.splits)

lemma calm_seq: "never_exits m \<Longrightarrow> (\<And>a. never_exits (f a)) \<Longrightarrow> never_exits (seq m f)"
  by (simp add: never_exits_def seq_def split: outcome.splits)

lemma calm_basic [calm_acts]:
  "never_exits (give a)" "never_exits (draw ds)" "never_exits getch" "never_exits read_sigint" "never_exits client_crypto_init"
  by (auto simp: never_exits_def give_def draw_def getch_def read_sigint_def client_crypto_init_def split: list.splits prod.splits)

lemma calm_wait_loop [calm_acts]: "never_exits wait_loop"
proof -
  have "wait_loop c \<noteq> Exited code msg c'" for c code msg c'
  proof (induction c rule: wait_loop.induct)
    case (1 c)
    obtain b1 c1 where e: "read_game_exit c = Done b1 c1" by (simp add: read_game_exit_def Let_def)
    obtain b2 c2 where g: "read_sigint c1 = Done b2 c2"
      by (cases "sigint_received (cl_net c1)") (auto simp: read_sigint_def)
    show ?case using "1.IH" e g
      by (cases b1; cases b2; cases "cl_keys c2") (auto simp: wait_loop.simps [of c])
  qed
  then show ?thesis by (simp add: never_exits_def)
qed

lemma calm_wait [calm_acts]: "never_exits (wait_for_key_or_signal y x prompt)"
  unfolding wait_for_key_or_signal_def by (intro calm_seq calm_acts)

lemma calm_get_string [calm_acts]: "never_exits (get_string_loop x m p b)"
proof -
  have "get_string_loop x m p b c \<noteq> Exited code msg c'" for p b c code msg c'
  proof (induction "length (cl_keys c)" arbitrary: p b c rule: less_induct)
    case less
    obtain g c1 where g: "read_sigint c = Done g c1"
      by (cases "sigint_received (cl_net c)") (auto simp: read_sigint_def)
    have k: "length (cl_keys c1) \<le> length (cl_keys c)" using keeps_read_sigint g ui_move_keys by (auto simp: keeps_def)
    show ?case
    proof (cases "\<not> length b < m - 1 \<or> g \<or> cl_keys c1 = []")
      case True
      then show ?thesis using g by (cases g) (auto simp: get_string_loop.simps [of x m p b c])
    next
      case False
      then obtain ch ks where ks: "cl_keys c1 = ch # ks" by (cases "cl_keys c1") auto
      have IH: "get_string_loop x m p' b' (c1\<lparr>cl_keys := ks, cl_draws := ds\<rparr>) \<noteq> Exited code msg c'" for p' b' ds
        by (rule less.hyps) (use k ks in simp)
      have here: "get_string_loop x m p' b' (c1\<lparr>cl_keys := ks\<rparr>) \<noteq> Exited code msg c'" for p' b'
        using IH [of p' b' "cl_draws c1"] by simp
      show ?thesis using IH here g ks False
        by (simp add: get_string_loop.simps [of x m p b c] Let_def split: option.split bool.split)
    qed
  qed
  then show ?thesis by (simp add: never_exits_def)
qed

lemma ends_request: "ends_clean (request_call f)"
  by (auto simp: ends_clean_def request_call_def Let_def split: call.splits)

lemma ends_simple:
  "ends_clean (set_running b)" "ends_clean clear_exit_request" "ends_clean words_missing"
  "ends_clean disconnect_client" "ends_clean connect_client"
  by (auto simp: ends_clean_def set_running_def clear_exit_request_def words_missing_def disconnect_client_def
      connect_client_def split: list.splits prod.splits if_splits)

lemma ends_cleanup: "code = 0 \<or> code = 1 \<Longrightarrow> ends_clean (perform_cleanup_and_exit code msg)"
  by (auto simp: ends_clean_def perform_cleanup_and_exit_def clean_table_def cleaned_def cleanup_word_manager_def
      disconnect_from_server_def crypto_cleanup_def Let_def)

lemmas ends_rules = ends_seq ends_if ends_option ends_pair ends_Undef ends_request ends_simple ends_cleanup

lemma ends_load: "ends_clean (load_words_from_server m le)"
proof -
  have "ends_clean (\<lambda>c. let (ok, w) = load_words_from_response le ws (g_manager (cl_game c))
             in Done ok (c\<lparr>cl_game := (cl_game c)\<lparr>g_manager := w\<rparr>\<rparr>))" for ws
    by (auto simp: ends_clean_def split: prod.splits)
  then show ?thesis unfolding load_words_from_server_def
    by (intro ends_rules ends_ui [OF keeps_give calm_basic(1)])
qed

lemma ends_play: "ends_clean play_game"
  by (auto simp: ends_clean_def play_game_def Let_def seq_def draw_def getch_def read_sigint_def give_def
      split: list.splits option.splits prod.splits if_splits)

lemma ends_stay: "ends_clean (stay_unless_sigint user)"
  unfolding stay_unless_sigint_def by (intro ends_rules; rule ends_ui; intro ui_acts calm_acts)

lemma ends_show_text: "(\<And>u. ends_clean (f u)) \<Longrightarrow> ends_clean (show_text y msg f)"
  unfolding show_text_def by (intro ends_rules; (rule ends_ui; intro ui_acts calm_acts)?)

lemma ends_back: "ends_clean (back_to_menu user)"
  unfolding back_to_menu_def by (intro ends_rules ends_stay; rule ends_ui; intro ui_acts calm_acts)

lemma ends_finished: "ends_clean (game_finished user score)"
  unfolding game_finished_def
  by (intro ends_rules ends_show_text ends_back; rule ends_ui; intro ui_acts calm_acts)

lemma ends_at: "(\<And>c. ends_clean (f c)) \<Longrightarrow> ends_clean (\<lambda>c. f c c)"
  by (simp add: ends_clean_def)

lemma ends_choices:
  "ends_clean (choose_game m le user)" "ends_clean (choose_logout user)" "ends_clean (choose_exit user)"
  "ends_clean show_leaderboard_ui" "ends_clean (show_how_to_play_ui col)" "ends_clean connect_failed"
proof -
  show "ends_clean (choose_game m le user)" unfolding choose_game_def
    by (intro ends_rules ends_load ends_play ends_finished; rule ends_ui; intro ui_acts calm_acts)
  show "ends_clean (choose_logout user)" unfolding choose_logout_def Let_def
    by (intro ends_rules ends_show_text; rule ends_ui; intro ui_acts calm_acts)
  show "ends_clean (choose_exit user)" unfolding choose_exit_def [abs_def] Let_def
    by (rule ends_at, intro ends_rules ends_stay disjI1 refl; rule ends_ui; intro ui_acts calm_acts)
  show "ends_clean show_leaderboard_ui" unfolding show_leaderboard_ui_def
    by (intro ends_rules; rule ends_ui; intro ui_acts calm_acts)
  show "ends_clean (show_how_to_play_ui col)" unfolding show_how_to_play_ui_def show_page_1_def show_page_2_def
    by (intro ends_rules; rule ends_ui; intro ui_acts calm_acts)
  show "ends_clean connect_failed" unfolding connect_failed_def [abs_def] Let_def
    by (rule ends_at, intro ends_rules disjI2 refl; rule ends_ui; intro ui_acts calm_acts)
qed

lemma ends_menu_loop: "ends_clean (menu_loop e n user)"
proof (induction n arbitrary: user)
  case (Suc n)
  have choice: "ends_clean (menu_choice e user choice)" for choice
    unfolding menu_choice_def
    by (intro ends_rules ends_choices ends_stay; rule ends_ui; intro ui_acts calm_acts)
  have round: "ends_clean (menu_round e user)" unfolding menu_round_def
    by (intro ends_rules choice; rule ends_ui; intro ui_acts calm_acts)
  show ?case unfolding menu_loop.simps
    by (intro ends_rules round Suc ends_ui [OF keeps_give calm_basic(1)])
qed (simp add: ends_clean_def)

lemma ends_unless_sigint: "ends_clean m \<Longrightarrow> ends_clean (unless_sigint m)"
  unfolding unless_sigint_def
  by (intro ends_rules ends_ui [OF keeps_give calm_basic(1)] ends_ui [OF keeps_read_sigint calm_basic(4)])

lemma ends_show_result: "ends_clean (show_result msg)"
  unfolding show_result_def status_def
  by (intro ends_rules ends_unless_sigint; rule ends_ui; intro ui_acts calm_acts)

lemma ends_hash: "ends_clean (hash_user_password ssl pw)"
proof -
  have core: "ends_clean (\<lambda>c. let (ok, hashed) = hash_password_sha256 ssl (cl_crypto c) (Some pw) in
          (if \<not> ok then seq (draw [Print Y_STATUS_MSG X_DEFAULT_POS ''Password hashing failed.'']) (\<lambda>_. give None)
           else give (Some hashed)) c)"
    by (auto simp: ends_clean_def seq_def draw_def give_def split: prod.splits)
  show ?thesis unfolding hash_user_password_def
    by (intro ends_rules core; rule ends_ui; intro ui_acts calm_acts)
qed

lemma ends_auth_requests: "ends_clean (auth_login u h)" "ends_clean (auth_register u h)"
  unfolding auth_login_def auth_register_def status_def
  by (intro ends_rules ends_unless_sigint ends_show_result; rule ends_ui; intro ui_acts calm_acts)+

lemma ends_input: "ends_clean (input_plain label n)" "ends_clean (input_password label n)"
  unfolding input_plain_def input_password_def custom_get_string_def Let_def
  by (intro ends_rules; rule ends_ui; intro ui_acts calm_acts)+

lemma ends_auth_loop: "ends_clean (auth_loop ssl n)"
proof (induction n)
  case (Suc n)
  have submit: "ends_clean (auth_submit ssl login u pw)" for login u pw
    unfolding auth_submit_def
    by (intro ends_rules ends_hash ends_show_result ends_auth_requests; rule ends_ui; intro ui_acts calm_acts)
  have choice: "ends_clean (auth_choice ssl ch)" for ch
    unfolding auth_choice_def status_def
    by (intro ends_rules ends_unless_sigint ends_input submit; rule ends_ui; intro ui_acts calm_acts)
  have round: "ends_clean (auth_round ssl)" unfolding auth_round_def
    by (intro ends_rules ends_unless_sigint choice; rule ends_ui; intro ui_acts calm_acts)
  have "ends_clean (case r of Again \<Rightarrow> auth_loop ssl n | Return code user \<Rightarrow> give (code, user))" for r
    using Suc ends_ui [OF keeps_give calm_basic(1)] by (cases r) simp_all
  then show ?case unfolding auth_loop.simps by (rule ends_seq [OF round])
qed (simp add: ends_clean_def)

lemma ends_auth: "ends_clean (auth_ui_main ssl)"
  unfolding auth_ui_main_def status_def
  by (intro ends_rules ends_at [of "\<lambda>c. auth_loop ssl (Suc (length (cl_keys c)))"] ends_auth_loop;
      rule ends_ui; intro ui_acts calm_acts)

lemma ends_exit_if: "ends_clean m \<Longrightarrow> ends_clean (exit_if_sigint msg m)"
  unfolding exit_if_sigint_def
  by (intro ends_rules ends_ui [OF keeps_read_sigint calm_basic(4)] disjI1 refl)

lemma ends_session_loop: "ends_clean (session_loop e n)"
proof (induction n)
  case (Suc n)
  have menu: "ends_clean (in_menu e user)" for user unfolding in_menu_def
    by (intro ends_rules ends_at [of "\<lambda>c. menu_loop e (Suc (length (cl_keys c))) user"] ends_menu_loop ends_exit_if
        ends_ui [OF keeps_give calm_basic(1)])
  have after: "ends_clean (after_auth e r user)" for r user unfolding after_auth_def
    by (intro ends_rules menu ends_ui [OF keeps_read_sigint calm_basic(4)] disjI1 refl)
  have "ends_clean (session_round e)" unfolding session_round_def
    by (intro ends_rules ends_exit_if ends_choices after ends_auth ends_ui [OF keeps_give calm_basic(1)])
  then show ?case unfolding session_loop.simps by (rule ends_seq [OF _ Suc])
qed (simp add: ends_clean_def)

lemma ends_game_update:
  "ends_clean m \<Longrightarrow> cl_mutex c \<noteq> Live \<Longrightarrow> (case m (c\<lparr>cl_game := g\<rparr>) of
     Done a c' \<Rightarrow> cl_mutex c' \<noteq> Live
   | Exited code msg c' \<Rightarrow> cleaned c' \<and> (code = 0 \<or> code = 1)
   | _ \<Rightarrow> True)"
  unfolding ends_clean_def by (drule spec [of _ "c\<lparr>cl_game := g\<rparr>"]) simp

text \<open>
  Claim C20. Wherever and however the client ends, through any of its calls of \<open>perform_cleanup_and_exit\<close>, its exit
  code is 0 or 1, the connection is closed, the word store and the table of active words are freed and the
  cryptography is cleaned up; but every such end also locks the mutex of the table of active words when that mutex is
  not initialised (no game was started) or already destroyed (by the clean-up of the last game), which is
  undefined in POSIX.
\<close>

theorem every_exit_cleans_up:
  assumes "cl_mutex c = Uninitialised" "client_main e c = Exited code msg c'"
  shows "(code = 0 \<or> code = 1) \<and> \<not> net_connected (cl_net c') \<and> \<not> cl_crypto c'
    \<and> \<not> wm_is_initialized (g_manager (cl_game c')) \<and> active_words (g_table (cl_game c')) = {} \<and> cl_misuse c'"
proof -
  have start: "ends_clean (\<lambda>c. case init_word_manager (me_init_words e) (g_manager (cl_game c)) of (ok, m) \<Rightarrow>
         (let c1 = c\<lparr>cl_game := (cl_game c)\<lparr>g_manager := m\<rparr>\<rparr> in
          if \<not> ok then perform_cleanup_and_exit 1 ''Failed to initialize word manager.'' c1
          else session_loop e (Suc (length (cl_keys c1))) c1))"
    unfolding ends_clean_def [of "\<lambda>c. case init_word_manager (me_init_words e) (g_manager (cl_game c)) of (ok, m) \<Rightarrow> _ c ok m"]
  proof (intro allI impI)
    fix c :: client assume c: "cl_mutex c \<noteq> Live"
    obtain ok m where im: "init_word_manager (me_init_words e) (g_manager (cl_game c)) = (ok, m)" by fastforce
    show "case (case init_word_manager (me_init_words e) (g_manager (cl_game c)) of (ok, m) \<Rightarrow>
         (let c1 = c\<lparr>cl_game := (cl_game c)\<lparr>g_manager := m\<rparr>\<rparr> in
          if \<not> ok then perform_cleanup_and_exit 1 ''Failed to initialize word manager.'' c1
          else session_loop e (Suc (length (cl_keys c1))) c1)) of
        Done a c' \<Rightarrow> cl_mutex c' \<noteq> Live | Exited code msg c' \<Rightarrow> cleaned c' \<and> (code = 0 \<or> code = 1) | _ \<Rightarrow> True"
      using ends_game_update [OF ends_cleanup [OF disjI2 [OF refl]] c] ends_game_update [OF ends_session_loop c]
      unfolding im prod.case Let_def by (cases ok) (simp_all only: if_True if_False simp_thms)
  qed
  have "ends_clean (client_main e)" unfolding client_main_def
    by (intro ends_rules start ends_ui [OF keeps_crypto_init calm_basic(5)] disjI2 refl)
  then show ?thesis using assms by (auto simp: ends_clean_def cleaned_def dest!: spec [of _ c])
qed

definition good_load :: load_env where
  "good_load = \<lparr>le_init1 = True, le_init2 = True, le_realloc = True, le_strdup = (\<lambda>_. True)\<rparr>"

definition no_memory :: main_env where
  "no_memory = \<lparr>me_ssl = toy_evp, me_malloc = True, me_load = good_load, me_init_words = False, me_colors = True\<rparr>"

theorem every_exit_cleans_up_witness:
  "\<exists>e c code msg c'. client_main e c = Exited code msg c' \<and> cl_misuse c' \<and> \<not> net_connected (cl_net c')"
proof -
  let ?c = "(idle_client [] [] [])\<lparr>cl_game := no_game\<lparr>g_manager := \<lparr>wm_words = [], wm_capacity = 0, wm_is_initialized = False\<rparr>\<rparr>\<rparr>"
  have m: "cl_mutex ?c = Uninitialised" by (simp add: idle_client_def)
  have i: "client_crypto_init ?c = Done True ?c" by (simp add: client_crypto_init_def crypto_init_def idle_client_def)
  have w: "init_word_manager (me_init_words no_memory) (g_manager (cl_game ?c)) = (False, \<lparr>wm_words = [], wm_capacity = 100, wm_is_initialized = False\<rparr>)"
    by (simp add: init_word_manager_def no_memory_def)
  obtain msg c' where run: "client_main no_memory ?c = Exited 1 msg c'"
    unfolding client_main_def seq_Done [where m = client_crypto_init and c = ?c, OF i] if_not_P [of "\<not> True", simplified] w prod.case Let_def
    by (simp add: perform_cleanup_and_exit_def Let_def w [simplified])
  from every_exit_cleans_up [OF m run] show ?thesis using run by blast
qed

section \<open>The words\<close>

lemma those_Some: "(\<And>x. x \<in> set xs \<Longrightarrow> f x = Some (g x)) \<Longrightarrow> those (map f xs) = Some (map g xs)"
  by (induction xs) auto

lemma NUL_in: "length (cstr b) < length b \<Longrightarrow> NUL \<in> set b"
proof (rule ccontr)
  assume "length (cstr b) < length b" "NUL \<notin> set b"
  moreover from this(2) have "takeWhile (\<lambda>c. c \<noteq> NUL) b = b" by (auto simp: takeWhile_eq_all_conv)
  ultimately show False by (simp add: cstr_def)
qed

lemma read_words:
  assumes "length rb = WORDLIST_SIZE" "wordlist_count rb = int (length ws)" "map (wordlist_word rb) [0..<length ws] = ws"
    and "\<forall>x \<in> set ws. length x < MAX_WORD_STR_LEN" "length ws \<le> MAX_WORDLIST_WORDS"
  shows "those (map (\<lambda>i. deref (ptr_at (Some rb) (4 + MAX_WORD_STR_LEN * i))) [0..<nat (wordlist_count rb)]) = Some ws"
proof -
  have "deref (ptr_at (Some rb) (4 + MAX_WORD_STR_LEN * i)) = Some (wordlist_word rb i)" if "i < length ws" for i
  proof -
    have "wordlist_word rb i = ws ! i" using assms(3) that by (metis add_0 length_map length_upt minus_nat.diff_0 nth_map nth_upt)
    then have "length (wordlist_word rb i) < MAX_WORD_STR_LEN" using assms(4) that by simp
    moreover have "MAX_WORD_STR_LEN \<le> length (drop (4 + MAX_WORD_STR_LEN * i) rb)" using that assms(1,5) by simp
    ultimately have "NUL \<in> set (drop (4 + MAX_WORD_STR_LEN * i) rb)"
      by (intro NUL_in) (simp add: wordlist_word_def)
    then show ?thesis by (simp add: wordlist_word_def)
  qed
  then show ?thesis
    using those_Some [of "[0..<length ws]" "\<lambda>i. deref (ptr_at (Some rb) (4 + MAX_WORD_STR_LEN * i))" "wordlist_word rb"]
      assms(2,3) by simp
qed

text \<open>The allocations of the loading succeed.\<close>

definition load_works :: "load_env \<Rightarrow> bool" where
  "load_works le \<longleftrightarrow> le_init1 le \<and> le_init2 le \<and> le_realloc le \<and> (\<forall>i. le_strdup le i)"

lemma load_words_done:
  assumes "request_call send_wordlist_request c = Done (0, rb) c1" "ws \<noteq> []" "load_works le" "length rb = WORDLIST_SIZE"
    and "wordlist_count rb = int (length ws)" "map (wordlist_word rb) [0..<length ws] = ws"
    and "\<forall>x \<in> set ws. length x < MAX_WORD_STR_LEN" "length ws \<le> MAX_WORDLIST_WORDS"
  shows "\<exists>m. load_words_from_server True le c = Done True (c1\<lparr>cl_game := (cl_game c1)\<lparr>g_manager := m\<rparr>\<rparr>)
    \<and> wm_words m = ws \<and> wm_is_initialized m"
proof -
  have "\<exists>m. load_words_from_response le ws m0 = (True, m) \<and> wm_words m = ws \<and> wm_is_initialized m" for m0
    using assms(3)
    by (auto simp: load_works_def load_words_from_response_def init_word_manager_def cleanup_word_manager_def Let_def list_all_iff)
  then obtain m where m: "load_words_from_response le ws (g_manager (cl_game c1)) = (True, m)" "wm_words m = ws" "wm_is_initialized m"
    by blast
  have count: "\<not> (0 \<noteq> (0 :: int) \<or> wordlist_count rb \<le> 0)" "\<not> int MAX_WORDLIST_WORDS < wordlist_count rb"
    using assms(2,5,8) by simp_all
  have "load_words_from_server True le c = Done True (c1\<lparr>cl_game := (cl_game c1)\<lparr>g_manager := m\<rparr>\<rparr>)"
    unfolding load_words_from_server_def seq_Done [where m = "request_call send_wordlist_request" and c = c, OF assms(1)] prod.case
      if_not_P [OF count(1)] if_not_P [OF count(2)] read_words [OF assms(4-8)] option.case using m(1) by simp
  then show ?thesis using m(2,3) by blast
qed

text \<open>
  Claim C21. The word store of the client is the word list of the server: when the server's reply to the request for the words
  comes back undisturbed and the allocations succeed, \<open>load_words_from_server\<close> succeeds and the store holds exactly
  the server's words, in their order.
\<close>

theorem words_come_from_server:
  assumes "words_ok s" "srv_words s \<noteq> []" "load_works le"
    and "net_connected (cl_net c)" "quiet (net_sig (cl_net c))" "MAX_BODY \<le> cap" "net_send (cl_net c) = taking cap [] @ evs"
  shows "\<exists>rb. handle_message env sock (msg_code MSG_TYPE_WORDLIST_REQ) None me s = Some ((MSG_TYPE_WORDLIST_RESP, rb), me, s)
    \<and> (\<forall>rest. stream (net_recv (cl_net c)) = frame MSG_TYPE_WORDLIST_RESP rb @ rest \<longrightarrow>
        (\<exists>c'. load_words_from_server True le c = Done True c'
           \<and> wm_words (g_manager (cl_game c')) = srv_words s \<and> wm_is_initialized (g_manager (cl_game c'))))"
proof -
  let ?rb = "enc_wordlist (srv_words s)"
  have ok: "\<forall>x \<in> set (srv_words s). nul_free x \<and> length x < MAX_WORD_STR_LEN" "length (srv_words s) \<le> MAX_WORDLIST_WORDS"
    using assms(1) by (auto simp: words_ok_def)
  note dec = wordlist_decode [OF ok] and len = length_enc_wordlist [OF ok]
  have short: "\<forall>x \<in> set (srv_words s). length x < MAX_WORD_STR_LEN" using ok(1) by blast
  have "\<exists>c'. load_words_from_server True le c = Done True c'
           \<and> wm_words (g_manager (cl_game c')) = srv_words s \<and> wm_is_initialized (g_manager (cl_game c'))"
    if str: "stream (net_recv (cl_net c)) = frame MSG_TYPE_WORDLIST_RESP ?rb @ rest" for rest
  proof -
    have ask: "\<exists>n. client_request ej Get_words rs (cl_net c) = Returns 0 ?rb n \<and> True" for ej rs
      using client_understands [OF assms(4-6), of Get_words evs MSG_TYPE_WORDLIST_RESP ?rb rest ej rs] assms(7) str len
      by (auto simp: body_bytes_def reply_shape_def)
    obtain c1 where call: "request_call send_wordlist_request c = Done (0, ?rb) c1"
      using request_returns [OF ask, of send_wordlist_request] by auto
    show ?thesis using load_words_done [OF call assms(2,3) len dec short ok(2)] by auto
  qed
  moreover have "handle_message env sock (msg_code MSG_TYPE_WORDLIST_REQ) None me s = Some ((MSG_TYPE_WORDLIST_RESP, ?rb), me, s)"
    by (simp add: handle_message_def)
  ultimately show ?thesis by blast
qed

text \<open>
  The count of a word list reply is trusted: a reply of the right size whose \<open>count\<close> is above 256 makes
  \<open>load_words_from_server\<close> read beyond the 256 words of the response, which is undefined.
\<close>

theorem wordlist_count_is_trusted:
  assumes "net_connected (cl_net c)" "quiet (net_sig (cl_net c))" "MAX_BODY \<le> cap" "net_send (cl_net c) = taking cap [] @ evs"
    and "stream (net_recv (cl_net c)) = frame MSG_TYPE_WORDLIST_RESP rb @ rest" "length rb = WORDLIST_SIZE"
    and "256 < wordlist_count rb"
  shows "load_words_from_server True le c = Undef"
proof -
  have ask: "\<exists>n. client_request ej Get_words rs (cl_net c) = Returns 0 rb n \<and> True" for ej rs
    using client_understands [OF assms(1-3), of Get_words evs MSG_TYPE_WORDLIST_RESP rb rest ej rs] assms(4-6)
    by (auto simp: body_bytes_def reply_shape_def)
  obtain n where "request_call send_wordlist_request c = Done (0, rb) (c\<lparr>cl_net := n, cl_stack := tl (tl (cl_stack c))\<rparr>)"
    using request_returns [OF ask, of send_wordlist_request] by auto
  then show ?thesis using assms(7) by (simp add: load_words_from_server_def seq_def)
qed

theorem words_come_from_server_witness:
  "\<exists>c c'. load_words_from_server True good_load c = Done True c' \<and> wm_words (g_manager (cl_game c')) = [''rain'']"
proof -
  have w: "srv_words fresh_server = [''rain'']" "words_ok fresh_server" by (simp_all add: fresh_server_def words_ok_def)
  let ?c = "\<lambda>rb. idle_client [] [Chunk (frame MSG_TYPE_WORDLIST_RESP rb)] (taking 20000 [] @ [])"
  have use: "\<exists>rb. handle_message sample_env 4 (msg_code MSG_TYPE_WORDLIST_REQ) None [] fresh_server = Some ((MSG_TYPE_WORDLIST_RESP, rb), [], fresh_server)
    \<and> (\<forall>rest. stream (net_recv (cl_net (?c x))) = frame MSG_TYPE_WORDLIST_RESP rb @ rest \<longrightarrow>
        (\<exists>c'. load_words_from_server True good_load (?c x) = Done True c'
           \<and> wm_words (g_manager (cl_game c')) = srv_words fresh_server \<and> wm_is_initialized (g_manager (cl_game c'))))" for x
    by (rule words_come_from_server [where cap = 20000]) (simp_all add: w quiet_def load_works_def good_load_def)
  obtain rb where hm: "handle_message sample_env 4 (msg_code MSG_TYPE_WORDLIST_REQ) None [] fresh_server = Some ((MSG_TYPE_WORDLIST_RESP, rb), [], fresh_server)"
    using use by blast
  have str: "stream (net_recv (cl_net (?c rb))) = frame MSG_TYPE_WORDLIST_RESP rb @ []" by (simp add: frame_def)
  obtain c' where "load_words_from_server True good_load (?c rb) = Done True c'" "wm_words (g_manager (cl_game c')) = srv_words fresh_server"
    using use [of rb] hm str by auto
  then show ?thesis using w by auto
qed

theorem wordlist_count_is_trusted_witness:
  "\<exists>c. load_words_from_server True good_load c = Undef"
proof -
  let ?rb = "enc_int 300 @ replicate (WORDLIST_SIZE - 4) NUL"
  let ?c = "idle_client [] [Chunk (frame MSG_TYPE_WORDLIST_RESP ?rb)] (taking 20000 [] @ [])"
  have str: "stream (net_recv (cl_net ?c)) = frame MSG_TYPE_WORDLIST_RESP ?rb @ []" by (simp add: frame_def)
  have count: "256 < wordlist_count ?rb" by (simp add: wordlist_count_def in_int32_def)
  have "load_words_from_server True good_load ?c = Undef"
    by (rule wordlist_count_is_trusted [OF _ _ _ _ str _ count, where cap = 20000 and evs = "[]"]) (simp_all add: quiet_def)
  then show ?thesis by blast
qed

section \<open>After a game\<close>

text \<open>
  A terminal that is too small for the game leaves the menu deaf: the failed start keeps the keyboard in the
  mode that does not wait, so that \<open>getch\<close> in the menu gives \<open>ERR\<close> when no key is ready; the menu takes that for
  an invalid option, and the key pressed next is swallowed by its prompt.
\<close>

theorem small_screen_leaves_menu_deaf:
  assumes "cl_games c = e # es" "ge_table e" "ge_height e < 10 \<or> ge_width e < 22" "cl_keys c = k # ks"
    and "net_sig (cl_net d) = []" "cl_sigs d = []" "cl_keys d = KEY_ERR # k' # ks'" "k' \<noteq> KEY_ERR"
  shows "\<exists>c' d'. play_game c = Done (-1) c' \<and> cl_nodelay c' \<and> cl_keys c' = ks
    \<and> menu_round me user d = Done (True, user) d' \<and> cl_keys d' = ks'"
proof -
  have "g_height (start_game (ge_height e) (ge_width e) g) = ge_height e - 5"
      "g_width (start_game (ge_height e) (ge_width e) g) = ge_width e - 2" for g
    by (simp_all add: start_game_def game_area_def)
  then have run: "\<exists>g. run_rain_typing_game (ge_table e) (ge_mutexes e) (ge_height e) (ge_width e) (ge_start e) (ge_rounds e) (cl_game c) = Some (-1, g)"
    using assms(2,3) by (auto simp: run_rain_typing_game_def Let_def)
  have play: "\<exists>c'. play_game c = Done (-1) c' \<and> cl_nodelay c' \<and> cl_keys c' = ks"
    using run assms(1,2,4) by (auto simp: play_game_def Let_def seq_def draw_def getch_def give_def)
  let ?d1 = "d\<lparr>cl_exit := False, cl_draws := cl_draws d @ menu_screen user\<rparr>"
  let ?d2 = "?d1\<lparr>cl_keys := k' # ks', cl_draws := cl_draws ?d1 @ [Print Y_STATUS_MSG X_DEFAULT_POS ''Invalid option. Press any key to try again.'']\<rparr>"
  have q: "quiet (net_sig (cl_net ?d2))" using assms(5) by (simp add: quiet_def)
  obtain ds n where w: "wait_for_key_or_signal (Y_STATUS_MSG + Y_MSG_OFFSET1) X_DEFAULT_POS [] ?d2
      = Done () (?d2\<lparr>cl_net := n, cl_keys := ks', cl_draws := cl_draws ?d2 @ ds\<rparr>)" "quiet (net_sig n)"
    using wait_one_key [OF q, of k' ks' "Y_STATUS_MSG + Y_MSG_OFFSET1" X_DEFAULT_POS "[]"] assms(6,8) by auto
  let ?d3 = "?d2\<lparr>cl_net := n, cl_keys := ks', cl_draws := cl_draws ?d2 @ ds\<rparr>"
  obtain n' where n': "read_sigint ?d3 = Done False (?d3\<lparr>cl_net := n'\<rparr>)" using read_sigint_quiet [of ?d3] w(2) by auto
  have stay: "seq (wait_for_key_or_signal (Y_STATUS_MSG + Y_MSG_OFFSET1) X_DEFAULT_POS []) (\<lambda>_. stay_unless_sigint user) ?d2
      = Done (True, user) (?d3\<lparr>cl_net := n'\<rparr>)"
    unfolding seq_Done [where m = "wait_for_key_or_signal (Y_STATUS_MSG + Y_MSG_OFFSET1) X_DEFAULT_POS []" and c = ?d2, OF w(1)]
      stay_unless_sigint_def seq_Done [where m = read_sigint and c = ?d3, OF n'] give_def by simp
  have "menu_choice me user KEY_ERR (?d1\<lparr>cl_keys := k' # ks'\<rparr>) = Done (True, user) (?d3\<lparr>cl_net := n'\<rparr>)"
    using stay by (simp add: menu_choice_def)
  then have "menu_round me user d = Done (True, user) (?d3\<lparr>cl_net := n'\<rparr>)"
    using assms(5,7) by (simp add: menu_round_def seq_def [of read_sigint] read_sigint_none seq_def [of clear_exit_request] clear_exit_request_def seq_Done)
  then show ?thesis using play by auto
qed

text \<open>
  After a game that was left with \<open>Ctrl+C\<close> the result is not shown for long: the request to leave is still set, so that
  the prompt of the result screen takes no key and the menu is drawn at once.
\<close>

theorem exit_request_skips_result:
  assumes "cl_exit c" "quiet (net_sig (cl_net c))"
  shows "\<exists>c'. back_to_menu user c = Done (True, user) c' \<and> cl_keys c' = cl_keys c"
proof -
  let ?c = "c\<lparr>cl_draws := cl_draws c @ [Print Y_STATUS_MSG X_DEFAULT_POS ''Press any key to return to the menu...'', Clrtoeol, Refresh]\<rparr>"
  obtain c1 where e: "read_game_exit ?c = Done True c1" "cl_keys c1 = cl_keys c" "cl_net c1 = cl_net c"
    using assms(1) by (auto simp: read_game_exit_def handle_sigint_def Let_def)
  then have w: "wait_loop ?c = Done () c1" by (subst wait_loop.simps) simp
  obtain n where n: "read_sigint c1 = Done False (c1\<lparr>cl_net := n\<rparr>)" using read_sigint_quiet [of c1] e(3) assms(2) by auto
  have "back_to_menu user c = Done (True, user) (c1\<lparr>cl_net := n\<rparr>)"
    using w n by (simp add: back_to_menu_def wait_for_key_or_signal_def stay_unless_sigint_def seq_def draw_def give_def)
  then show ?thesis using e(2) by simp
qed

theorem small_screen_leaves_menu_deaf_witness:
  "\<exists>c c'. play_game c = Done (-1) c' \<and> cl_nodelay c'"
proof -
  let ?e = "\<lparr>ge_table = True, ge_mutexes = True, ge_height = 8, ge_width = 80, ge_start = 0, ge_rounds = [], ge_exit = False\<rparr>"
  let ?c = "(idle_client [32] [] [])\<lparr>cl_games := [?e]\<rparr>"
  let ?d = "idle_client [KEY_ERR, 49] [] []"
  have "\<exists>c' d'. play_game ?c = Done (-1) c' \<and> cl_nodelay c' \<and> cl_keys c' = []
    \<and> menu_round no_memory ''bob'' ?d = Done (True, ''bob'') d' \<and> cl_keys d' = []"
    by (rule small_screen_leaves_menu_deaf [where e = ?e and es = "[]" and k = 32 and k' = 49]) simp_all
  then show ?thesis by blast
qed

theorem exit_request_skips_result_witness:
  "\<exists>c c'. cl_exit c \<and> back_to_menu ''bob'' c = Done (True, ''bob'') c' \<and> cl_keys c' = [32]"
proof -
  let ?c = "(idle_client [32] [] [])\<lparr>cl_exit := True\<rparr>"
  obtain c' where "back_to_menu ''bob'' ?c = Done (True, ''bob'') c'" "cl_keys c' = cl_keys ?c"
    using exit_request_skips_result [of ?c "''bob''"] by (auto simp: quiet_def)
  then show ?thesis by (intro exI [of _ ?c] exI [of _ c']) simp
qed

end
