(* ===== verification/Whole_Session.thy ===== *)
theory Whole_Session
  imports Client_Main
begin

text \<open>
  The client's program and the server's thread together: what a run of \<open>client_main\<close> without signals looks at is a
  \<open>view\<close>, each part of the program has a rule that takes one view to the next, and the rules compose to a session from the
  login to the exit, whose bytes are those of a connection that the server serves.
\<close>

section \<open>Without signals\<close>

lemma client_send_all_nosig: "client_send_all buf [] evs = (r, out, sig, evs') \<Longrightarrow> sig = []"
proof (induction evs arbitrary: buf out)
  case Nil
  then show ?case by (auto simp: client_send_all.simps split: if_splits)
next
  case (Cons e evs)
  then show ?case
    by (cases e) (auto simp: client_send_all.simps [of buf "[]" "x # evs" for x] split: if_splits prod.splits)
qed

lemma client_recv_all_nosig: "client_recv_all len got [] evs = (r, b, sig, evs') \<Longrightarrow> sig = []"
proof (induction evs arbitrary: got)
  case Nil
  then show ?case by (auto simp: client_recv_all.simps split: if_splits)
next
  case (Cons e evs)
  then show ?case
    by (cases e) (auto simp: client_recv_all.simps [of len got "[]" "x # evs" for x] split: if_splits)
qed

lemma net_all_nosig:
  "net_send_all buf n = (r, n') \<Longrightarrow> net_sig n = [] \<Longrightarrow> net_sig n' = []"
  "net_recv_all len n = (r, got, n') \<Longrightarrow> net_sig n = [] \<Longrightarrow> net_sig n' = []"
  by (auto simp: net_send_all_def net_recv_all_def dest: client_send_all_nosig client_recv_all_nosig split: prod.splits)

lemma sigint_received_nosig: "net_sig n = [] \<Longrightarrow> sigint_received n = (False, n)"
  by (simp add: sigint_received_def)

text \<open>An answer without an error leaves a connection without signals.\<close>

lemma request_nosig:
  assumes "client_request ejunk q resp n = Returns 0 rb n'" "net_sig n = []"
  shows "net_sig n' = []"
proof -
  note s = assms(1) [unfolded client_request_eq send_request_and_receive_response_def receive_response_def]
  show ?thesis
    using s assms(2)
    by (auto simp: sigint_received_nosig net_all_nosig Let_def split: if_splits prod.splits transfer.splits option.splits
        dest: net_all_nosig)
qed

section \<open>What a run looks at\<close>

text \<open>
  Of the client's state, a run without signals depends on: the connection with the bytes still to come and the bytes
  sent, the keys still to come, the words in the store, the games still to be played and the connections
  still to be made. (\<open>v_words\<close> is none where the words do not matter any more.)
\<close>

record view =
  v_connected :: bool
  v_keys :: "int list"
  v_in :: bytes
  v_sends :: "send_event list"
  v_out :: bytes
  v_words :: "string list option"
  v_games :: "game_env list"
  v_conns :: "(bool \<times> bool \<times> recv_event list \<times> send_event list) list"

definition seen :: "view \<Rightarrow> client \<Rightarrow> bool" where
  "seen w c \<longleftrightarrow> net_connected (cl_net c) = v_connected w \<and> net_sig (cl_net c) = []
     \<and> stream (net_recv (cl_net c)) = v_in w \<and> net_send (cl_net c) = v_sends w \<and> net_out (cl_net c) = v_out w
     \<and> cl_keys c = v_keys w \<and> \<not> cl_exit c \<and> cl_sigs c = [] \<and> cl_games c = v_games w \<and> cl_conns c = v_conns w
     \<and> (\<forall>ws. v_words w = Some ws \<longrightarrow> wm_is_initialized (g_manager (cl_game c)) \<and> wm_words (g_manager (cl_game c)) = ws)"

text \<open>
  A part of the program returns \<open>a\<close> and takes one view to another; a part ends the program having sent \<open>out\<close>.
\<close>

definition runs :: "(client \<Rightarrow> 'a outcome) \<Rightarrow> view \<Rightarrow> 'a \<Rightarrow> view \<Rightarrow> bool" where
  "runs m w a w' \<longleftrightarrow> (\<forall>c. seen w c \<longrightarrow> (\<exists>c'. m c = Done a c' \<and> seen w' c'))"

definition exits :: "(client \<Rightarrow> 'a outcome) \<Rightarrow> view \<Rightarrow> int \<Rightarrow> bytes \<Rightarrow> bool" where
  "exits m w code out \<longleftrightarrow> (\<forall>c. seen w c \<longrightarrow>
     (\<exists>msg c'. m c = Exited code msg c' \<and> net_out (cl_net c') = out \<and> \<not> net_connected (cl_net c')))"

lemma runs_seq: "runs m w a w1 \<Longrightarrow> runs (f a) w1 b w2 \<Longrightarrow> runs (seq m f) w b w2"
  unfolding runs_def by (metis seq_Done)

lemma exits_seq: "runs m w a w1 \<Longrightarrow> exits (f a) w1 code out \<Longrightarrow> exits (seq m f) w code out"
  unfolding runs_def exits_def by (metis seq_Done)

lemma exits_seq_first: "exits m w code out \<Longrightarrow> exits (seq m f) w code out"
  by (fastforce simp: exits_def seq_def)

lemma runs_at: "runs (F (length (v_keys w))) w a w' \<Longrightarrow> runs (\<lambda>c. F (length (cl_keys c)) c) w a w'"
  by (auto simp: runs_def seen_def)

lemma exits_at: "exits (F (length (v_keys w))) w code out \<Longrightarrow> exits (\<lambda>c. F (length (cl_keys c)) c) w code out"
  by (auto simp: exits_def seen_def)

lemma runs_basic:
  "runs (give a) w a w" "runs (draw ds) w () w" "runs read_sigint w False w"
  "v_keys w = k # ks \<Longrightarrow> runs getch w k (w\<lparr>v_keys := ks\<rparr>)"
  "runs client_crypto_init w True w" "runs (set_running b) w () w" "runs clear_exit_request w () w"
  "v_words w = Some ws \<Longrightarrow> runs words_missing w (ws = []) w"
  "runs disconnect_client w () (w\<lparr>v_connected := False\<rparr>)"
  by (auto simp: runs_def seen_def give_def draw_def read_sigint_none getch_def client_crypto_init_def crypto_init_def
      set_running_def clear_exit_request_def words_missing_def disconnect_client_def disconnect_from_server_def)

lemma runs_wait:
  assumes "v_keys w = k # ks" "k \<noteq> KEY_ERR"
  shows "runs (wait_for_key_or_signal y x prompt) w () (w\<lparr>v_keys := ks\<rparr>)"
  unfolding runs_def
proof (intro allI impI)
  fix c assume c: "seen w c"
  let ?c = "c\<lparr>cl_draws := cl_draws c @ [Print y x prompt, Clrtoeol, Refresh]\<rparr>"
  have "read_game_exit ?c = Done False ?c" using c by (cases c) (simp add: read_game_exit_def seen_def)
  moreover have "read_sigint ?c = Done False ?c" using c by (simp add: read_sigint_none seen_def)
  ultimately have "wait_for_key_or_signal y x prompt c = Done () (?c\<lparr>cl_keys := ks\<rparr>)"
    using c assms by (simp add: wait_for_key_or_signal_def wait_loop.simps [of ?c] seen_def)
  then show "\<exists>c'. wait_for_key_or_signal y x prompt c = Done () c' \<and> seen (w\<lparr>v_keys := ks\<rparr>) c'"
    using c by (simp add: seen_def)
qed

text \<open>A request with its whole reply.\<close>

definition answered :: "request \<Rightarrow> view \<Rightarrow> bytes \<Rightarrow> view \<Rightarrow> bool" where
  "answered q w rb w' \<longleftrightarrow> (\<exists>cap evs rest. MAX_BODY \<le> cap \<and> v_connected w
     \<and> v_sends w = taking cap (body_bytes (request_body q)) @ evs
     \<and> v_in w = frame (fst (reply_shape (msg_code (request_type q)))) rb @ rest
     \<and> length rb = snd (reply_shape (msg_code (request_type q)))
     \<and> w' = w\<lparr>v_sends := evs, v_in := rest, v_out := v_out w @ request_frame q\<rparr>)"

lemma runs_request:
  assumes "answered q w rb w'" "\<And>ejunk. f ejunk = client_request ejunk q"
  shows "runs (request_call f) w (0, rb) w'"
  unfolding runs_def
proof (intro allI impI)
  fix c assume c: "seen w c"
  obtain cap evs rest where q: "MAX_BODY \<le> cap" "v_connected w" "v_sends w = taking cap (body_bytes (request_body q)) @ evs"
      "v_in w = frame (fst (reply_shape (msg_code (request_type q)))) rb @ rest"
      "length rb = snd (reply_shape (msg_code (request_type q)))"
      "w' = w\<lparr>v_sends := evs, v_in := rest, v_out := v_out w @ request_frame q\<rparr>"
    using assms(1) by (auto simp: answered_def)
  have ask: "\<exists>n. client_request ej q rs (cl_net c) = Returns 0 rb n \<and> net_out n = v_out w @ request_frame q
      \<and> stream (net_recv n) = rest \<and> net_connected n \<and> net_send n = evs \<and> net_sig n = []" for ej rs
    using client_understands [of "cl_net c" cap q evs "fst (reply_shape (msg_code (request_type q)))" rb rest ej rs] q(1-5) c
      request_nosig [of ej q rs "cl_net c" rb]
    by (fastforce simp: seen_def quiet_def)
  from request_returns [OF ask, of f] assms(2)
  show "\<exists>c'. request_call f c = Done (0, rb) c' \<and> seen w' c'"
    using c q(2,6) by (force simp: seen_def)
qed

section \<open>The screens\<close>

lemma runs_unless: "runs m w a w' \<Longrightarrow> runs (unless_sigint m) w a w'"
  unfolding unless_sigint_def by (rule runs_seq [OF runs_basic(3)]) simp

lemma runs_status: "runs (status msg) w () w"
  unfolding status_def by (rule runs_basic(2))

text \<open>The login, from its fields to its last prompt.\<close>

lemma runs_login:
  assumes "answered (Login u h) w rb w'" "tells True rb" "length u < MAX_ID_LEN" "v_keys w = k # ks" "k \<noteq> KEY_ERR"
  shows "runs (auth_login u h) w (Return AUTH_UI_LOGIN_SUCCESS u) (w'\<lparr>v_keys := ks\<rparr>)"
proof -
  obtain m where m: "response_success rb \<noteq> 0" "message_of rb = Some m" using tells_message [OF assms(2)] by auto
  have keys: "v_keys w' = k # ks" using assms(1,4) by (auto simp: answered_def)
  have last: "runs (seq read_sigint (\<lambda>s. give (Return (if s then AUTH_UI_EXIT_SIGNAL else AUTH_UI_LOGIN_SUCCESS) (strncpy_str MAX_ID_LEN u))))
      (w'\<lparr>v_keys := ks\<rparr>) (Return AUTH_UI_LOGIN_SUCCESS u) (w'\<lparr>v_keys := ks\<rparr>)"
    using assms(3) by (intro runs_seq [OF runs_basic(3)]) (simp add: runs_basic(1))
  have call: "runs (request_call (\<lambda>ejunk. send_login_request ejunk u h)) w (0, rb) w'"
    by (rule runs_request [OF assms(1)]) simp
  have succ: "0 = (0 :: int) \<and> response_success rb \<noteq> 0" using m(1) by simp
  show ?thesis unfolding auth_login_def
    by (rule runs_seq [OF call], unfold prod.case, rule runs_unless, unfold if_P [OF succ] m(2) option.case,
        rule runs_seq [OF runs_status], rule runs_seq [OF runs_wait [OF keys assms(5)]], rule last)
qed

lemma runs_hash:
  assumes "hash_password_sha256 ssl True (Some pw) = (True, h)"
  shows "runs (hash_user_password ssl pw) w (Some h) w"
  using assms by (auto simp: hash_user_password_def client_crypto_init_def crypto_init_def runs_def seen_def seq_def give_def)

lemma runs_fields:
  assumes "runs (auth_submit ssl True u pw) (w\<lparr>v_keys := ks\<rparr>) a w'"
    and "\<forall>ch \<in> set (u @ pw). printable ch" "length u < 31" "length pw < 63" "v_keys w = keys_of u @ 10 # keys_of pw @ 10 # ks"
  shows "runs (auth_choice ssl 49) w a w'"
  unfolding runs_def
proof (intro allI impI)
  fix c assume c: "seen w c"
  obtain ds where "auth_choice ssl 49 c = auth_submit ssl True u pw (c\<lparr>cl_keys := ks, cl_draws := cl_draws c @ ds\<rparr>)"
    using typed_credentials [of c 49 u pw "keys_of pw @ 10 # ks" ks u ssl] assms(2-5) c by (auto simp: seen_def)
  moreover have "seen (w\<lparr>v_keys := ks\<rparr>) (c\<lparr>cl_keys := ks, cl_draws := cl_draws c @ ds\<rparr>)" using c by (simp add: seen_def)
  ultimately show "\<exists>c'. auth_choice ssl 49 c = Done a c' \<and> seen w' c'" using assms(1) by (simp add: runs_def)
qed

text \<open>The menu before the login, when the user logs in and when the user leaves.\<close>

lemma runs_auth:
  assumes "hash_password_sha256 ssl True (Some pw) = (True, h)" "\<forall>ch \<in> set (u @ pw). printable ch" "length u < 31" "length pw < 63"
    and "v_keys w = 49 # keys_of u @ 10 # keys_of pw @ 10 # k # ks" "k \<noteq> KEY_ERR"
    and "answered (Login u h) (w\<lparr>v_keys := k # ks\<rparr>) rb w'" "tells True rb"
  shows "runs (auth_ui_main ssl) w (AUTH_UI_LOGIN_SUCCESS, u) (w'\<lparr>v_keys := ks\<rparr>)"
proof -
  have "runs (auth_login u h) (w\<lparr>v_keys := k # ks\<rparr>) (Return AUTH_UI_LOGIN_SUCCESS u) (w'\<lparr>v_keys := ks\<rparr>)"
    using assms(3) by (intro runs_login [OF assms(7,8) _ _ assms(6)]) simp_all
  then have "runs (auth_submit ssl True u pw) (w\<lparr>v_keys := k # ks\<rparr>) (Return AUTH_UI_LOGIN_SUCCESS u) (w'\<lparr>v_keys := ks\<rparr>)"
    unfolding auth_submit_def by (intro runs_seq [OF runs_basic(2)] runs_seq [OF runs_hash [OF assms(1)]]) simp
  then have "runs (auth_choice ssl 49) (w\<lparr>v_keys := keys_of u @ 10 # keys_of pw @ 10 # k # ks\<rparr>)
      (Return AUTH_UI_LOGIN_SUCCESS u) (w'\<lparr>v_keys := ks\<rparr>)"
    by (intro runs_fields [OF _ assms(2-4)]) simp_all
  then have "runs (auth_round ssl) w (Return AUTH_UI_LOGIN_SUCCESS u) (w'\<lparr>v_keys := ks\<rparr>)"
    unfolding auth_round_def by (intro runs_unless runs_seq [OF runs_basic(2)] runs_seq [OF runs_basic(4) [OF assms(5)]])
  then have loop: "runs (auth_loop ssl (Suc n)) w (AUTH_UI_LOGIN_SUCCESS, u) (w'\<lparr>v_keys := ks\<rparr>)" for n
    unfolding auth_loop.simps by (rule runs_seq) (simp add: runs_basic(1))
  show ?thesis unfolding auth_ui_main_def
    by (rule runs_seq [OF runs_basic(5)]) (simp only: if_True if_not_P not_True_eq_False not_not if_False, rule runs_at, rule loop)
qed

lemma runs_auth_exit:
  assumes "v_keys w = 51 # ks"
  shows "runs (auth_ui_main ssl) w (AUTH_UI_EXIT_NORMAL, []) (w\<lparr>v_keys := ks\<rparr>)"
proof -
  have "runs (auth_choice ssl 51) (w\<lparr>v_keys := ks\<rparr>) (Return AUTH_UI_EXIT_NORMAL []) (w\<lparr>v_keys := ks\<rparr>)"
    by (simp add: auth_choice_def runs_basic(1))
  then have "runs (auth_round ssl) w (Return AUTH_UI_EXIT_NORMAL []) (w\<lparr>v_keys := ks\<rparr>)"
    unfolding auth_round_def by (intro runs_unless runs_seq [OF runs_basic(2)] runs_seq [OF runs_basic(4) [OF assms]])
  then have loop: "runs (auth_loop ssl (Suc n)) w (AUTH_UI_EXIT_NORMAL, []) (w\<lparr>v_keys := ks\<rparr>)" for n
    unfolding auth_loop.simps by (rule runs_seq) (simp add: runs_basic(1))
  show ?thesis unfolding auth_ui_main_def
    by (rule runs_seq [OF runs_basic(5)]) (simp only: if_True if_not_P not_True_eq_False not_not if_False, rule runs_at, rule loop)
qed

section \<open>The menu after the login\<close>

lemma runs_load:
  assumes "answered Get_words w rb w'" "ws \<noteq> []" "load_works le" "reply_says Get_words ok v ws rb"
    and "\<forall>x \<in> set ws. length x < MAX_WORD_STR_LEN" "length ws \<le> MAX_WORDLIST_WORDS"
  shows "runs (load_words_from_server True le) w True (w'\<lparr>v_words := Some ws\<rparr>)"
  unfolding runs_def
proof (intro allI impI)
  fix c assume "seen w c"
  moreover have "runs (request_call send_wordlist_request) w (0, rb) w'" by (rule runs_request [OF assms(1)]) simp
  ultimately obtain c1 where c1: "request_call send_wordlist_request c = Done (0, rb) c1" "seen w' c1"
    unfolding runs_def by blast
  have len: "length rb = WORDLIST_SIZE" using assms(1) by (auto simp: answered_def reply_shape_def)
  have says: "wordlist_count rb = int (length ws)" "map (wordlist_word rb) [0..<length ws] = ws" using assms(4) by simp_all
  obtain m where "load_words_from_server True le c = Done True (c1\<lparr>cl_game := (cl_game c1)\<lparr>g_manager := m\<rparr>\<rparr>)"
      "wm_words m = ws" "wm_is_initialized m"
    using load_words_done [OF c1(1) assms(2,3) len says assms(5,6)] by blast
  then show "\<exists>c'. load_words_from_server True le c = Done True c' \<and> seen (w'\<lparr>v_words := Some ws\<rparr>) c'"
    using c1(2) by (simp add: seen_def)
qed

text \<open>A game that comes to an end with the score \<open>n\<close>, whatever was left behind by an earlier one.\<close>

definition game_scores :: "game_env \<Rightarrow> string list \<Rightarrow> int \<Rightarrow> bool" where
  "game_scores e ws n \<longleftrightarrow> ge_table e \<and> \<not> ge_exit e \<and> 0 \<le> n \<and> in_int32 n
     \<and> (\<forall>g. wm_is_initialized (g_manager g) \<and> wm_words (g_manager g) = ws \<longrightarrow>
          (\<exists>g'. run_rain_typing_game True (ge_mutexes e) (ge_height e) (ge_width e) (ge_start e) (ge_rounds e) g = Some (n, g')))"

lemma runs_play:
  assumes "game_scores e ws n" "v_words w = Some ws" "v_games w = e # es" "v_keys w = k # ks"
  shows "runs play_game w n (w\<lparr>v_games := es, v_words := None, v_keys := ks\<rparr>)"
  unfolding runs_def
proof (intro allI impI)
  fix c assume c: "seen w c"
  then obtain g' where g': "run_rain_typing_game True (ge_mutexes e) (ge_height e) (ge_width e) (ge_start e) (ge_rounds e) (cl_game c)
      = Some (n, g')"
    using assms(1,2) unfolding game_scores_def seen_def by blast
  have n: "n \<noteq> -1" "n \<noteq> -2" "\<not> n < 0" "ge_table e" "\<not> ge_exit e" using assms(1) by (auto simp: game_scores_def)
  let ?c = "c\<lparr>cl_games := es, cl_game := g', cl_exit := False, cl_mutex := Destroyed, cl_nodelay := False\<rparr>"
  have c': "cl_games c = e # es" "cl_keys c = k # ks" "\<not> cl_exit c" using c assms by (auto simp: seen_def)
  have "read_sigint ?c = Done False ?c" using c by (simp add: read_sigint_none seen_def)
  then have "play_game c = Done n (?c\<lparr>cl_keys := ks\<rparr>)"
    using g' n c' by (simp add: play_game_def Let_def seq_def getch_def give_def)
  then show "\<exists>c'. play_game c = Done n c' \<and> seen (w\<lparr>v_games := es, v_words := None, v_keys := ks\<rparr>) c'"
    using c by (simp add: seen_def)
qed

lemma runs_stay: "runs (stay_unless_sigint user) w (True, user) w"
  unfolding stay_unless_sigint_def by (rule runs_seq [OF runs_basic(3)]) (simp add: runs_basic(1))

lemma runs_show_text: "msg = Some m \<Longrightarrow> runs (f ()) w a w' \<Longrightarrow> runs (show_text y msg f) w a w'"
  unfolding show_text_def by (simp only: option.case) (rule runs_seq [OF runs_basic(2)])

lemma runs_finished:
  assumes "answered (Submit n) w rb w'" "tells True rb" "0 \<le> n" "v_keys w = k # ks" "k \<noteq> KEY_ERR"
  shows "runs (game_finished user n) w (True, user) (w'\<lparr>v_keys := ks\<rparr>)"
proof -
  obtain m where m: "response_success rb \<noteq> 0" "message_of rb = Some m" using tells_message [OF assms(2)] by auto
  have keys: "v_keys w' = k # ks" using assms(1,4) by (auto simp: answered_def)
  have call: "runs (request_call (\<lambda>ejunk. send_score_submit_request ejunk n)) w (0, rb) w'"
    by (rule runs_request [OF assms(1)]) simp
  have ret: "runs (back_to_menu user) w' (True, user) (w'\<lparr>v_keys := ks\<rparr>)"
    unfolding back_to_menu_def by (rule runs_seq [OF runs_wait [OF keys assms(5)] runs_stay])
  have succ: "0 = (0 :: int) \<and> response_success rb \<noteq> 0" and pos: "\<not> n < 0"
    using m(1) assms(3) by simp_all
  show ?thesis unfolding game_finished_def
    by (rule runs_seq [OF runs_basic(6)], rule runs_seq [OF runs_basic(3)], unfold if_False, rule runs_seq [OF runs_basic(2)],
        unfold if_not_P [OF pos], rule runs_seq [OF runs_basic(2)], rule runs_seq [OF call], unfold prod.case,
        rule runs_seq [OF runs_basic(3)], unfold if_False if_P [OF succ] m(2) option.map, rule runs_show_text [OF refl], rule ret)
qed

lemma runs_choose_game:
  assumes "answered Get_words w rb w1" "ws \<noteq> []" "load_works le" "reply_says Get_words ok v ws rb"
    and "\<forall>x \<in> set ws. length x < MAX_WORD_STR_LEN" "length ws \<le> MAX_WORDLIST_WORDS"
    and "v_words w = Some []" "game_scores e ws n" "v_games w1 = e # es" "v_keys w1 = k1 # k # ks" "k \<noteq> KEY_ERR"
    and "answered (Submit n) (w1\<lparr>v_games := es, v_words := None, v_keys := k # ks\<rparr>) rb2 w2" "tells True rb2"
  shows "runs (choose_game True le user) w (True, user) (w2\<lparr>v_keys := ks\<rparr>)"
proof -
  have load: "runs (load_words_from_server True le) w True (w1\<lparr>v_words := Some ws\<rparr>)" by (rule runs_load [OF assms(1-6)])
  have play: "runs play_game (w1\<lparr>v_words := Some ws\<rparr>) n (w1\<lparr>v_games := es, v_words := None, v_keys := k # ks\<rparr>)"
    using runs_play [OF assms(8), of "w1\<lparr>v_words := Some ws\<rparr>" es k1 "k # ks"] assms(9,10) by simp
  have n: "0 \<le> n" using assms(8) by (simp add: game_scores_def)
  have fin: "runs (game_finished user n) (w1\<lparr>v_games := es, v_words := None, v_keys := k # ks\<rparr>) (True, user) (w2\<lparr>v_keys := ks\<rparr>)"
    by (rule runs_finished [OF assms(12,13) n _ assms(11)]) simp
  have not: "\<not> (\<not> True)" by simp
  show ?thesis unfolding choose_game_def
    by (rule runs_seq [OF runs_basic(6)], rule runs_seq [OF runs_basic(2)], rule runs_seq [OF runs_basic(8) [OF assms(7)]],
        unfold if_P [OF refl], rule runs_seq [OF load], unfold if_not_P [OF not], rule runs_seq [OF runs_basic(6)],
        rule runs_seq [OF runs_basic(2)], rule runs_seq [OF play], rule fin)
qed

lemma runs_choose_logout:
  assumes "answered Logout w rb w'" "tells True rb" "v_keys w = k # ks" "k \<noteq> KEY_ERR"
  shows "runs (choose_logout user) w (False, []) (w'\<lparr>v_keys := ks\<rparr>)"
proof -
  obtain m where m: "response_success rb \<noteq> 0" "message_of rb = Some m" using tells_message [OF assms(2)] by auto
  have keys: "v_keys w' = k # ks" using assms(1,3) by (auto simp: answered_def)
  have call: "runs (request_call send_logout_request) w (0, rb) w'"
    by (rule runs_request [OF assms(1)]) simp
  have last: "runs (seq read_sigint (\<lambda>s. give (\<not> s \<and> \<not> True, []))) (w'\<lparr>v_keys := ks\<rparr>) (False, []) (w'\<lparr>v_keys := ks\<rparr>)"
    by (rule runs_seq [OF runs_basic(3)]) (simp add: runs_basic(1))
  have succ: "(0 = (0 :: int) \<and> response_success rb \<noteq> 0) = True" using m(1) by simp
  show ?thesis unfolding choose_logout_def Let_def
    by (rule runs_seq [OF call], unfold prod.case, rule runs_seq [OF runs_basic(3)], unfold if_False,
        rule runs_seq [OF runs_basic(2)], unfold succ if_True m(2) option.map, rule runs_show_text [OF refl],
        rule runs_seq [OF runs_wait [OF keys assms(4)]], rule last)
qed

lemma runs_menu_round:
  assumes "v_keys w = k # ks" "runs (menu_choice e user k) (w\<lparr>v_keys := ks\<rparr>) r w'"
  shows "runs (menu_round e user) w r w'"
  unfolding menu_round_def
  by (rule runs_seq [OF runs_basic(3)], unfold if_False, rule runs_seq [OF runs_basic(7)], rule runs_seq [OF runs_basic(2)],
      rule runs_seq [OF runs_basic(4) [OF assms(1)]], rule assms(2))

lemma runs_menu_loop:
  assumes "runs (menu_round e user) w (stay, user1) w1" "if stay then runs (menu_loop e n user1) w1 user' w' else user' = user1 \<and> w' = w1"
  shows "runs (menu_loop e (Suc n) user) w user' w'"
  using assms(2) unfolding menu_loop.simps
  by (intro runs_seq [OF assms(1)]) (cases stay; simp add: runs_basic(1))

section \<open>The outer loop\<close>

lemma exits_cleanup: "exits (perform_cleanup_and_exit code msg) w code (v_out w)"
  by (auto simp: exits_def perform_cleanup_and_exit_def Let_def seen_def clean_table_def disconnect_from_server_def)

lemma runs_exit_if: "runs m w a w' \<Longrightarrow> runs (exit_if_sigint msg m) w a w'"
  unfolding exit_if_sigint_def by (rule runs_seq [OF runs_basic(3)]) simp

lemma exits_exit_if: "exits m w code out \<Longrightarrow> exits (exit_if_sigint msg m) w code out"
  unfolding exit_if_sigint_def by (rule exits_seq [OF runs_basic(3)]) simp

lemma runs_connect:
  assumes "\<not> v_connected w" "v_conns w = (True, True, revs, sevs) # cs"
  shows "runs connect_client w 0 (w\<lparr>v_connected := True, v_in := stream revs, v_sends := sevs, v_conns := cs\<rparr>)"
  using assms by (auto simp: runs_def seen_def connect_client_def connect_to_server_def)

lemma runs_in_menu:
  assumes "\<And>m. runs (menu_loop e (Suc (m + length (v_keys w))) u) w u' w'" "u \<noteq> []"
  shows "runs (in_menu e u) w () w'"
proof -
  have "runs (\<lambda>c. menu_loop e (Suc (length (cl_keys c))) u c) w u' w'"
    by (rule runs_at) (use assms(1) [of 0] in simp)
  then show ?thesis using assms(2) unfolding in_menu_def
    by (simp only: if_True not_False_eq_True) (rule runs_seq, assumption, rule runs_exit_if, rule runs_basic(1))
qed

text \<open>A round of the outer loop with a login, and one that the user leaves in the menu before the login.\<close>

lemma runs_session_round:
  assumes "\<not> v_connected w" "v_conns w = (True, True, revs, sevs) # cs"
    and "runs (auth_ui_main (me_ssl e)) (w\<lparr>v_connected := True, v_in := stream revs, v_sends := sevs, v_conns := cs\<rparr>)
          (AUTH_UI_LOGIN_SUCCESS, u) w1"
    and "runs (in_menu e u) w1 () w2"
  shows "runs (session_round e) w () (w2\<lparr>v_connected := False\<rparr>)"
proof -
  have no: "\<not> (0 \<noteq> (0 :: int))" "\<not> (False \<or> AUTH_UI_LOGIN_SUCCESS = AUTH_UI_EXIT_SIGNAL)" "\<not> AUTH_UI_LOGIN_SUCCESS = AUTH_UI_EXIT_NORMAL"
    by simp_all
  have after: "runs (after_auth e AUTH_UI_LOGIN_SUCCESS u) w1 () (w2\<lparr>v_connected := False\<rparr>)"
    unfolding after_auth_def
    by (rule runs_seq [OF runs_basic(3)], unfold if_not_P [OF no(2)] if_not_P [OF no(3)], rule runs_seq [OF assms(4)], rule runs_basic(9))
  show ?thesis unfolding session_round_def
    by (rule runs_exit_if, rule runs_seq [OF runs_basic(7)], rule runs_seq [OF runs_connect [OF assms(1,2)]],
        unfold if_not_P [OF no(1)], rule runs_seq [OF runs_basic(1)], rule runs_exit_if, rule runs_seq [OF assms(3)],
        unfold prod.case, rule after)
qed

lemma exits_session_round:
  assumes "\<not> v_connected w" "v_conns w = (True, True, revs, sevs) # cs" "v_keys w = 51 # ks"
  shows "exits (session_round e) w 0 (v_out w)"
proof -
  let ?w = "w\<lparr>v_connected := True, v_in := stream revs, v_sends := sevs, v_conns := cs\<rparr>"
  have no: "\<not> (0 \<noteq> (0 :: int))" "\<not> (False \<or> AUTH_UI_EXIT_NORMAL = AUTH_UI_EXIT_SIGNAL)" by simp_all
  have auth: "runs (auth_ui_main (me_ssl e)) ?w (AUTH_UI_EXIT_NORMAL, []) (?w\<lparr>v_keys := ks\<rparr>)"
    by (rule runs_auth_exit) (simp add: assms(3))
  have "exits (after_auth e AUTH_UI_EXIT_NORMAL []) (?w\<lparr>v_keys := ks\<rparr>) 0 (v_out (?w\<lparr>v_keys := ks\<rparr>))"
    unfolding after_auth_def
    by (rule exits_seq [OF runs_basic(3)], unfold if_not_P [OF no(2)] if_P [OF refl], rule exits_cleanup)
  then have after: "exits (after_auth e AUTH_UI_EXIT_NORMAL []) (?w\<lparr>v_keys := ks\<rparr>) 0 (v_out w)" by simp
  show ?thesis unfolding session_round_def
    by (rule exits_exit_if, rule exits_seq [OF runs_basic(7)], rule exits_seq [OF runs_connect [OF assms(1,2)]],
        unfold if_not_P [OF no(1)], rule exits_seq [OF runs_basic(1)], rule exits_exit_if, rule exits_seq [OF auth],
        unfold prod.case, rule after)
qed

lemma exits_session_loop:
  assumes "runs (session_round e) w () w1" "exits (session_round e) w1 code out"
  shows "exits (session_loop e (Suc (Suc n))) w code out"
  unfolding session_loop.simps by (rule exits_seq [OF assms(1)], rule exits_seq_first [OF assms(2)])

text \<open>The client when its process starts, without signals.\<close>

definition started :: "client \<Rightarrow> bool" where
  "started c \<longleftrightarrow> \<not> net_connected (cl_net c) \<and> net_sig (cl_net c) = [] \<and> net_out (cl_net c) = []
     \<and> \<not> cl_exit c \<and> cl_sigs c = [] \<and> \<not> wm_is_initialized (g_manager (cl_game c))"

lemma client_main_exits:
  assumes "started c" "me_init_words e" "cl_keys c \<noteq> []"
    and "\<And>w n. \<not> v_connected w \<Longrightarrow> v_keys w = cl_keys c \<Longrightarrow> v_out w = [] \<Longrightarrow> v_words w = Some [] \<Longrightarrow> v_games w = cl_games c
          \<Longrightarrow> v_conns w = cl_conns c \<Longrightarrow> exits (session_loop e (Suc (Suc n))) w code out"
  shows "\<exists>msg c'. client_main e c = Exited code msg c' \<and> net_out (cl_net c') = out \<and> \<not> net_connected (cl_net c')"
proof -
  let ?c = "c\<lparr>cl_crypto := True, cl_game := (cl_game c)\<lparr>g_manager := \<lparr>wm_words = [], wm_capacity = 100, wm_is_initialized = True\<rparr>\<rparr>\<rparr>"
  let ?w = "\<lparr>v_connected = False, v_keys = cl_keys c, v_in = stream (net_recv (cl_net c)), v_sends = net_send (cl_net c), v_out = [],
     v_words = Some [], v_games = cl_games c, v_conns = cl_conns c\<rparr>"
  obtain n where n: "length (cl_keys c) = Suc n" using assms(3) by (cases "cl_keys c") auto
  have "client_main e c = session_loop e (Suc (Suc n)) ?c"
    using assms(1,2) n by (simp add: client_main_def client_crypto_init_def crypto_init_def seq_def init_word_manager_def started_def
        del: session_loop.simps)
  moreover have "seen ?w ?c" using assms(1) by (simp add: seen_def started_def)
  moreover have "exits (session_loop e (Suc (Suc n))) ?w code out" by (rule assms(4)) simp_all
  ultimately show ?thesis by (auto simp: exits_def simp del: session_loop.simps)
qed

section \<open>A session from end to end\<close>

definition session_requests :: "string \<Rightarrow> string \<Rightarrow> int \<Rightarrow> request list" where
  "session_requests u h n = [Login u h, Get_words, Submit n, Logout]"

definition session_keys :: "string \<Rightarrow> string \<Rightarrow> int list \<Rightarrow> int list" where
  "session_keys u pw ks = 49 # keys_of u @ 10 # keys_of pw @ 10 # ks"

lemma answeredI:
  assumes "MAX_BODY \<le> cap" "v_connected w" "v_sends w = taking cap (body_bytes (request_body q)) @ evs"
    and "v_in w = frame (fst (reply_shape (msg_code (request_type q)))) rb @ rest"
    and "length rb = snd (reply_shape (msg_code (request_type q)))"
  shows "answered q w rb (w\<lparr>v_sends := evs, v_in := rest, v_out := v_out w @ request_frame q\<rparr>)"
  unfolding answered_def using assms by blast

abbreviation reply_frame :: "request \<Rightarrow> bytes \<Rightarrow> bytes" where
  "reply_frame q rb \<equiv> frame (fst (reply_shape (msg_code (request_type q)))) rb"

text \<open>The client's side, given the four replies.\<close>

lemma session_client:
  assumes "hash_password_sha256 (me_ssl e) True (Some pw) = (True, h)" "\<forall>ch \<in> set (u @ pw). printable ch"
    and "length u < 31" "length pw < 63" "u \<noteq> []" "MAX_BODY \<le> cap"
    and "me_malloc e" "load_works (me_load e)" "game_scores ge ws n" "ws \<noteq> []"
    and "\<forall>x \<in> set ws. length x < MAX_WORD_STR_LEN" "length ws \<le> MAX_WORDLIST_WORDS"
    and "\<not> v_connected w" "v_words w = Some []" "v_games w = ge # gs" "v_out w = []"
    and "v_keys w = session_keys u pw (k1 # 49 # k2 # k3 # 52 # k4 # 51 # ks)" "KEY_ERR \<notin> {k1, k3, k4}"
    and "v_conns w = (True, True, revs, concat (map (\<lambda>q. taking cap (body_bytes (request_body q))) (session_requests u h n)))
          # (True, True, revs2, sevs2) # cs"
    and "stream revs = reply_frame (Login u h) rb1 @ reply_frame Get_words rb2 @ reply_frame (Submit n) rb3 @ reply_frame Logout rb4"
    and "length rb1 = snd (reply_shape (msg_code (request_type (Login u h))))" "length rb2 = snd (reply_shape (msg_code (request_type Get_words)))"
    and "length rb3 = snd (reply_shape (msg_code (request_type (Submit n))))" "length rb4 = snd (reply_shape (msg_code (request_type Logout)))"
    and "tells True rb1" "reply_says Get_words ok v ws rb2" "tells True rb3" "tells True rb4"
  shows "exits (session_loop e (Suc (Suc m))) w 0 (concat (map request_frame (session_requests u h n)))"
proof -
  let ?t = "\<lambda>q. taking cap (body_bytes (request_body q))"
  let ?cs = "(True, True, revs2, sevs2) # cs"
  let ?W = "\<lambda>keys inn sn out words games. \<lparr>v_connected = True, v_keys = keys, v_in = inn, v_sends = sn, v_out = out, v_words = words,
      v_games = games, v_conns = ?cs\<rparr>"
  let ?i2 = "reply_frame Get_words rb2 @ reply_frame (Submit n) rb3 @ reply_frame Logout rb4"
  let ?i3 = "reply_frame (Submit n) rb3 @ reply_frame Logout rb4" and ?i4 = "reply_frame Logout rb4 @ []"
  let ?s2 = "?t Get_words @ ?t (Submit n) @ ?t Logout @ []" and ?s3 = "?t (Submit n) @ ?t Logout @ []" and ?s4 = "?t Logout @ []"
  let ?o1 = "[] @ request_frame (Login u h)"
  let ?o2 = "?o1 @ request_frame Get_words" let ?o3 = "?o2 @ request_frame (Submit n)" let ?o4 = "?o3 @ request_frame Logout"
  let ?k1 = "49 # k2 # k3 # 52 # k4 # 51 # ks"
  let ?wc = "?W (v_keys w) (reply_frame (Login u h) rb1 @ ?i2) (?t (Login u h) @ ?s2) [] (Some []) (ge # gs)"
  have wc: "w\<lparr>v_connected := True, v_in := stream revs, v_sends := concat (map ?t (session_requests u h n)), v_conns := ?cs\<rparr> = ?wc"
    by (rule view.equality) (simp_all add: assms(14-16,20) session_requests_def)
  have k: "k1 \<noteq> KEY_ERR" "k3 \<noteq> KEY_ERR" "k4 \<noteq> KEY_ERR" using assms(18) by auto
  have a1: "answered (Login u h) (?wc\<lparr>v_keys := k1 # ?k1\<rparr>) rb1 (?W (k1 # ?k1) ?i2 ?s2 ?o1 (Some []) (ge # gs))"
    using answeredI [OF assms(6), of "?wc\<lparr>v_keys := k1 # ?k1\<rparr>" "Login u h" ?s2 rb1 ?i2] assms(21) by simp
  have keys: "v_keys ?wc = 49 # keys_of u @ 10 # keys_of pw @ 10 # k1 # ?k1" using assms(17) by (simp add: session_keys_def)
  let ?w1 = "?W ?k1 ?i2 ?s2 ?o1 (Some []) (ge # gs)"
  have auth: "runs (auth_ui_main (me_ssl e)) ?wc (AUTH_UI_LOGIN_SUCCESS, u) ?w1"
    using runs_auth [OF assms(1-4) keys k(1) a1 assms(25)] by simp
  let ?g = "?W (k2 # k3 # 52 # k4 # 51 # ks)"
  have a2: "answered Get_words (?g ?i2 ?s2 ?o1 (Some []) (ge # gs)) rb2 (?g ?i3 ?s3 ?o2 (Some []) (ge # gs))"
    using answeredI [OF assms(6), of "?g ?i2 ?s2 ?o1 (Some []) (ge # gs)" Get_words ?s3 rb2 ?i3] assms(22) by simp
  let ?h = "?W (k3 # 52 # k4 # 51 # ks)"
  have a3: "answered (Submit n) (?h ?i3 ?s3 ?o2 None gs) rb3 (?h ?i4 ?s4 ?o3 None gs)"
    using answeredI [OF assms(6), of "?h ?i3 ?s3 ?o2 None gs" "Submit n" ?s4 rb3 ?i4] assms(23) by simp
  let ?w2 = "?W (52 # k4 # 51 # ks) ?i4 ?s4 ?o3 None gs"
  have "runs (choose_game True (me_load e) u) (?g ?i2 ?s2 ?o1 (Some []) (ge # gs)) (True, u) (?h ?i4 ?s4 ?o3 None gs\<lparr>v_keys := 52 # k4 # 51 # ks\<rparr>)"
    by (rule runs_choose_game [OF a2 assms(10,8,26,11,12) _ assms(9) _ _ k(2) _ assms(27)]) (use a3 in simp_all)
  then have game: "runs (menu_choice e u 49) (?w1\<lparr>v_keys := k2 # k3 # 52 # k4 # 51 # ks\<rparr>) (True, u) ?w2"
    using assms(7) by (simp add: menu_choice_def)
  have round1: "runs (menu_round e u) ?w1 (True, u) ?w2" by (rule runs_menu_round [OF _ game]) simp
  let ?l = "?W (k4 # 51 # ks)"
  have a4: "answered Logout (?l ?i4 ?s4 ?o3 None gs) rb4 (?l [] [] ?o4 None gs)"
    using answeredI [OF assms(6), of "?l ?i4 ?s4 ?o3 None gs" Logout "[]" rb4 "[]"] assms(24) by simp
  let ?w3 = "?W (51 # ks) [] [] ?o4 None gs"
  have "runs (choose_logout u) (?l ?i4 ?s4 ?o3 None gs) (False, []) (?l [] [] ?o4 None gs\<lparr>v_keys := 51 # ks\<rparr>)"
    by (rule runs_choose_logout [OF a4 assms(28) _ k(3)]) simp
  then have logout: "runs (menu_choice e u 52) (?w2\<lparr>v_keys := k4 # 51 # ks\<rparr>) (False, []) ?w3"
    by (simp add: menu_choice_def)
  have round2: "runs (menu_round e u) ?w2 (False, []) ?w3" by (rule runs_menu_round [OF _ logout]) simp
  have enough: "runs (menu_loop e (Suc (Suc j)) u) ?w1 [] ?w3" for j
    by (rule runs_menu_loop [OF round1], unfold if_True, rule runs_menu_loop [OF round2]) simp
  have loop: "runs (menu_loop e (Suc (j + length (v_keys ?w1))) u) ?w1 [] ?w3" for j
    using enough [of "j + length (k2 # k3 # 52 # k4 # 51 # ks)"] by simp
  have menu: "runs (in_menu e u) ?w1 () ?w3" by (rule runs_in_menu [OF loop assms(5)])
  have first: "runs (session_round e) w () (?w3\<lparr>v_connected := False\<rparr>)"
    by (rule runs_session_round [OF assms(13,19) _ menu]) (unfold wc, rule auth)
  have "exits (session_round e) (?w3\<lparr>v_connected := False\<rparr>) 0 (v_out (?w3\<lparr>v_connected := False\<rparr>))"
    by (rule exits_session_round [where ks = ks]) simp_all
  then have "exits (session_round e) (?w3\<lparr>v_connected := False\<rparr>) 0 (concat (map request_frame (session_requests u h n)))"
    by (simp add: session_requests_def)
  with first show ?thesis by (rule exits_session_loop)
qed

lemma session_replies:
  assumes "replies_to [(Login u h, True, va), (Get_words, True, vb), (Submit n, True, vc), (Logout, True, vd)] ws out"
  shows "\<exists>rb1 rb2 rb3 rb4.
       out = reply_frame (Login u h) rb1 @ reply_frame Get_words rb2 @ reply_frame (Submit n) rb3 @ reply_frame Logout rb4
       \<and> length rb1 = snd (reply_shape (msg_code (request_type (Login u h)))) \<and> length rb2 = snd (reply_shape (msg_code (request_type Get_words)))
       \<and> length rb3 = snd (reply_shape (msg_code (request_type (Submit n)))) \<and> length rb4 = snd (reply_shape (msg_code (request_type Logout)))
       \<and> tells True rb1 \<and> reply_says Get_words True vb ws rb2 \<and> tells True rb3 \<and> tells True rb4"
proof -
  obtain rb1 r1 where 1: "out = reply_frame (Login u h) rb1 @ r1" "length rb1 = snd (reply_shape (msg_code (request_type (Login u h))))"
      "tells True rb1" and rest1: "replies_to [(Get_words, True, vb), (Submit n, True, vc), (Logout, True, vd)] ws r1"
    using assms unfolding replies_to.simps reply_says.simps by blast
  obtain rb2 r2 where 2: "r1 = reply_frame Get_words rb2 @ r2" "length rb2 = snd (reply_shape (msg_code (request_type Get_words)))"
      "reply_says Get_words True vb ws rb2" and rest2: "replies_to [(Submit n, True, vc), (Logout, True, vd)] ws r2"
    using rest1 unfolding replies_to.simps(2) by blast
  obtain rb3 r3 where 3: "r2 = reply_frame (Submit n) rb3 @ r3" "length rb3 = snd (reply_shape (msg_code (request_type (Submit n))))"
      "tells True rb3" and rest3: "replies_to [(Logout, True, vd)] ws r3"
    using rest2 unfolding replies_to.simps reply_says.simps by blast
  obtain rb4 where 4: "r3 = reply_frame Logout rb4" "length rb4 = snd (reply_shape (msg_code (request_type Logout)))" "tells True rb4"
    using rest3 unfolding replies_to.simps reply_says.simps by (metis append_Nil2)
  show ?thesis using 1 2 3 4 by blast
qed

text \<open>
  Claim C3. A whole session, client and server together, for a registered user who is not online: the user types name and password, plays a
  game that ends with the score \<open>n\<close>, logs out and leaves. The server's thread for the connection, given the bytes that
  the client sends, cut in any way, sends replies and ends, with the score recorded for the user and nobody online who was not
  before. The client, given these replies, cut in any way, sends exactly those bytes, frames of a login with the hash of
  the password, of a request for the words, of the score, and of a logout; and it exits with code 0 and its connection closed.
\<close>

theorem whole_session:
  assumes "service_rel s v" "accounts v u = Some h" "u \<noteq> []" "u \<notin> online v" "card (online v) < MAX_LOGGED_IN_USERS" "srv_words s \<noteq> []"
    and "calm env" "WORDLIST_SIZE \<le> N" "MAX_BODY \<le> cap"
    and "hash_password_sha256 (me_ssl e) True (Some pw) = (True, h)"
    and "\<forall>ch \<in> set (u @ pw). printable ch" "length u < 31" "length pw < 63" "KEY_ERR \<notin> {k1, k3, k4}"
    and "me_init_words e" "me_malloc e" "load_works (me_load e)" "game_scores ge (srv_words s) n"
    and "stream srevs = concat (map request_frame (session_requests u h n))" "stream_fails srevs"
  shows "\<exists>out s'. handle_client env i sock [] s srevs (replicate 8 (Sent N)) = (Conn_closed, s', out)
    \<and> service_rel s' (v\<lparr>records := records v @ [(u, n)]\<rparr>)
    \<and> (\<forall>c crevs revs2 sevs2 cs gs. started c \<and> cl_keys c = session_keys u pw (k1 # 49 # k2 # k3 # 52 # k4 # 51 # ks) \<and> cl_games c = ge # gs
          \<and> cl_conns c = (True, True, crevs, concat (map (\<lambda>q. taking cap (body_bytes (request_body q))) (session_requests u h n)))
                # (True, True, revs2, sevs2) # cs \<and> stream crevs = out
        \<longrightarrow> (\<exists>msg c'. client_main e c = Exited 0 msg c' \<and> net_out (cl_net c') = concat (map request_frame (session_requests u h n))
              \<and> \<not> net_connected (cl_net c')))"
proof -
  have "\<exists>d. h = bytes_to_hex d \<and> length d = 32" using assms(10) by (rule hash_success) blast
  then have h: "nul_free h" "length h < MAX_PW_LEN" by auto
  have "\<not> printable NUL" by (simp add: printable_def)
  then have "nul_free u" using assms(11) by (auto simp: nul_free_def)
  moreover have "in_int32 n" using assms(18) by (simp add: game_scores_def)
  ultimately have ok: "\<forall>r \<in> set (session_requests u h n). request_ok r" using h assms(12) by (simp add: session_requests_def)
  have sess: "session_rel v []" by (simp add: session_rel_def)
  let ?v2 = "v\<lparr>records := records v @ [(u, n)]\<rparr>"
  have same: "v\<lparr>online := insert u (online v) - {u}, records := records v @ [(u, n)]\<rparr> = ?v2" using assms(4) by simp
  obtain va vb vc vd where tr: "service_run (session_requests u h n) [] v
      = ([(Login u h, True, va), (Get_words, True, vb), (Submit n, True, vc), (Logout, True, vd)], [], ?v2)"
    using assms(2-5) same by (simp add: session_requests_def)
  have four: "2 * length (session_requests u h n) = 8" by (simp add: session_requests_def)
  obtain out s' where served: "handle_client env i sock [] s srevs (replicate 8 (Sent N)) = (Conn_closed, s', out)"
      "replies_to [(Login u h, True, va), (Get_words, True, vb), (Submit n, True, vc), (Logout, True, vd)] (srv_words s) out"
      "service_rel s' (service_leave [] ?v2)"
    using session_run [OF assms(7) ok assms(8,20,1) sess assms(19) tr, of i sock] unfolding four by blast
  have rel: "service_rel s' ?v2" using served(3) by (simp add: service_leave_def)
  have words: "\<forall>x \<in> set (srv_words s). length x < MAX_WORD_STR_LEN" "length (srv_words s) \<le> MAX_WORDLIST_WORDS"
    using assms(1) by (auto simp: service_rel_def words_ok_def)
  have client: "\<exists>msg c'. client_main e c = Exited 0 msg c' \<and> net_out (cl_net c') = concat (map request_frame (session_requests u h n))
      \<and> \<not> net_connected (cl_net c')"
    if c: "started c" "cl_keys c = session_keys u pw (k1 # 49 # k2 # k3 # 52 # k4 # 51 # ks)" "cl_games c = ge # gs"
      "cl_conns c = (True, True, crevs, concat (map (\<lambda>q. taking cap (body_bytes (request_body q))) (session_requests u h n)))
         # (True, True, revs2, sevs2) # cs" "stream crevs = out" for c crevs revs2 sevs2 cs gs
  proof -
    obtain rb1 rb2 rb3 rb4 where rb: "stream crevs = reply_frame (Login u h) rb1 @ reply_frame Get_words rb2 @ reply_frame (Submit n) rb3
          @ reply_frame Logout rb4"
        "length rb1 = snd (reply_shape (msg_code (request_type (Login u h))))" "length rb2 = snd (reply_shape (msg_code (request_type Get_words)))"
        "length rb3 = snd (reply_shape (msg_code (request_type (Submit n))))" "length rb4 = snd (reply_shape (msg_code (request_type Logout)))"
        "tells True rb1" "reply_says Get_words True vb (srv_words s) rb2" "tells True rb3" "tells True rb4"
      using session_replies [OF served(2)] unfolding c(5) by blast
    have keys: "cl_keys c \<noteq> []" by (simp add: c(2) session_keys_def)
    show ?thesis
      by (rule client_main_exits [OF c(1) assms(15) keys])
        (rule session_client [OF assms(10,11,12,13,3,9,16,17,18,6) words _ _ _ _ _ assms(14) _ rb], simp_all add: c)
  qed
  show ?thesis using served(1) rel client by blast
qed

text \<open>Bob plays the game of \<open>rain_game\<close> and scores 4.\<close>

definition rain_env :: game_env where
  "rain_env = \<lparr>ge_table = True, ge_mutexes = True, ge_height = 24, ge_width = 80, ge_start = 0, ge_rounds = rain_rounds, ge_exit = False\<rparr>"

definition plain_env :: main_env where
  "plain_env = \<lparr>me_ssl = toy_evp, me_malloc = True, me_load = good_load, me_init_words = True, me_colors = True\<rparr>"

definition secret_server :: server where
  "secret_server = fresh_server\<lparr>srv_db := store_user ''bob'' secret_hash empty_db\<rparr>"

lemma secret_server_rel:
  "service_rel secret_server \<lparr>accounts = stored_password (srv_db secret_server), records = [], online = {}\<rparr>"
  "stored_password (srv_db secret_server) ''bob'' = Some secret_hash" "srv_words secret_server = [''rain'']"
proof -
  have "users_inv (store_user ''bob'' secret_hash empty_db)"
    using users_dir.inv_enter [OF users_inv_empty secret_hash_ok(1)] .
  then show "service_rel secret_server \<lparr>accounts = stored_password (srv_db secret_server), records = [], online = {}\<rparr>"
    by (simp add: service_rel_def secret_server_def words_ok_def) (simp add: fresh_server_def)
  show "stored_password (srv_db secret_server) ''bob'' = Some secret_hash"
    using users_dir.lookup_enter [OF users_inv_empty secret_hash_ok(1), of "''bob''"]
    by (simp add: secret_server_def stored_password_def find_user_in_file_ok) (simp add: users_content_def empty_db_def)
  show "srv_words secret_server = [''rain'']" by (simp add: secret_server_def fresh_server_def)
qed

lemma rain_env_scores: "game_scores rain_env [''rain''] 4"
  using rain_game by (simp add: game_scores_def rain_env_def in_int32_def)

theorem whole_session_witness:
  "\<exists>srevs out s' c msg c'. handle_client calm_env 0 4 [] secret_server srevs (replicate 8 (Sent 20000)) = (Conn_closed, s', out)
     \<and> scores_content (srv_db s') = scores_text [(''bob'', 4)]
     \<and> client_main plain_env c = Exited 0 msg c' \<and> net_out (cl_net c') = stream srevs"
proof -
  let ?reqs = "session_requests ''bob'' secret_hash 4"
  let ?bytes = "concat (map request_frame ?reqs)"
  let ?srevs = "[Chunk ?bytes, Chunk []]"
  let ?v = "\<lparr>accounts = stored_password (srv_db secret_server), records = [], online = {}\<rparr>"
  have "?bytes \<noteq> []" by (simp add: session_requests_def request_frame_def frame_def)
  then have str: "stream ?srevs = ?bytes" by simp
  have acc: "accounts ?v ''bob'' = Some secret_hash" "''bob'' \<noteq> ([] :: string)" "''bob'' \<notin> online ?v"
      "card (online ?v) < MAX_LOGGED_IN_USERS" "srv_words secret_server \<noteq> []"
    using secret_server_rel by simp_all
  have env: "hash_password_sha256 (me_ssl plain_env) True (Some ''secret'') = (True, secret_hash)" "me_init_words plain_env" "me_malloc plain_env"
      "load_works (me_load plain_env)" "game_scores rain_env (srv_words secret_server) 4"
    using secret_hash rain_env_scores secret_server_rel(3) by (simp_all add: plain_env_def load_works_def good_load_def)
  have n: "WORDLIST_SIZE \<le> 20000" "MAX_BODY \<le> 20000" "length ''bob'' < 31" "length ''secret'' < 63" "KEY_ERR \<notin> {32, 32, 32 :: int}" "stream_fails ?srevs"
    by simp_all
  let ?sends = "concat (map (\<lambda>q. taking 20000 (body_bytes (request_body q))) ?reqs)"
  let ?keys = "session_keys ''bob'' ''secret'' (32 # 49 # 32 # 32 # 52 # 32 # 51 # [])"
  define C where "C = (\<lambda>out. (idle_client ?keys [] [])\<lparr>cl_net := \<lparr>net_connected = False, net_sig = [], net_recv = [], net_send = [], net_out = []\<rparr>,
     cl_game := no_game\<lparr>g_manager := \<lparr>wm_words = [], wm_capacity = 0, wm_is_initialized = False\<rparr>\<rparr>, cl_games := [rain_env],
     cl_conns := [(True, True, [Chunk out], ?sends), (True, True, [], [])]\<rparr>)"
  have C: "started (C out)" "cl_keys (C out) = ?keys" "cl_games (C out) = [rain_env]"
      "cl_conns (C out) = (True, True, [Chunk out], ?sends) # (True, True, [], []) # []" "stream [Chunk out] = out" for out
    by (simp_all add: C_def started_def)
  obtain out s' where run: "handle_client calm_env 0 4 [] secret_server ?srevs (replicate 8 (Sent 20000)) = (Conn_closed, s', out)"
      "service_rel s' (?v\<lparr>records := records ?v @ [(''bob'', 4)]\<rparr>)"
      and client: "\<exists>msg c'. client_main plain_env (C out) = Exited 0 msg c' \<and> net_out (cl_net c') = ?bytes"
    using whole_session [OF secret_server_rel(1) acc calm_env n(1,2) env(1) bob_printable n(3,4,5) env(2-5) str n(6), where i = 0 and sock = 4 and ks = "[]"] C by blast
  obtain msg c' where c': "client_main plain_env (C out) = Exited 0 msg c'" "net_out (cl_net c') = ?bytes" using client by blast
  have "scores_content (srv_db s') = scores_text [(''bob'', 4)]" using run(2) by (simp add: service_rel_def)
  then have "handle_client calm_env 0 4 [] secret_server ?srevs (replicate 8 (Sent 20000)) = (Conn_closed, s', out)
     \<and> scores_content (srv_db s') = scores_text [(''bob'', 4)]
     \<and> client_main plain_env (C out) = Exited 0 msg c' \<and> net_out (cl_net c') = stream ?srevs" using run(1) c' str by simp
  then show ?thesis by blast
qed

end
