(* ===== verification/Spec2Isabelle.thy ===== *)
theory Spec2Isabelle
  imports Server_Interleaving Server_Main Whole_Session
begin

text \<open>
  The Rain Typing Game: a server that keeps accounts, scores and a list of words, and clients on which the words
  rain down the terminal and are typed away.

  \<^bold>\<open>The parts and how they interact.\<close> The server (\<^verbatim>\<open>server/src\<close>) accepts connections and starts a thread for
  each; the threads share the two data files and the table of logged-in users, each under its own mutex. A client
  (\<^verbatim>\<open>client/src\<close>) is one main thread with its menus; during a game there is a further thread for every word on the
  screen, and they share the words, the state of the game and a hash table of active words. Client and server
  exchange packed structs behind a header (\<^verbatim>\<open>common/include/protocol.h\<close>); passwords travel as SHA-256 hashes
  (\<^verbatim>\<open>common/src/hash_util.c\<close>).

  \<^bold>\<open>Theories and sources.\<close>

  \<^item> \<open>Prelude\<close>: C strings, \<open>strcmp\<close>, \<open>strncpy\<close>, \<open>snprintf\<close>, \<open>strtol\<close>, 32-bit integers, little-endian fields; the
    locale \<open>preserved\<close> (a step relation and an invariant), interpreted for every step relation below.
  \<^item> \<open>Protocol\<close> (\<^verbatim>\<open>protocol.h\<close>): message types, header and structs as bytes. A struct that is read beyond
    what was received gives \<open>None\<close>: undefined behaviour.
  \<^item> \<open>Hash_Util\<close> (\<^verbatim>\<open>hash_util.c\<close>): the OpenSSL digest is a parameter, the record \<open>evp\<close>.
  \<^item> \<open>Db_Handler\<close> (\<^verbatim>\<open>db_handler.c\<close>): files are optional strings, and the answers of the system calls (\<open>io\<close>) are inputs,
    torn writes included. The locale \<open>directory\<close> states what a store of accounts promises.
  \<^item> \<open>Auth_Manager\<close>, \<open>Score_Manager\<close>, \<open>Word_Manager\<close> (\<^verbatim>\<open>auth_manager.c\<close>, \<^verbatim>\<open>score_manager.c\<close>,
    \<^verbatim>\<open>word_manager.c\<close>): registration and login, submission and leaderboard, loading the words. \<open>qsort\<close> enters only
    through the contract of the locale \<open>c_sort\<close>: an ordered permutation.
  \<^item> \<open>Net_IO\<close>, \<open>Login_Table\<close>, \<open>Server_Network\<close> (\<^verbatim>\<open>server_network.c\<close>): \<open>recv_all\<close> and \<open>send_all\<close> over lists of
    events, the table of logged-in users, one message (\<open>handle_message\<close>) and one connection (\<open>handle_client\<close>).
  \<^item> \<open>Server_Service\<close>: the abstract service (accounts, scores, names online) and the proof that \<open>handle_message\<close>
    implements it. \<open>Server_Connection\<close>: the same for a whole connection over its byte stream, and clients that do not
    keep to the protocol.
  \<^item> \<open>Server_System\<close>, \<open>Server_Interleaving\<close>: many connections, first with atomic messages, then with every
    critical section a step of its own.
  \<^item> \<open>Server_Main\<close> (\<^verbatim>\<open>server_main.c\<close>): start, accept loop, signals, shut-down.
  \<^item> \<open>Client_Network\<close> (\<^verbatim>\<open>client_network.c\<close>): requests and responses of the client, against the server's model.
  \<^item> \<open>Active_Words\<close>, \<open>Game_Logic\<close>, \<open>Game_Threads\<close>, \<open>Game_Screen\<close> (\<^verbatim>\<open>game_logic.c\<close>): the hash table; the functions
    on the state \<open>game\<close> (word store, slots, input line, score, lives); the threads as step relations; the drawing.
  \<^item> \<open>Client_Screen\<close>, \<open>Auth_UI\<close>, \<open>Info_UI\<close>, \<open>Client_Main\<close> (\<^verbatim>\<open>client_globals.h\<close>, \<^verbatim>\<open>auth_ui.c\<close>,
    \<^verbatim>\<open>leaderboard_ui.c\<close> and \<^verbatim>\<open>how_to_play_ui.c\<close>, \<^verbatim>\<open>client_main.c\<close>): the client's program. Its state \<open>client\<close> holds
    the connection, the keys still to come, the screen commands so far, the flags of the signal handler and the game;
    a part of the program is a function from a state to an outcome (a value, the end of the program, or why it does
    not return), composed with \<open>seq\<close>. The locale \<open>act_relation\<close> states when a relation between states is kept by such
    compositions; it is interpreted for what the menus may change, for what is sent, and for the keys.
  \<^item> \<open>Whole_Session\<close>: the client's program and the server's connection together, from the login to the exit.

  \<^bold>\<open>What the lemmas show.\<close>

  \<^item> Data: files, structs and hash tables stand for maps, lists and sets, and the operations are those of the
    abstraction (\<open>scores_roundtrip\<close>, \<open>login_table_is_set\<close>, \<open>active_table_is_set\<close>, \<open>register_then_login\<close>).
  \<^item> The server implements its service, message by message, over a whole connection, after a restart, and as the
    client sees it (\<open>handler_implements_service\<close>, \<open>connection_serves_requests\<close>, \<open>restart_restores_service\<close>,
    \<open>client_understands_server\<close>, \<open>typed_login_opens_session\<close>, \<open>words_come_from_server\<close>, \<open>whole_session\<close>).
  \<^item> Threads: what every interleaving keeps (\<open>accounts_survive\<close>, \<open>sessions_bounded\<close>, \<open>every_interleaving_keeps_game\<close>),
    and what it can break (\<open>double_login_race\<close>, \<open>registration_race\<close>, \<open>late_end_removes_respawned_word\<close>,
    \<open>cleanup_can_deadlock\<close>).
  \<^item> Ends: what each loop and each exit leaves behind (\<open>game_result\<close>, \<open>threads_end_after_game_over\<close>,
    \<open>every_exit_cleans_up\<close>, \<open>signal_ends_accept_loop\<close>).
  \<^item> Errors: inputs and failures the code does not survive, each with its exact condition.

  \<^bold>\<open>Bounds and fuel.\<close> Loops over a finite input recurse on it. The receive loop and \<open>handle_client\<close> have a
  termination proof by the bytes and events still pending, the input field and the wait for a key by the keys still to
  come. \<open>load_wordlist_from_file\<close> can jump back without end, so it takes one \<open>pass_io\<close> for every pass and gives \<open>None\<close> when
  they are used up; \<open>load_wordlist_returns\<close> shows that two are enough on a working disk. The loops of the menus take as
  fuel one more than the number of keys; \<open>auth_loop_enough\<close>, \<open>menu_loop_enough\<close> and \<open>session_loop_enough\<close> show that more
  changes nothing, because every round takes a key. The accept loop and the game take one record for each round, which says
  what the system calls, the clock and the random numbers give in it. Integers of the wire, the scores and \<open>size_t\<close>
  expressions are taken modulo their width; the counters of a game stay in small ranges, which the invariants prove.

  \<^bold>\<open>How the threads are abstracted.\<close> The step relations of \<open>Game_Threads\<close> let the main thread take the parts of its
  loop in any order, so they admit every run of the program; what is shown to hold of all their runs holds of the
  program's. A run that shows an error takes the parts in the order of the loop. In \<open>Game_Logic\<close> the game is one loop: the
  sections of the word threads (a drop, an end, the sight of a signal) are lists of \<open>thread_act\<close> at three points of each
  round, in any order, and the joins return; when they do not is the subject of
  \<open>cleanup_returns_iff_threads_ended\<close>. On the server, the threads of other connections enter \<open>handle_client\<close> before each
  message and at its end; their steps between each other are those of \<open>Server_Interleaving\<close>. \<open>SIGPIPE\<close> has its default
  action (no file of \<^verbatim>\<open>src\<close> changes it, and \<open>send\<close> is called with no flags), so that the answer \<open>Send_pipe\<close> of a \<open>send\<close> ends the process.

  \<^bold>\<open>Not modelled.\<close> The set-up of the terminal (\<open>init_ncurses_settings\<close>, \<open>end_ncurses_settings\<close>) and what the screen library
  makes of its commands; log lines and \<open>init_score_system\<close>, which only print; the OpenSSL library; the build
  file and the documents, which hold no program code.
\<close>

end
